(* ===== verification/Prelude.thy ===== *)
theory Prelude
  imports Main "HOL-Library.Word"
begin

text \<open>
  Shared vocabulary of the development.  The kernel is 32-bit C, so its unsigned integers are
  words of their own width (\<open>uint8_t\<close> is \<open>u8\<close>, \<open>uint32_t\<close> and every pointer is \<open>u32\<close>), with the
  wrap-around of the C type.  The theory also holds the generic facts about words, page
  arithmetic and lists that the component theories share.
\<close>

unbundle bit_operations_syntax

type_synonym u8 = "8 word"
type_synonym u16 = "16 word"
type_synonym u32 = "32 word"
type_synonym u64 = "64 word"

text \<open>
  \<open>frame_simps\<close> collects what an operation leaves unchanged, \<open>flag_simps\<close> rewrites the tests of
  single flag bits to \<^const>\<open>bit\<close>, and \<open>page_simps\<close> holds the arithmetic of page-aligned addresses.
\<close>

named_theorems frame_simps
named_theorems flag_simps
named_theorems page_simps

section \<open>Words\<close>

lemma unat_u32_less: "unat (a :: u32) < 4294967296"
  using unsigned_less [of a, where ?'a = nat] by simp

lemma unat_u8_less: "unat (a :: u8) < 256"
  using unsigned_less [of a, where ?'a = nat] by simp

lemma unat_add_u32: "unat (a + b :: u32) = (unat a + unat b) mod 4294967296"
  by (simp add: unat_word_ariths)

lemma unat_mult_u32: "unat (a * b :: u32) = (unat a * unat b) mod 4294967296"
  by (simp add: unat_word_ariths)

lemma unat_add_no_wrap:
  "unat a + unat b < 4294967296 \<Longrightarrow> unat (a + b :: u32) = unat a + unat b"
  by (simp add: unat_add_u32)

lemma unat_sub_no_wrap: "(b :: u32) \<le> a \<Longrightarrow> unat (a - b) = unat a - unat b"
  by (rule unat_sub)

lemma unat_of_nat_u32: "n < 4294967296 \<Longrightarrow> unat (of_nat n :: u32) = n"
  by (simp add: unat_of_nat)

lemma unat_add_one: "(i :: u32) < e \<Longrightarrow> unat (i + 1) = unat i + 1"
  using unat_u32_less [of e] by (simp add: unat_add_u32 word_less_nat_alt)

lemma less_succ_word: "(i :: u32) < e \<Longrightarrow> j < i + 1 \<longleftrightarrow> j < i \<or> j = i"
  using unat_add_one [of i e] by (auto simp: word_less_nat_alt word_unat_eq_iff)

lemma word_flag_0 [flag_simps]: "(w :: 'a :: len word) AND 1 = 0 \<longleftrightarrow> \<not> bit w 0"
  by (simp add: and_one_eq odd_iff_mod_2_eq_one bit_0 even_iff_mod_2_eq_zero)

lemma word_flag_1 [flag_simps]: "(w :: u32) AND 2 = 0 \<longleftrightarrow> \<not> bit w 1"
  using and_exp_eq_0_iff_not_bit [of w 1] by simp

lemma word_flag_2 [flag_simps]: "(w :: u32) AND 4 = 0 \<longleftrightarrow> \<not> bit w 2"
  using and_exp_eq_0_iff_not_bit [of w 2] by simp

lemma word_flag_9 [flag_simps]: "(w :: u32) AND 512 = 0 \<longleftrightarrow> \<not> bit w 9"
  using and_exp_eq_0_iff_not_bit [of w 9] by simp

lemma word_flag_0_neq [flag_simps]: "(w :: 'a :: len word) AND 1 \<noteq> 0 \<longleftrightarrow> bit w 0"
  by (simp add: word_flag_0)

lemma unat_plus: "unat (p :: u32) + n < 4294967296 \<Longrightarrow> unat (p + of_nat n) = unat p + n"
  by (simp add: unat_add_u32 unat_of_nat_u32)

lemma and_not_mask_unat: "unat (x AND NOT (mask n) :: u32) = 2 ^ n * (unat x div 2 ^ n)"
proof -
  have "x AND NOT (mask n) = push_bit n (drop_bit n x)"
    by (rule bit_word_eqI) (auto simp: bit_and_iff bit_not_iff bit_mask_iff bit_push_bit_iff bit_drop_bit_eq)
  then have "unat (x AND NOT (mask n)) = take_bit 32 (push_bit n (unat (drop_bit n x)))"
    by (simp only: unsigned_push_bit_eq) simp
  also have "unat (drop_bit n x) = unat x div 2 ^ n"
    by (subst unat_drop_bit_eq) (rule drop_bit_eq_div)
  also have "take_bit 32 (push_bit n (unat x div 2 ^ n)) = (2 ^ n * (unat x div 2 ^ n)) mod 4294967296"
    by (simp add: push_bit_eq_mult take_bit_eq_mod mult.commute)
  also have "\<dots> = 2 ^ n * (unat x div 2 ^ n)"
    by (rule mod_less) (rule le_less_trans [OF times_div_less_eq_dividend unat_u32_less])
  finally show ?thesis .
qed

section \<open>Page arithmetic\<close>

text \<open>An address is page aligned when its low twelve bits are clear.\<close>

definition page_aligned :: "u32 \<Rightarrow> bool" where
  "page_aligned a \<longleftrightarrow> a AND 0xFFF = 0"

definition FRAME_OF :: "u32 \<Rightarrow> u32" where
  "FRAME_OF e = e AND 0xFFFFF000"

lemma mask_12: "(0xFFF :: u32) = mask 12"
  by (simp add: mask_eq_exp_minus_1)

lemma mask_12_not: "(0xFFFFF000 :: u32) = NOT (mask 12)"
  by (simp add: mask_eq_exp_minus_1)

lemma page_aligned_bits: "page_aligned a \<longleftrightarrow> (\<forall>n < 12. \<not> bit a n)"
proof
  assume "page_aligned a"
  then have "take_bit 12 a = 0"
    by (simp only: page_aligned_def mask_12 take_bit_eq_mask)
  then show "\<forall>n < 12. \<not> bit a n"
    by (metis bit_take_bit_iff bit_0_eq bot_apply bot_bool_def)
next
  assume "\<forall>n < 12. \<not> bit a n"
  then have "take_bit 12 a = 0"
    by (intro bit_word_eqI) (auto simp: bit_take_bit_iff)
  then show "page_aligned a"
    by (simp only: page_aligned_def mask_12 take_bit_eq_mask)
qed

lemma FRAME_OF_bit [page_simps]: "bit (FRAME_OF e) n \<longleftrightarrow> bit e n \<and> 12 \<le> n"
  unfolding FRAME_OF_def mask_12_not
  by (auto simp: bit_and_iff bit_not_iff bit_mask_iff dest: bit_imp_le_length)

lemma low_bits_bit [page_simps]: "bit (e AND 0xFFF :: u32) n \<longleftrightarrow> bit e n \<and> n < 12"
  unfolding mask_12 by (auto simp: bit_and_iff bit_mask_iff dest: bit_imp_le_length)

lemma page_aligned_FRAME_OF [simp]: "page_aligned (FRAME_OF e)"
  by (simp add: page_aligned_bits FRAME_OF_bit)

lemma FRAME_OF_aligned: "page_aligned a \<Longrightarrow> FRAME_OF a = a"
  by (rule bit_word_eqI) (auto simp: page_aligned_bits FRAME_OF_bit not_less)

lemma FRAME_OF_idem [simp]: "FRAME_OF (FRAME_OF e) = FRAME_OF e"
  by (simp add: FRAME_OF_aligned)

lemma page_aligned_unat: "page_aligned a \<longleftrightarrow> unat a mod 4096 = 0"
proof -
  have "a AND 0xFFF = take_bit 12 a"
    by (simp only: mask_12 take_bit_eq_mask)
  then have "page_aligned a \<longleftrightarrow> unat (take_bit 12 a) = 0"
    by (simp add: page_aligned_def unat_eq_0)
  also have "unat (take_bit 12 a) = take_bit 12 (unat a)"
    by (rule unsigned_take_bit_eq)
  also have "\<dots> = unat a mod 4096"
    by (simp add: take_bit_eq_mod)
  finally show ?thesis .
qed

lemma page_aligned_obtain:
  assumes "page_aligned a"
  obtains k where "unat a = 4096 * k" and "k < 1048576"
proof -
  obtain k where k: "unat a = 4096 * k"
    using assms by (auto simp: page_aligned_unat elim!: dvdE simp flip: dvd_eq_mod_eq_0)
  with unat_u32_less [of a] have "k < 1048576"
    by simp
  with k that show thesis
    by blast
qed

text \<open>A frame address and twelve flag bits combine without interference.\<close>

lemma FRAME_OF_or_flags:
  assumes "page_aligned f"
  shows "FRAME_OF (f OR (g AND 0xFFF)) = f"
  using assms
  by (intro bit_word_eqI) (auto simp: page_aligned_bits FRAME_OF_bit bit_or_iff low_bits_bit not_less)

lemma FRAME_OF_or_small: "page_aligned f \<Longrightarrow> g AND 0xFFF = g \<Longrightarrow> FRAME_OF (f OR g) = f"
  using FRAME_OF_or_flags [of f g] by simp

lemma FRAME_OF_split: "FRAME_OF e OR (e AND 0xFFF) = e"
  by (rule bit_word_eqI) (auto simp: FRAME_OF_bit bit_or_iff low_bits_bit)

lemma or_flags_bit_low:
  "page_aligned f \<Longrightarrow> n < 12 \<Longrightarrow> bit (f OR g) n \<longleftrightarrow> bit g n"
  by (simp add: page_aligned_bits bit_or_iff)

lemma unat_FRAME_OF: "unat (FRAME_OF x) = 4096 * (unat x div 4096)"
proof -
  have "FRAME_OF x = push_bit 12 (drop_bit 12 x)"
    by (rule bit_word_eqI) (auto simp: FRAME_OF_bit bit_push_bit_iff bit_drop_bit_eq)
  then have "unat (FRAME_OF x) = take_bit 32 (push_bit 12 (unat (drop_bit 12 x)))"
    by (simp only: unsigned_push_bit_eq) simp
  also have "\<dots> = (4096 * (unat x div 4096)) mod 4294967296"
    by (simp add: unat_drop_bit_eq push_bit_eq_mult drop_bit_eq_div take_bit_eq_mod mult.commute unat_div)
  also have "\<dots> = 4096 * (unat x div 4096)"
    using unat_u32_less [of x] by simp
  finally show ?thesis .
qed

end
