(* ===== verification/Memory.thy ===== *)
theory Memory
  imports Prelude
begin

text \<open>
  Physical memory and the block operations of \<open>kernel/string.c\<close>.  Memory is a function from
  32-bit addresses to bytes; a \<open>uint32_t\<close> is read and written as four bytes, least significant
  first, as the x86 does.  The kernel runs in the identity-mapped low 8 MB, so the pointers it
  follows are physical addresses.
\<close>

type_synonym mem = "u32 \<Rightarrow> u8"

definition load32 :: "mem \<Rightarrow> u32 \<Rightarrow> u32" where
  "load32 m a = ucast (m a) OR push_bit 8 (ucast (m (a + 1)))
     OR push_bit 16 (ucast (m (a + 2))) OR push_bit 24 (ucast (m (a + 3)))"

definition store32 :: "mem \<Rightarrow> u32 \<Rightarrow> u32 \<Rightarrow> mem" where
  "store32 m a v = m(a := ucast v, a + 1 := ucast (drop_bit 8 v),
     a + 2 := ucast (drop_bit 16 v), a + 3 := ucast (drop_bit 24 v))"

text \<open>
  \<open>memset\<close> and \<open>memcpy\<close> are the byte loops of the source, the index running upwards from 0.
\<close>

definition memset :: "mem \<Rightarrow> u32 \<Rightarrow> u8 \<Rightarrow> u32 \<Rightarrow> mem" where
  "memset m dst v n = fold (\<lambda>i m. m(dst + of_nat i := v)) [0..<unat n] m"

definition memcpy :: "mem \<Rightarrow> u32 \<Rightarrow> u32 \<Rightarrow> u32 \<Rightarrow> mem" where
  "memcpy m dst src n =
     fold (\<lambda>i m. m(dst + of_nat i := m (src + of_nat i))) [0..<unat n] m"

section \<open>Four-byte accesses\<close>

text \<open>The bytes an access of \<open>n\<close> bytes at \<open>a\<close> covers.\<close>

definition footprint :: "u32 \<Rightarrow> nat \<Rightarrow> u32 set" where
  "footprint a n = {x. unat (x - a) < n}"

lemma load32_store32 [simp]: "load32 (store32 m a v) a = v"
proof (rule bit_word_eqI)
  fix n :: nat
  assume "n < LENGTH(32)"
  then consider "n < 8" | "8 \<le> n" "n < 16" | "16 \<le> n" "n < 24" | "24 \<le> n" "n < 32"
    by fastforce
  then show "bit (load32 (store32 m a v) a) n = bit v n"
    by cases (auto simp: load32_def store32_def bit_or_iff bit_push_bit_iff bit_drop_bit_eq
        bit_ucast_iff)
qed

lemma store32_outside: "x \<notin> footprint a 4 \<Longrightarrow> store32 m a v x = m x"
  by (auto simp: store32_def footprint_def)

lemma in_footprint4: "x \<in> footprint a 4 \<longleftrightarrow> x = a \<or> x = a + 1 \<or> x = a + 2 \<or> x = a + 3"
proof -
  have "unat (x - a) < 4 \<longleftrightarrow> x - a = 0 \<or> x - a = 1 \<or> x - a = 2 \<or> x - a = 3"
    by (auto simp: word_unat_eq_iff)
  then show ?thesis
    by (auto simp: footprint_def algebra_simps)
qed

lemma load32_cong: "(\<And>x. x \<in> footprint a 4 \<Longrightarrow> m x = m' x) \<Longrightarrow> load32 m a = load32 m' a"
  by (simp add: load32_def in_footprint4)

lemma load32_store32_disjoint:
  "footprint a 4 \<inter> footprint b 4 = {} \<Longrightarrow> load32 (store32 m a v) b = load32 m b"
  by (rule load32_cong) (auto intro: store32_outside)

definition word_aligned :: "u32 \<Rightarrow> bool" where
  "word_aligned a \<longleftrightarrow> unat a mod 4 = 0"

lemma unat_footprint:
  assumes "unat a + n \<le> 4294967296"
  shows "x \<in> footprint a n \<longleftrightarrow> unat a \<le> unat x \<and> unat x < unat a + n"
proof (cases "a \<le> x")
  case True
  then show ?thesis
    by (auto simp: footprint_def unat_sub_no_wrap word_le_nat_alt)
next
  case False
  then have "unat (x - a) = unat x + 4294967296 - unat a"
    using unat_sub_if' [of x a] by (simp add: word_le_nat_alt)
  with False assms show ?thesis
    by (auto simp: footprint_def word_le_nat_alt)
qed

lemma footprint4_disjoint:
  assumes "word_aligned a" "word_aligned b" "a \<noteq> b"
  shows "footprint a 4 \<inter> footprint b 4 = {}"
proof -
  have bnd: "unat c + 4 \<le> 4294967296" if "word_aligned c" for c :: u32
    using that unat_u32_less [of c] unfolding word_aligned_def by presburger
  have "unat a \<noteq> unat b"
    using assms(3) by (simp add: word_unat_eq_iff)
  then have "unat a + 4 \<le> unat b \<or> unat b + 4 \<le> unat a"
    using assms(1,2) unfolding word_aligned_def by presburger
  then show ?thesis
    using bnd assms by (fastforce simp: unat_footprint)
qed

lemma load32_store32_other:
  assumes "word_aligned a" "word_aligned b" "a \<noteq> b"
  shows "load32 (store32 m a v) b = load32 m b"
  using footprint4_disjoint [OF assms] by (rule load32_store32_disjoint)

lemma footprint_sub: "unat b + n \<le> k \<Longrightarrow> footprint (a + b) n \<subseteq> footprint a k"
proof
  fix x assume k: "unat b + n \<le> k" and "x \<in> footprint (a + b) n"
  then have lt: "unat (x - (a + b)) < n"
    by (simp add: footprint_def)
  have "x - a = (x - (a + b)) + b"
    by simp
  then have "unat (x - a) \<le> unat (x - (a + b)) + unat b"
    by (metis unat_add_u32 mod_less_eq_dividend)
  then show "x \<in> footprint a k"
    using lt k by (simp add: footprint_def)
qed

lemma footprint_apart:
  assumes "n \<le> unat d" "unat d + k \<le> 4294967296"
  shows "footprint (a + d) k \<inter> footprint a n = {}"
proof -
  have False if "unat (x - (a + d)) < k" "unat (x - a) < n" for x
  proof -
    have "unat (x - (a + d)) + unat d < 4294967296"
      using that(1) assms(2) by simp
    then have "unat ((x - (a + d)) + d) = unat (x - (a + d)) + unat d"
      by (rule unat_add_no_wrap)
    then show False
      using that(2) assms(1) by simp
  qed
  then show ?thesis
    by (auto simp: footprint_def)
qed

section \<open>Block operations\<close>

lemma unat_numeral_4096: "unat (4096 :: u32) = 4096"
  by simp

lemma word_offset_eq:
  "n < 4294967296 \<Longrightarrow> (a :: u32) = d + of_nat n \<longleftrightarrow> unat (a - d) = n"
proof -
  assume n: "n < 4294967296"
  have "a = d + of_nat n \<longleftrightarrow> a - d = of_nat n"
    by (auto simp: algebra_simps)
  then show ?thesis
    using n by (simp add: word_unat_eq_iff unat_of_nat_u32)
qed

lemma memset_loop:
  "n \<le> 4294967296 \<Longrightarrow>
   fold (\<lambda>i m. m((d :: u32) + of_nat i := v)) [0..<n] m a = (if unat (a - d) < n then v else m a)"
proof (induction n)
  case (Suc n)
  then have "n < 4294967296"
    by simp
  with Suc show ?case
    by (auto simp: word_offset_eq [of n a d] less_Suc_eq)
qed simp

theorem memset_apply: "memset m d v n a = (if a \<in> footprint d (unat n) then v else m a)"
  unfolding memset_def footprint_def
  using unat_u32_less [of n] by (subst memset_loop) auto

lemma memcpy_loop:
  assumes "n \<le> 4294967296" and "footprint d n \<inter> footprint s n = {}"
  shows "fold (\<lambda>i m. m((d :: u32) + of_nat i := m (s + of_nat i))) [0..<n] m a
    = (if unat (a - d) < n then m (s + (a - d)) else m a)"
  using assms
proof (induction n arbitrary: a)
  case 0
  then show ?case by simp
next
  case (Suc n)
  have sub: "footprint d n \<inter> footprint s n = {}"
    using Suc.prems(2) by (auto simp: footprint_def disjoint_iff dest: less_SucI)
  have n: "n < 4294967296"
    using Suc.prems(1) by simp
  have "s + of_nat n \<in> footprint s (Suc n)"
    using n by (simp add: footprint_def unat_of_nat_u32)
  then have "s + of_nat n \<notin> footprint d (Suc n)"
    using Suc.prems(2) by blast
  then have out: "\<not> unat (s + of_nat n - d) < n"
    by (simp add: footprint_def)
  show ?case
    using Suc.IH [OF _ sub] Suc.prems(1) n out
    by (auto simp: word_offset_eq [OF n, of a d] less_Suc_eq)
qed

theorem memcpy_apply:
  assumes "footprint d (unat n) \<inter> footprint s (unat n) = {}"
  shows "memcpy m d s n a = (if a \<in> footprint d (unat n) then m (s + (a - d)) else m a)"
  unfolding memcpy_def
  using unat_u32_less [of n] by (subst memcpy_loop [OF _ assms]) (auto simp: footprint_def)

section \<open>Frames as arrays of 1024 entries\<close>

text \<open>
  Page directories and page tables are \<open>uint32_t[1024]\<close> arrays that fill a frame.  The rules below
  are all that the virtual memory manager needs to know about bytes: an entry is changed by a
  store to that entry only, a cleared frame reads as zero, a copied frame reads as its source.
\<close>

lemma unat_entry_addr [page_simps]:
  assumes "page_aligned F" "i < (1024 :: u32)"
  shows "unat (F + 4 * i) = unat F + 4 * unat i"
proof -
  obtain k where k: "unat F = 4096 * k" "k < 1048576"
    using assms(1) by (rule page_aligned_obtain)
  have i: "unat i < 1024"
    using assms(2) by (simp add: word_less_nat_alt)
  then have "unat (4 * i) = 4 * unat i"
    by (simp add: unat_mult_u32)
  moreover have "4096 * k + 4 * unat i < 4294967296"
    using k(2) i by simp
  ultimately show ?thesis
    using k by (simp add: unat_add_u32)
qed

lemma word_aligned_entry:
  assumes "page_aligned F" "i < 1024"
  shows "word_aligned (F + 4 * i)"
proof -
  obtain k where "unat F = 4096 * k"
    using assms(1) by (rule page_aligned_obtain)
  then have "unat (F + 4 * i) = 4 * (1024 * k + unat i)"
    using assms by (simp add: unat_entry_addr)
  then show ?thesis
    by (simp add: word_aligned_def)
qed

lemma entry_addr_eq:
  assumes "page_aligned F" "page_aligned G" "i < 1024" "j < (1024 :: u32)"
  shows "F + 4 * i = G + 4 * j \<longleftrightarrow> F = G \<and> i = j"
proof -
  obtain k l where kl: "unat F = 4096 * k" "unat G = 4096 * l"
    using assms(1,2) by (metis page_aligned_obtain)
  have ij: "unat i < 1024" "unat j < 1024"
    using assms(3,4) by (simp_all add: word_less_nat_alt)
  have "F + 4 * i = G + 4 * j \<longleftrightarrow> 4096 * k + 4 * unat i = 4096 * l + 4 * unat j"
    using assms kl by (simp add: word_unat_eq_iff unat_entry_addr)
  also have "\<dots> \<longleftrightarrow> k = l \<and> unat i = unat j"
    using ij by (cases k l rule: linorder_cases) auto
  finally show ?thesis
    using kl by (simp add: word_unat_eq_iff)
qed

lemma footprint_page:
  "page_aligned F \<Longrightarrow> x \<in> footprint F 4096 \<longleftrightarrow> unat F \<le> unat x \<and> unat x < unat F + 4096"
  by (rule unat_footprint) (auto elim!: page_aligned_obtain)

lemma footprint_page_iff: "page_aligned F \<Longrightarrow> x \<in> footprint F 4096 \<longleftrightarrow> FRAME_OF x = F"
proof -
  assume F: "page_aligned F"
  have "unat (FRAME_OF x) = 4096 * (unat x div 4096)"
    by (rule unat_FRAME_OF)
  moreover obtain k where "unat F = 4096 * k"
    using F by (rule page_aligned_obtain)
  ultimately show ?thesis
    using F by (auto simp: footprint_page word_unat_eq_iff)
qed

lemma entry_in_page:
  assumes "page_aligned F" "i < (1024 :: u32)" "x \<in> footprint (F + 4 * i) 4"
  shows "x \<in> footprint F 4096"
proof -
  have i: "unat i < 1024"
    using assms(2) by (simp add: word_less_nat_alt)
  obtain k where "unat F = 4096 * k" "k < 1048576"
    using assms(1) by (rule page_aligned_obtain)
  then have "unat (F + 4 * i) + 4 \<le> 4294967296"
    using assms(1,2) i by (simp add: unat_entry_addr)
  then show ?thesis
    using assms i by (simp add: unat_footprint footprint_page unat_entry_addr)
qed

lemma load_store_entry [page_simps]:
  assumes "page_aligned F" "page_aligned G" "i < 1024" "j < (1024 :: u32)"
  shows "load32 (store32 m (F + 4 * i) v) (G + 4 * j)
    = (if F = G \<and> i = j then v else load32 m (G + 4 * j))"
  using assms by (auto simp: load32_store32_other word_aligned_entry entry_addr_eq)

lemma load_memset_entry [page_simps]:
  assumes "page_aligned F" "page_aligned G" "j < (1024 :: u32)"
  shows "load32 (memset m F 0 4096) (G + 4 * j) = (if F = G then 0 else load32 m (G + 4 * j))"
proof (cases "F = G")
  case True
  have "load32 (memset m F 0 4096) (G + 4 * j) = load32 (\<lambda>_. 0) (G + 4 * j)"
    using assms True by (intro load32_cong) (simp add: memset_apply entry_in_page)
  then show ?thesis
    using True by (simp add: load32_def)
next
  case False
  have "load32 (memset m F 0 4096) (G + 4 * j) = load32 m (G + 4 * j)"
    using assms False
    by (intro load32_cong) (metis entry_in_page footprint_page_iff memset_apply unat_numeral_4096)
  then show ?thesis
    using False by simp
qed

text \<open>\<open>memcpy\<close> of the bytes of a buffer that is not part of the memory, to memory.\<close>

definition put_bytes :: "u32 \<Rightarrow> u8 list \<Rightarrow> mem \<Rightarrow> mem" where
  "put_bytes dst w m = fold (\<lambda>i m. m(dst + of_nat i := w ! i)) [0..<length w] m"

lemma put_bytes_apply:
  assumes "unat dst + length w \<le> 4294967296"
  shows "put_bytes dst w m x =
    (if unat dst \<le> unat x \<and> unat x < unat dst + length w then w ! (unat x - unat dst) else m x)"
proof -
  have "fold (\<lambda>i m. m(dst + of_nat i := w ! i)) [0..<n] m x =
      (if unat dst \<le> unat x \<and> unat x < unat dst + n then w ! (unat x - unat dst) else m x)"
    if "n \<le> length w" for n
    using that
  proof (induction n)
    case (Suc n)
    have "unat (dst + of_nat n) = unat dst + n"
      using Suc(2) assms by (intro unat_plus) simp
    then have "x = dst + of_nat n \<longleftrightarrow> unat x = unat dst + n"
      by (simp add: word_unat_eq_iff)
    then show ?case
      using Suc by auto
  qed auto
  then show ?thesis
    by (simp add: put_bytes_def)
qed

end
