(* ===== verification/Blocks.thy ===== *)
theory Blocks
  imports Memory
begin

text \<open>
  Heaps that are lists of blocks.  The kernel's heap and the heap of a user program keep their blocks the same way: a header
  that begins with the size, the free flag and the link to the next block, four bytes each, and the payload right after it.
  They differ in the size of the header and in when they split and merge.  This theory holds what they share, for a header
  of \<open>h\<close> bytes.
\<close>

text \<open>The fields of a header at an address.\<close>

definition block_size :: "mem \<Rightarrow> u32 \<Rightarrow> u32" where
  "block_size m b = load32 m b"

definition block_free :: "mem \<Rightarrow> u32 \<Rightarrow> u32" where
  "block_free m b = load32 m (b + 4)"

definition block_next :: "mem \<Rightarrow> u32 \<Rightarrow> u32" where
  "block_next m b = load32 m (b + 8)"

section \<open>The heap as a list of blocks\<close>

text \<open>
  \<open>blocks h m p a e bs\<close>: the headers linked from \<open>p\<close> describe the blocks \<open>bs\<close>, pairs of a payload size
  and a free flag, which tile the addresses from \<open>a\<close> up to \<open>e\<close> without gap or overlap.
\<close>

fun blocks :: "nat \<Rightarrow> mem \<Rightarrow> u32 \<Rightarrow> nat \<Rightarrow> nat \<Rightarrow> (nat \<times> bool) list \<Rightarrow> bool" where
  "blocks h m p a e [] \<longleftrightarrow> p = 0 \<and> a = e"
| "blocks h m p a e ((n, f) # bs) \<longleftrightarrow> unat p = a \<and> a \<noteq> 0 \<and> 4 dvd a \<and> 4 dvd n \<and> a + h + n \<le> e \<and>
     unat (block_size m p) = n \<and> block_free m p = of_bool f \<and>
     blocks h m (block_next m p) (a + h + n) e bs"

text \<open>The payloads of the blocks that are in use, as address and size.\<close>

fun in_use :: "nat \<Rightarrow> nat \<Rightarrow> (nat \<times> bool) list \<Rightarrow> (nat \<times> nat) set" where
  "in_use h a [] = {}"
| "in_use h a ((n, f) # bs) = (if f then {} else {(a + h, n)}) \<union> in_use h (a + h + n) bs"

text \<open>
  Taking the first free block that is large enough: the payload address and the new list.  A remainder is split off if it
  has room for a header and \<open>g\<close> bytes.
\<close>

fun first_fit :: "nat \<Rightarrow> nat \<Rightarrow> nat \<Rightarrow> nat \<Rightarrow> (nat \<times> bool) list \<Rightarrow> (nat \<times> (nat \<times> bool) list) option" where
  "first_fit h g sz a [] = None"
| "first_fit h g sz a ((n, f) # bs) =
     (if f \<and> sz \<le> n
      then Some (a + h, if sz + h + g \<le> n then (sz, False) # (n - sz - h, True) # bs else (n, False) # bs)
      else map_option (\<lambda>(q, bs). (q, (n, f) # bs)) (first_fit h g sz (a + h + n) bs))"

text \<open>The block that was chosen; memory changes inside it only.\<close>

fun chosen :: "nat \<Rightarrow> nat \<Rightarrow> nat \<Rightarrow> (nat \<times> bool) list \<Rightarrow> nat \<times> nat" where
  "chosen h sz a [] = (a, 0)"
| "chosen h sz a ((n, f) # bs) = (if f \<and> sz \<le> n then (a, n) else chosen h sz (a + h + n) bs)"

text \<open>What taking a block does to memory: split off the remainder, clear the flag.\<close>

definition take_block :: "u32 \<Rightarrow> u32 \<Rightarrow> u32 \<Rightarrow> u32 \<Rightarrow> mem \<Rightarrow> mem" where
  "take_block hdr gap sz cur m =
     (let m = (if sz + hdr + gap \<le> block_size m cur
               then let rest = cur + hdr + sz;
                        m = store32 m rest (block_size m cur - sz - hdr);
                        m = store32 m (rest + 4) 1;
                        m = store32 m (rest + 8) (block_next m cur);
                        m = store32 m cur sz
                    in store32 m (cur + 8) rest
               else m)
      in store32 m (cur + 4) 0)"

text \<open>No two neighbours are both free.\<close>

fun head_free :: "(nat \<times> bool) list \<Rightarrow> bool" where
  "head_free [] = False"
| "head_free ((n, f) # bs) = f"

fun coalesced :: "(nat \<times> bool) list \<Rightarrow> bool" where
  "coalesced [] = True"
| "coalesced ((n, f) # bs) = (\<not> (f \<and> head_free bs) \<and> coalesced bs)"

lemma word_aligned_iff: "word_aligned p \<longleftrightarrow> 4 dvd unat p"
  by (simp add: word_aligned_def dvd_eq_mod_eq_0)

lemma unat_plus_num:
  "unat (p :: u32) + 4 < 4294967296 \<Longrightarrow> unat (p + 4) = unat p + 4"
  "unat (p :: u32) + 8 < 4294967296 \<Longrightarrow> unat (p + 8) = unat p + 8"
  "unat (p :: u32) + 12 < 4294967296 \<Longrightarrow> unat (p + 12) = unat p + 12"
  using unat_plus [of p 4] unat_plus [of p 8] unat_plus [of p 12] by simp_all

lemma store32_far:
  "unat x < unat a \<or> unat a + 4 \<le> unat x \<Longrightarrow> unat a + 4 \<le> 4294967296 \<Longrightarrow> store32 m a v x = m x"
  by (rule store32_outside) (auto simp: unat_footprint)

lemma load32_far:
  "\<forall>x. unat a \<le> unat x \<and> unat x < unat a + 4 \<longrightarrow> m' x = m x \<Longrightarrow> unat a + 4 \<le> 4294967296 \<Longrightarrow>
   load32 m' a = load32 m a"
  by (rule load32_cong) (auto simp: unat_footprint)

lemma load_store_aligned:
  "word_aligned x \<Longrightarrow> word_aligned y \<Longrightarrow> load32 (store32 m x v) y = (if x = y then v else load32 m y)"
  by (simp add: load32_store32_other)

text \<open>A header at an address that leaves room for it.\<close>

lemma header_words:
  assumes "4 dvd unat p" "unat p + 12 \<le> 4294967296"
  shows "unat (p + 4) = unat p + 4" "unat (p + 8) = unat p + 8"
    "word_aligned p" "word_aligned (p + 4)" "word_aligned (p + 8)"
proof -
  show u: "unat (p + 4) = unat p + 4" "unat (p + 8) = unat p + 8"
    using assms(2) by (auto intro!: unat_plus_num)
  show "word_aligned p" "word_aligned (p + 4)" "word_aligned (p + 8)"
    using assms(1) by (simp_all add: word_aligned_iff u)
qed

lemma fields_cong:
  assumes "\<forall>x. unat p \<le> unat x \<and> unat x < unat p + 12 \<longrightarrow> m' x = m x" "unat p + 12 \<le> 4294967296"
  shows "block_size m' p = block_size m p \<and> block_free m' p = block_free m p \<and> block_next m' p = block_next m p"
proof -
  have u: "unat (p + 4) = unat p + 4" "unat (p + 8) = unat p + 8"
    using assms(2) by (auto intro!: unat_plus_num)
  show ?thesis
    unfolding block_size_def block_free_def block_next_def using assms by (auto intro!: load32_far simp: u)
qed

lemma chosen_ge: "a \<le> fst (chosen h sz a bs)"
proof (induction bs arbitrary: a)
  case (Cons nf bs)
  obtain n f where nf: "nf = (n, f)"
    by (cases nf)
  have "a + h + n \<le> fst (chosen h sz (a + h + n) bs)"
    by (rule Cons.IH)
  then show ?case
    by (simp add: nf)
qed simp

lemma first_fit_None: "first_fit h g sz a bs = None \<Longrightarrow> (n, True) \<in> set bs \<Longrightarrow> n < sz"
  by (induction h g sz a bs rule: first_fit.induct) (auto split: if_splits)

lemma in_use_ge: "(q, n) \<in> in_use h a bs \<Longrightarrow> a + h \<le> q"
  by (induction h a bs rule: in_use.induct) (fastforce split: if_splits)+

text \<open>Where a block starts that follows the blocks \<open>pre\<close>.\<close>

fun place :: "nat \<Rightarrow> nat \<Rightarrow> (nat \<times> bool) list \<Rightarrow> nat" where
  "place h a [] = a"
| "place h a ((n, f) # bs) = place h (a + h + n) bs"

lemma first_fit_split:
  "first_fit h g sz a bs = Some (q, bs') \<Longrightarrow> \<exists>pre n post. bs = pre @ (n, True) # post \<and> (\<forall>k. (k, True) \<in> set pre \<longrightarrow> k < sz) \<and>
     sz \<le> n \<and> q = place h a pre + h \<and>
     bs' = pre @ (if sz + h + g \<le> n then [(sz, False), (n - sz - h, True)] else [(n, False)]) @ post"
proof (induction h g sz a bs arbitrary: bs' rule: first_fit.induct)
  case (2 h g sz a n f bs)
  show ?case
  proof (cases "f \<and> sz \<le> n")
    case True
    then show ?thesis
      using 2(2) by (intro exI [of _ "[]"] exI [of _ n] exI [of _ bs]) auto
  next
    case False
    then obtain cs where c: "first_fit h g sz (a + h + n) bs = Some (q, cs)" "bs' = (n, f) # cs"
      using 2(2) by auto
    then obtain pre k post where "bs = pre @ (k, True) # post" "\<forall>k. (k, True) \<in> set pre \<longrightarrow> k < sz" "sz \<le> k"
      "q = place h (a + h + n) pre + h"
      "cs = pre @ (if sz + h + g \<le> k then [(sz, False), (k - sz - h, True)] else [(k, False)]) @ post"
      using 2(1) [OF False c(1)] by blast
    then show ?thesis
      using False c(2) by (intro exI [of _ "(n, f) # pre"] exI [of _ k] exI [of _ post]) auto
  qed
qed simp

lemma first_fit_ge: "first_fit h g sz a bs = Some (q, bs') \<Longrightarrow> a + h \<le> q"
  by (induction h g sz a bs arbitrary: bs' rule: first_fit.induct) (fastforce split: if_splits)+

section \<open>Headers of h bytes\<close>

locale block_layout =
  fixes h :: nat and hdr :: u32
  assumes layout: "unat hdr = h" "12 \<le> h" "h \<le> 64" "4 dvd h"
begin

lemma blocks_induct [case_names Nil Cons]:
  "(\<And>m p a e. P m p a e []) \<Longrightarrow>
   (\<And>m p a e n f bs. P m (block_next m p) (a + h + n) e bs \<Longrightarrow> P m p a e ((n, f) # bs)) \<Longrightarrow> P m p a e bs"
  by (induction bs arbitrary: m p a e) auto

lemma blocks_le: "blocks h m p a e bs \<Longrightarrow> a \<le> e"
  by (induction m p a e bs rule: blocks_induct) auto

lemma blocks_cong:
  "blocks h m p a e bs \<Longrightarrow> e \<le> 4294967296 \<Longrightarrow> \<forall>x. a \<le> unat x \<and> unat x < e \<longrightarrow> m' x = m x \<Longrightarrow> blocks h m' p a e bs"
proof (induction m p a e bs rule: blocks_induct)
  case (Cons m p a e n f bs)
  then show ?case
    using fields_cong [of p m' m] layout(2) by auto
qed simp

lemma set_flag:
  assumes b: "blocks h m p a e ((n, f) # bs)" and e: "e \<le> 4294967296"
  shows "blocks h (store32 m (p + 4) (of_bool g)) p a e ((n, g) # bs)"
    "\<forall>x. unat x < a \<or> a + h \<le> unat x \<longrightarrow> store32 m (p + 4) (of_bool g) x = m x"
proof -
  have p: "unat p = a" "4 dvd unat p" "unat p + 12 \<le> 4294967296" "a + h + n \<le> e"
    using b e layout by auto
  note w = header_words [OF p(2,3)]
  show far: "\<forall>x. unat x < a \<or> a + h \<le> unat x \<longrightarrow> store32 m (p + 4) (of_bool g) x = m x"
    using p w layout by (auto intro!: store32_far)
  have "blocks h m (block_next m p) (a + h + n) e bs"
    using b by simp
  then have "blocks h (store32 m (p + 4) (of_bool g)) (block_next m p) (a + h + n) e bs"
    by (rule blocks_cong [OF _ e]) (use far in simp)
  then show "blocks h (store32 m (p + 4) (of_bool g)) p a e ((n, g) # bs)"
    using b w by (simp add: block_size_def block_free_def block_next_def load_store_aligned)
qed

text \<open>A free block absorbs the free block after it.\<close>

lemma merge_next:
  assumes b: "blocks h m p a e ((n, True) # (k, True) # bs)" and e: "e \<le> 0x400000"
  defines "nx \<equiv> block_next m p"
  defines "m1 \<equiv> store32 m p (block_size m p + (hdr + block_size m nx))"
  defines "m' \<equiv> store32 m1 (p + 8) (block_next m1 nx)"
  shows "blocks h m' p a e ((n + h + k, True) # bs)" "\<forall>x. unat x < a \<or> a + h \<le> unat x \<longrightarrow> m' x = m x"
    "nx \<noteq> 0" "block_free m p \<noteq> 0" "block_free m nx \<noteq> 0"
proof -
  have p: "unat p = a" "4 dvd unat p" "unat p + 12 \<le> 4294967296" "a + h + n \<le> e" "a \<noteq> 0" "4 dvd n"
      "unat (block_size m p) = n" "block_free m p = 1"
    using b e layout by auto
  have q: "unat nx = a + h + n" "nx \<noteq> 0" "4 dvd unat nx" "unat nx + 12 \<le> 4294967296" "a + h + n + h + k \<le> e"
      "unat (block_size m nx) = k" "4 dvd k" "block_free m nx = 1"
    using b e layout by (auto simp: nx_def)
  show "nx \<noteq> 0" "block_free m p \<noteq> 0" "block_free m nx \<noteq> 0"
    using p q by simp_all
  note w = header_words [OF p(2,3)] header_words [OF q(3,4)]
  have ne: "p \<noteq> nx" "p \<noteq> nx + 4" "p \<noteq> nx + 8" "p + 8 \<noteq> nx" "p + 8 \<noteq> nx + 4" "p + 8 \<noteq> nx + 8"
    using q(1) p(1) w layout by (auto simp: word_unat_eq_iff)
  have n2: "block_next m1 nx = block_next m nx"
    by (simp add: m1_def block_next_def load_store_aligned w ne)
  have hp: "block_size m' p = block_size m p + (hdr + block_size m nx)" "block_free m' p = 1" "block_next m' p = block_next m nx"
    using p(8) unfolding m'_def n2 m1_def by (simp_all add: block_size_def block_next_def block_free_def load_store_aligned w ne ne [symmetric])
  have sz: "unat (block_size m p + (hdr + block_size m nx)) = n + h + k"
    using p(4,7) q(5,6) e by (simp add: layout unat_add_u32)
  show far: "\<forall>x. unat x < a \<or> a + h \<le> unat x \<longrightarrow> m' x = m x"
    using p w layout unfolding m'_def m1_def by (auto simp: store32_far)
  have "blocks h m (block_next m nx) (a + h + n + h + k) e bs"
    using b by (simp add: nx_def)
  then have "blocks h m' (block_next m nx) (a + h + n + h + k) e bs"
    by (rule blocks_cong) (use e far in simp_all)
  moreover have "a + h + (n + h + k) = a + h + n + h + k"
    by simp
  ultimately have "blocks h m' (block_next m nx) (a + h + (n + h + k)) e bs"
    by (simp only:)
  moreover have "4 dvd n + h + k"
    using p(6) q(7) layout by auto
  ultimately show "blocks h m' p a e ((n + h + k, True) # bs)"
    unfolding blocks.simps hp using p q(5) sz by simp
qed

lemma take_split:
  assumes b: "blocks h m p a e ((n, f) # bs)" and e: "e \<le> 0x400000" and sz: "4 dvd unat sz" "unat sz + h \<le> n"
  defines "r \<equiv> p + hdr + sz"
  defines "m1 \<equiv> store32 (store32 m r (block_size m p - sz - hdr)) (r + 4) 1"
  defines "m' \<equiv> store32 (store32 (store32 (store32 m1 (r + 8) (block_next m1 p)) p sz) (p + 8) r) (p + 4) 0"
  shows "blocks h m' p a e ((unat sz, False) # (n - unat sz - h, True) # bs)"
    "\<forall>x. unat x < a \<or> a + h + n \<le> unat x \<longrightarrow> m' x = m x"
proof -
  have p: "unat p = a" "4 dvd unat p" "unat p + 12 \<le> 4294967296" "a + h + n \<le> e" "a \<noteq> 0" "4 dvd n"
      "unat (block_size m p) = n"
    using b e layout by auto
  have r: "unat r = a + h + unat sz"
    using p sz(2) e by (simp add: r_def layout unat_add_u32)
  have r': "4 dvd unat r" "unat r + 12 \<le> 4294967296"
    using r p sz e layout by auto
  note w = header_words [OF p(2,3)] header_words [OF r']
  have ne: "p \<noteq> r" "p \<noteq> r + 4" "p \<noteq> r + 8" "p + 4 \<noteq> r" "p + 4 \<noteq> r + 4" "p + 4 \<noteq> r + 8"
    "p + 8 \<noteq> r" "p + 8 \<noteq> r + 4" "p + 8 \<noteq> r + 8"
    using r p(1) w layout by (auto simp: word_unat_eq_iff)
  note ld = block_size_def block_free_def block_next_def load_store_aligned w ne ne [symmetric]
  have hp: "block_size m' p = sz" "block_free m' p = 0" "block_next m' p = r"
    by (simp_all add: m'_def m1_def ld)
  have hr: "block_size m' r = block_size m p - sz - hdr" "block_free m' r = 1" "block_next m' r = block_next m p"
    by (simp_all add: m'_def m1_def ld)
  show far: "\<forall>x. unat x < a \<or> a + h + n \<le> unat x \<longrightarrow> m' x = m x"
    using p r sz w e layout unfolding m'_def m1_def by (auto simp: store32_far)
  have "blocks h m (block_next m p) (a + h + n) e bs"
    using b by simp
  then have tail: "blocks h m' (block_next m p) (a + h + n) e bs"
    by (rule blocks_cong) (use e far in simp_all)
  have "unat (block_size m p - sz - hdr) = n - unat sz - h"
    using p(7) sz(2) by (simp add: layout unat_sub_no_wrap word_le_nat_alt)
  moreover have "a + h + unat sz + h + (n - unat sz - h) = a + h + n" "4 dvd n - unat sz - h"
    using p(6) sz layout by (auto intro!: dvd_diff_nat)
  ultimately show "blocks h m' p a e ((unat sz, False) # (n - unat sz - h, True) # bs)"
    unfolding blocks.simps hp hr using p r r' sz tail by (simp add: algebra_simps)
qed

lemma blocks_head:
  assumes "blocks h m p a e ((n, f) # bs)" "e \<le> 4294967296" "\<forall>x. unat x < a + h + n \<longrightarrow> m' x = m x"
    "blocks h m' (block_next m p) (a + h + n) e' bs'"
  shows "blocks h m' p a e' ((n, f) # bs')"
  using assms fields_cong [of p m' m] layout(2) blocks_le [OF assms(4)] by auto

lemma in_use_range: "blocks h m p a e bs \<Longrightarrow> (b, k) \<in> in_use h a bs \<Longrightarrow> a + h \<le> b \<and> b + k \<le> e"
proof (induction m p a e bs rule: blocks_induct)
  case (Cons m p a e n f bs)
  then show ?case
    using blocks_le by (fastforce split: if_splits)
qed simp

lemma first_fit_Some:
  assumes "blocks h m p a e bs" "first_fit h g sz a bs = Some (q, bs')"
  shows "q = fst (chosen h sz a bs) + h \<and> (\<exists>n. sz \<le> n \<and> n \<le> snd (chosen h sz a bs) \<and>
      in_use h a bs' = insert (q, n) (in_use h a bs)) \<and> q + snd (chosen h sz a bs) \<le> e \<and>
    (\<forall>(b, k) \<in> in_use h a bs. b + k \<le> fst (chosen h sz a bs) \<or> q + snd (chosen h sz a bs) \<le> b)"
  using assms
proof (induction m p a e bs arbitrary: bs' rule: blocks_induct)
  case (Cons m p a e n f bs)
  have tl: "blocks h m (block_next m p) (a + h + n) e bs"
    using Cons(2) by simp
  show ?case
  proof (cases "f \<and> sz \<le> n")
    case True
    have far: "a + h + n \<le> b" if "(b, k) \<in> in_use h (a + h + n) bs" for b k
      using in_use_range [OF tl that] by simp
    have "in_use h a bs' = insert (a + h, if sz + h + g \<le> n then sz else n) (in_use h (a + h + n) bs)"
      using Cons(3) True by (auto simp: algebra_simps)
    moreover have "q = a + h"
      using Cons(3) True by (auto split: if_splits)
    ultimately show ?thesis
      using True far Cons(2) by (auto intro!: exI [of _ "if sz + h + g \<le> n then sz else n"])
  next
    case False
    then obtain bs2 where b2: "first_fit h g sz (a + h + n) bs = Some (q, bs2)" "bs' = (n, f) # bs2"
      using Cons(3) by auto
    have ge: "a + h + n \<le> fst (chosen h sz (a + h + n) bs)"
      by (rule chosen_ge)
    show ?thesis
      using Cons(1) [OF tl b2(1)] ge False by (auto simp: b2(2))
  qed
qed simp

lemma in_use_aligned: "blocks h m p a e bs \<Longrightarrow> (b, k) \<in> in_use h a bs \<Longrightarrow> 4 dvd b"
  using layout(4) by (induction m p a e bs rule: blocks_induct) (auto split: if_splits)

lemma in_use_apart:
  "blocks h m p a e bs \<Longrightarrow> (b, k) \<in> in_use h a bs \<Longrightarrow> (c, l) \<in> in_use h a bs \<Longrightarrow> c + l \<le> b - h \<or> b \<le> c"
proof (induction m p a e bs rule: blocks_induct)
  case (Cons m p a e n f bs)
  have tl: "blocks h m (block_next m p) (a + h + n) e bs"
    using Cons(2) by simp
  show ?case
    using Cons(1) [OF tl] Cons(3,4) in_use_range [OF tl] by (auto split: if_splits) fastforce+
qed simp

end

text \<open>
  A first-fit search: it follows the links until a block fits, takes that block, and reports the payload; at the end of the list it
  reports failure.
\<close>

locale free_list = block_layout +
  fixes g :: nat and gap :: u32 and search :: "u32 \<Rightarrow> u32 \<Rightarrow> mem \<Rightarrow> 'r option" and found :: "u32 \<Rightarrow> mem \<Rightarrow> 'r" and missed :: "mem \<Rightarrow> 'r"
  assumes gap: "unat gap = g" "g \<le> 64"
    and search_end: "search sz 0 m = Some (missed m)"
    and search_step: "cur \<noteq> 0 \<Longrightarrow> search sz cur m =
      (if block_free m cur \<noteq> 0 \<and> sz \<le> block_size m cur then Some (found (cur + hdr) (take_block hdr gap sz cur m))
       else search sz (block_next m cur) m)"
begin

lemma take_block_blocks:
  assumes b: "blocks h m p a e ((n, f) # bs)" and e: "e \<le> 0x400000" and sz: "4 dvd unat sz" "unat sz \<le> n"
  shows "blocks h (take_block hdr gap sz p m) p a e (if unat sz + h + g \<le> n
      then (unat sz, False) # (n - unat sz - h, True) # bs else (n, False) # bs)"
    "\<forall>x. unat x < a \<or> a + h + n \<le> unat x \<longrightarrow> take_block hdr gap sz p m x = m x"
proof -
  have n: "unat (block_size m p) = n" "n \<le> 0x400000"
    using b e layout by auto
  have fits: "sz + hdr + gap \<le> block_size m p \<longleftrightarrow> unat sz + h + g \<le> n"
    using n sz(2) layout gap by (auto simp: word_le_nat_alt unat_add_u32)
  show "blocks h (take_block hdr gap sz p m) p a e (if unat sz + h + g \<le> n
      then (unat sz, False) # (n - unat sz - h, True) # bs else (n, False) # bs)"
    "\<forall>x. unat x < a \<or> a + h + n \<le> unat x \<longrightarrow> take_block hdr gap sz p m x = m x"
  proof (atomize (full), cases "unat sz + h + g \<le> n")
    case True
    then have le: "unat sz + h \<le> n"
      by simp
    show "blocks h (take_block hdr gap sz p m) p a e (if unat sz + h + g \<le> n
        then (unat sz, False) # (n - unat sz - h, True) # bs else (n, False) # bs) \<and>
      (\<forall>x. unat x < a \<or> a + h + n \<le> unat x \<longrightarrow> take_block hdr gap sz p m x = m x)"
      using take_split [OF b e sz(1) le] unfolding take_block_def Let_def fits if_P [OF True] by blast
  next
    case False
    then show "blocks h (take_block hdr gap sz p m) p a e (if unat sz + h + g \<le> n
        then (unat sz, False) # (n - unat sz - h, True) # bs else (n, False) # bs) \<and>
      (\<forall>x. unat x < a \<or> a + h + n \<le> unat x \<longrightarrow> take_block hdr gap sz p m x = m x)"
      using set_flag [OF b, of False] e by (simp only: take_block_def Let_def fits if_False) simp
  qed
qed

lemma search_first_fit:
  assumes "blocks h m p a e bs" "e \<le> 0x400000" "4 dvd unat sz"
  shows "case first_fit h g (unat sz) a bs of None \<Rightarrow> search sz p m = Some (missed m)
     | Some (r, bs') \<Rightarrow> \<exists>q m'. search sz p m = Some (found q m') \<and> unat q = r \<and> blocks h m' p a e bs' \<and>
         (\<forall>x. unat x < fst (chosen h (unat sz) a bs) \<or> fst (chosen h (unat sz) a bs) + h + snd (chosen h (unat sz) a bs) \<le> unat x
           \<longrightarrow> m' x = m x)"
  using assms
proof (induction bs arbitrary: p a)
  case Nil
  then show ?case
    by (simp add: search_end)
next
  case (Cons nf bs)
  obtain n f where nf: "nf = (n, f)"
    by (cases nf)
  note b = Cons.prems(1) [unfolded nf]
  have p: "p \<noteq> 0" "unat p = a" "unat (block_size m p) = n" "block_free m p = of_bool f" "a + h + n \<le> e"
    using b by auto
  show ?case
  proof (cases "f \<and> unat sz \<le> n")
    case True
    have "unat (p + hdr) = a + h"
      using p(2,5) Cons.prems(2) by (simp add: layout unat_add_u32)
    moreover have "search sz p m = Some (found (p + hdr) (take_block hdr gap sz p m))"
      using True p by (simp add: search_step word_le_nat_alt)
    moreover have "first_fit h g (unat sz) a (nf # bs) = Some (a + h, if unat sz + h + g \<le> n
        then (unat sz, False) # (n - unat sz - h, True) # bs else (n, False) # bs)" "chosen h (unat sz) a (nf # bs) = (a, n)"
      using True by (simp_all add: nf)
    moreover note take_block_blocks [OF b Cons.prems(2,3)]
    ultimately show ?thesis
      using True by (simp only: option.case prod.case fst_conv snd_conv) blast
  next
    case False
    have step: "search sz p m = search sz (block_next m p) m"
      using False p by (subst search_step) (auto simp: word_le_nat_alt)
    have tl: "blocks h m (block_next m p) (a + h + n) e bs"
      using b by simp
    note ih = Cons.IH [OF tl Cons.prems(2,3)]
    show ?thesis
    proof (cases "first_fit h g (unat sz) (a + h + n) bs")
      case None
      then show ?thesis
        using ih step False by (auto simp: nf)
    next
      case (Some rb)
      then obtain r bs' where rb: "first_fit h g (unat sz) (a + h + n) bs = Some (r, bs')"
        by (cases rb) simp
      then obtain q m' where q: "search sz (block_next m p) m = Some (found q m')" "unat q = r"
          "blocks h m' (block_next m p) (a + h + n) e bs'"
          "\<forall>x. unat x < fst (chosen h (unat sz) (a + h + n) bs) \<or>
            fst (chosen h (unat sz) (a + h + n) bs) + h + snd (chosen h (unat sz) (a + h + n) bs) \<le> unat x \<longrightarrow> m' x = m x"
        using ih by auto
      have "\<forall>x. unat x < a + h + n \<longrightarrow> m' x = m x"
        using q(4) chosen_ge [of "a + h + n" h "unat sz" bs] by auto
      then have "blocks h m' p a e ((n, f) # bs')"
        using q(3) Cons.prems(2) by (intro blocks_head [OF b]) simp_all
      moreover have "first_fit h g (unat sz) a (nf # bs) = Some (r, (n, f) # bs')"
          "chosen h (unat sz) a (nf # bs) = chosen h (unat sz) (a + h + n) bs"
        using False rb by (auto simp: nf)
      ultimately show ?thesis
        using q step by (simp only: option.case prod.case) blast
    qed
  qed
qed

end

end
