(* ===== verification/Kheap.thy ===== *)
theory Kheap
  imports Blocks
begin

text \<open>
  The kernel heap, \<open>kernel/kheap.c\<close>: a first-fit allocator over the 3 MB from 1 MB up.  The blocks are
  where the source keeps them, as \<open>block_t\<close> headers in memory (\<open>size\<close>, \<open>free\<close>, \<open>next\<close>, four bytes
  each), linked through their \<open>next\<close> pointers.
\<close>

definition HEAP_START :: u32 where
  "HEAP_START = 0x00100000"

definition HEAP_SIZE :: u32 where
  "HEAP_SIZE = 0x00300000"

text \<open>\<open>sizeof(block_t)\<close>\<close>

definition HDR :: u32 where
  "HDR = 12"

record kheap =
  hram :: mem
  heap_head :: u32

definition heap_install :: "kheap \<Rightarrow> kheap" where
  "heap_install h =
     (let m = store32 (hram h) HEAP_START (HEAP_SIZE - HDR);
          m = store32 m (HEAP_START + 4) 1;
          m = store32 m (HEAP_START + 8) 0
      in h\<lparr>hram := m, heap_head := HEAP_START\<rparr>)"

text \<open>The body of the loop of \<open>kmalloc\<close> once a block fits: split off the remainder, take the block.\<close>

definition kmalloc_take :: "u32 \<Rightarrow> u32 \<Rightarrow> mem \<Rightarrow> mem" where
  "kmalloc_take sz cur m =
     (let m = (if sz + HDR + 4 \<le> block_size m cur
               then let rest = cur + HDR + sz;
                        m = store32 m rest (block_size m cur - sz - HDR);
                        m = store32 m (rest + 4) 1;
                        m = store32 m (rest + 8) (block_next m cur);
                        m = store32 m cur sz
                    in store32 m (cur + 8) rest
               else m)
      in store32 m (cur + 4) 0)"

partial_function (option) kmalloc_loop :: "u32 \<Rightarrow> u32 \<Rightarrow> mem \<Rightarrow> (u32 \<times> mem) option" where
  "kmalloc_loop sz cur m =
     (if cur = 0 then Some (0, m)
      else if block_free m cur \<noteq> 0 \<and> sz \<le> block_size m cur
      then Some (cur + HDR, kmalloc_take sz cur m)
      else kmalloc_loop sz (block_next m cur) m)"

definition kmalloc :: "u32 \<Rightarrow> kheap \<Rightarrow> (u32 \<times> kheap) option" where
  "kmalloc sz h =
     map_option (\<lambda>(p, m). (p, h\<lparr>hram := m\<rparr>))
       (kmalloc_loop ((sz + 3) AND NOT 3) (heap_head h) (hram h))"

definition kfree :: "u32 \<Rightarrow> kheap \<Rightarrow> kheap" where
  "kfree ptr h =
     (if ptr = 0 then h
      else let b = ptr - HDR;
               m = store32 (hram h) (b + 4) 1;
               next = block_next m b
      in if next \<noteq> 0 \<and> block_free m next \<noteq> 0
         then let m = store32 m b (block_size m b + (HDR + block_size m next));
                  m = store32 m (b + 8) (block_next m next)
              in h\<lparr>hram := m\<rparr>
         else h\<lparr>hram := m\<rparr>)"

section \<open>First fit\<close>

lemma kmalloc_take_block: "kmalloc_take = take_block HDR 4"
  by (simp add: fun_eq_iff kmalloc_take_def take_block_def)

interpretation kh: free_list 12 HDR 4 4 kmalloc_loop Pair "Pair 0"
proof unfold_locales
  show "kmalloc_loop sz 0 m = Some (0, m)" for sz m
    by (simp add: kmalloc_loop.simps)
  show "kmalloc_loop sz cur m =
      (if block_free m cur \<noteq> 0 \<and> sz \<le> block_size m cur then Some (cur + HDR, take_block HDR 4 sz cur m)
       else kmalloc_loop sz (block_next m cur) m)" if "cur \<noteq> 0" for sz cur m
    using that by (subst kmalloc_loop.simps) (simp add: kmalloc_take_block)
qed (simp_all add: HDR_def)

section \<open>Release\<close>

fun release :: "nat \<Rightarrow> nat \<Rightarrow> (nat \<times> bool) list \<Rightarrow> (nat \<times> bool) list" where
  "release q a [] = []"
| "release q a ((n, f) # bs) =
     (if q = a + 12 then (case bs of (k, True) # bs' \<Rightarrow> (n + 12 + k, True) # bs' | _ \<Rightarrow> (n, True) # bs)
      else (n, f) # release q (a + 12 + n) bs)"

definition freed :: "u32 \<Rightarrow> mem \<Rightarrow> mem" where
  "freed b m =
     (let m = store32 m (b + 4) 1; next = block_next m b
      in if next \<noteq> 0 \<and> block_free m next \<noteq> 0
         then store32 (store32 m b (block_size m b + (HDR + block_size m next))) (b + 8)
                (block_next (store32 m b (block_size m b + (HDR + block_size m next))) next)
         else m)"

lemma kfree_freed: "p \<noteq> 0 \<Longrightarrow> kfree p h = h\<lparr>hram := freed (p - HDR) (hram h)\<rparr>"
  by (simp add: kfree_def freed_def Let_def)

lemma freed_head:
  assumes b: "blocks 12 m p a e ((n, f) # bs)" and e: "e \<le> 0x400000"
  shows "blocks 12 (freed p m) p a e (release (a + 12) a ((n, f) # bs))"
    "\<forall>x. unat x < a \<or> a + 12 \<le> unat x \<longrightarrow> freed p m x = m x"
proof -
  have e': "e \<le> 4294967296"
    using e by simp
  let ?m = "store32 m (p + 4) 1"
  have m: "blocks 12 ?m p a e ((n, True) # bs)" "\<forall>x. unat x < a \<or> a + 12 \<le> unat x \<longrightarrow> ?m x = m x"
    using kh.set_flag [OF b e', of True] by simp_all
  have tl: "blocks 12 ?m (block_next ?m p) (a + 12 + n) e bs"
    using m(1) by simp
  consider (merge) k bs2 where "bs = (k, True) # bs2" | (keep) "block_next ?m p = 0 \<or> block_free ?m (block_next ?m p) = 0"
      "release (a + 12) a ((n, f) # bs) = (n, True) # bs"
  proof (cases bs)
    case (Cons kg bs2)
    then show thesis
      using that(1) [of "fst kg" bs2] that(2) tl by (cases kg; cases "snd kg") simp_all
  qed (use that tl in simp)
  then have "blocks 12 (freed p m) p a e (release (a + 12) a ((n, f) # bs)) \<and>
    (\<forall>x. unat x < a \<or> a + 12 \<le> unat x \<longrightarrow> freed p m x = m x)"
  proof cases
    case merge
    note mg = kh.merge_next [OF m(1) [unfolded merge] e]
    show ?thesis
      using mg m(2) by (simp add: freed_def Let_def merge)
  next
    case keep
    then have "freed p m = ?m"
      by (auto simp: freed_def Let_def)
    then show ?thesis
      using m keep(2) by simp
  qed
  then show "blocks 12 (freed p m) p a e (release (a + 12) a ((n, f) # bs))"
    "\<forall>x. unat x < a \<or> a + 12 \<le> unat x \<longrightarrow> freed p m x = m x"
    by blast+
qed

lemma round_up_4:
  assumes "unat n \<le> 0xFFFFFFFC"
  shows "unat ((n + 3 :: u32) AND NOT 3) = 4 * ((unat n + 3) div 4)"
proof -
  have "(3 :: u32) = mask 2"
    by (simp add: mask_eq_exp_minus_1)
  then have "unat ((n + 3) AND NOT 3) = 4 * (unat (n + 3) div 4)"
    using and_not_mask_unat [of "n + 3" 2] by simp
  also have "unat (n + 3) = unat n + 3"
    using assms by (simp add: unat_add_u32)
  finally show ?thesis .
qed

lemma freed_blocks:
  assumes "blocks 12 m p a e bs" "(unat ptr, n) \<in> in_use 12 a bs" "e \<le> 0x400000"
  shows "blocks 12 (freed (ptr - HDR) m) p a e (release (unat ptr) a bs)"
    "\<forall>x. unat x < unat ptr - 12 \<or> unat ptr \<le> unat x \<longrightarrow> freed (ptr - HDR) m x = m x"
proof -
  have "blocks 12 (freed (ptr - HDR) m) p a e (release (unat ptr) a bs) \<and>
    (\<forall>x. unat x < unat ptr - 12 \<or> unat ptr \<le> unat x \<longrightarrow> freed (ptr - HDR) m x = m x)"
    using assms
  proof (induction m p a e bs rule: kh.blocks_induct)
    case (Cons m p a e k f bs)
    have p: "unat p = a" "a + 12 + k \<le> e"
      using Cons(2) by auto
    have tl: "blocks 12 m (block_next m p) (a + 12 + k) e bs"
      using Cons(2) by simp
    show ?case
    proof (cases "unat ptr = a + 12")
      case True
      have "unat (ptr - HDR) = a"
        using True by (simp add: HDR_def unat_sub_no_wrap word_le_nat_alt)
      then have "ptr - HDR = p"
        using p(1) by (simp add: word_unat_eq_iff)
      then show ?thesis
        using freed_head [OF Cons(2,4)] True by simp
    next
      case False
      then have u: "(unat ptr, n) \<in> in_use 12 (a + 12 + k) bs"
        using Cons(3) by (auto split: if_splits)
      note ih = Cons(1) [OF tl u Cons(4)]
      have "a + 12 + k + 12 \<le> unat ptr"
        using kh.in_use_range [OF tl u] by simp
      then have "blocks 12 (freed (ptr - HDR) m) p a e ((k, f) # release (unat ptr) (a + 12 + k) bs)"
        using ih Cons(4) by (intro kh.blocks_head [OF Cons(2)]) auto
      then show ?thesis
        using ih False by simp
    qed
  qed simp
  then show "blocks 12 (freed (ptr - HDR) m) p a e (release (unat ptr) a bs)"
    "\<forall>x. unat x < unat ptr - 12 \<or> unat ptr \<le> unat x \<longrightarrow> freed (ptr - HDR) m x = m x"
    by blast+
qed

lemma release_in_use:
  assumes "blocks 12 m p a e bs" "(q, n) \<in> in_use 12 a bs"
  shows "in_use 12 a (release q a bs) = in_use 12 a bs - {(q, n)}"
  using assms
proof (induction m p a e bs rule: kh.blocks_induct)
  case (Cons m p a e k f bs)
  have tl: "blocks 12 m (block_next m p) (a + 12 + k) e bs"
    using Cons(2) by simp
  have far: "a + 12 + k + 12 \<le> b" if "(b, l) \<in> in_use 12 (a + 12 + k) bs" for b l
    using kh.in_use_range [OF tl that] by simp
  show ?case
  proof (cases "q = a + 12")
    case True
    then have fk: "\<not> f" "n = k"
      using Cons(3) far [of q n] by (auto split: if_splits)
    have "(q, n) \<notin> in_use 12 (a + 12 + k) bs"
      using far [of q n] True by auto
    moreover have "in_use 12 a (release q a ((k, f) # bs)) = in_use 12 (a + 12 + k) bs"
      using True by (auto simp: algebra_simps split: list.splits bool.splits)
    ultimately show ?thesis
      using fk True by auto
  next
    case False
    then have "(q, n) \<in> in_use 12 (a + 12 + k) bs"
      using Cons(3) by (auto split: if_splits)
    then show ?thesis
      using Cons(1) [OF tl] False by auto
  qed
qed simp

section \<open>Properties of the kernel heap\<close>

text \<open>\<open>heap_ok h bs\<close>: the heap is intact and consists of the blocks \<open>bs\<close>.\<close>

definition heap_ok :: "kheap \<Rightarrow> (nat \<times> bool) list \<Rightarrow> bool" where
  "heap_ok h bs \<longleftrightarrow> heap_head h = HEAP_START \<and> blocks 12 (hram h) HEAP_START 0x100000 0x400000 bs"

definition heap_used :: "(nat \<times> bool) list \<Rightarrow> (nat \<times> nat) set" where
  "heap_used bs = in_use 12 0x100000 bs"

text \<open>The contents of every block in use are the same in both heaps.\<close>

definition keeps :: "(nat \<times> nat) set \<Rightarrow> kheap \<Rightarrow> kheap \<Rightarrow> bool" where
  "keeps U h h' \<longleftrightarrow> (\<forall>(b, k)\<in>U. \<forall>x. b \<le> unat x \<and> unat x < b + k \<longrightarrow> hram h' x = hram h x)"

lemma heap_install_ok: "heap_ok (heap_install h) [(0x2FFFF4, True)]"
  by (simp add: heap_ok_def heap_install_def HEAP_START_def HEAP_SIZE_def HDR_def Let_def block_size_def
      block_free_def block_next_def load_store_aligned word_aligned_iff)

lemma kmalloc_ok:
  assumes ok: "heap_ok h bs" and n: "unat n \<le> 0xFFFFFFFC"
  shows "\<exists>p h'. kmalloc n h = Some (p, h') \<and>
    (case first_fit 12 4 (4 * ((unat n + 3) div 4)) 0x100000 bs of None \<Rightarrow> p = 0 \<and> h' = h
     | Some (q, bs') \<Rightarrow> unat p = q \<and> p \<noteq> 0 \<and> heap_ok h' bs' \<and> keeps (heap_used bs) h h')"
proof -
  let ?sz = "4 * ((unat n + 3) div 4)"
  have sz: "unat ((n + 3) AND NOT 3) = ?sz"
    using round_up_4 [OF n] .
  have d: "4 dvd unat ((n + 3) AND NOT 3)"
    unfolding sz by simp
  have b: "blocks 12 (hram h) HEAP_START 0x100000 0x400000 bs" "heap_head h = HEAP_START"
    using ok by (simp_all add: heap_ok_def)
  note srch = kh.search_first_fit [OF b(1) order_refl d, unfolded sz]
  show ?thesis
  proof (cases "first_fit 12 4 ?sz 0x100000 bs")
    case None
    then show ?thesis
      using srch b(2) by (simp add: kmalloc_def)
  next
    case (Some qb)
    then obtain q bs' where q: "first_fit 12 4 ?sz 0x100000 bs = Some (q, bs')"
      by (cases qb) simp
    obtain p m' where k: "kmalloc_loop ((n + 3) AND NOT 3) HEAP_START (hram h) = Some (p, m')" "unat p = q"
        "blocks 12 m' HEAP_START 0x100000 0x400000 bs'"
        "\<forall>x. unat x < fst (chosen 12 ?sz 0x100000 bs) \<or> fst (chosen 12 ?sz 0x100000 bs) + 12 + snd (chosen 12 ?sz 0x100000 bs) \<le> unat x
           \<longrightarrow> m' x = hram h x"
      using srch q by (simp only: option.case prod.case) blast
    note ff = kh.first_fit_Some [OF b(1) q]
    have "keeps (heap_used bs) h (h\<lparr>hram := m'\<rparr>)"
      using ff k(4) by (fastforce simp: keeps_def heap_used_def)
    moreover have "p \<noteq> 0"
      using ff k(2) by auto
    ultimately show ?thesis
      using k b(2) by (simp add: q kmalloc_def heap_ok_def)
  qed
qed

text \<open>
  C15.  \<open>kmalloc\<close> of up to \<open>0xFFFFFFFC\<close> bytes always returns (a larger request wraps to 0 when it is rounded up).  It
  returns 0 and changes nothing only when no free block is large enough.  Otherwise it takes the first free block that is,
  splits off the rest if that has room for a header and four bytes, and returns the payload: word-aligned, inside
  the heap and disjoint from every block in use, each of which keeps its place, its size and its contents.
\<close>

theorem kmalloc_correct:
  assumes "heap_ok h bs" "unat n \<le> 0xFFFFFFFC"
  defines "sz \<equiv> 4 * ((unat n + 3) div 4)"
  shows "\<exists>p h'. kmalloc n h = Some (p, h') \<and>
    (if p = 0 then h' = h \<and> (\<forall>k. (k, True) \<in> set bs \<longrightarrow> k < sz)
     else \<exists>pre l post k bs'. bs = pre @ (l, True) # post \<and> (\<forall>j. (j, True) \<in> set pre \<longrightarrow> j < sz) \<and> sz \<le> l \<and>
       unat p = place 12 0x100000 pre + 12 \<and>
       bs' = pre @ (if sz + 12 + 4 \<le> l then [(sz, False), (l - sz - 12, True)] else [(l, False)]) @ post \<and>
       heap_ok h' bs' \<and> heap_used bs' = insert (unat p, k) (heap_used bs) \<and> unat n \<le> k \<and>
       4 dvd unat p \<and> 0x100000 \<le> unat p \<and> unat p + k \<le> 0x400000 \<and>
       (\<forall>(b, j)\<in>heap_used bs. b + j \<le> unat p \<or> unat p + k \<le> b) \<and> keeps (heap_used bs) h h')"
proof -
  have le: "unat n \<le> sz"
    by (simp add: sz_def)
  have b: "blocks 12 (hram h) HEAP_START 0x100000 0x400000 bs"
    using assms(1) by (simp add: heap_ok_def)
  obtain p h' where k: "kmalloc n h = Some (p, h')"
    "case first_fit 12 4 sz 0x100000 bs of None \<Rightarrow> p = 0 \<and> h' = h
     | Some (q, bs') \<Rightarrow> unat p = q \<and> p \<noteq> 0 \<and> heap_ok h' bs' \<and> keeps (heap_used bs) h h'"
    using kmalloc_ok [OF assms(1,2)] unfolding sz_def by blast
  show ?thesis
  proof (cases "first_fit 12 4 sz 0x100000 bs")
    case None
    then show ?thesis
      using k first_fit_None [OF None] by auto
  next
    case (Some qb)
    then obtain q bs' where q: "first_fit 12 4 sz 0x100000 bs = Some (q, bs')"
      by (cases qb) simp
    note ff = kh.first_fit_Some [OF b q]
    obtain l where l: "sz \<le> l" "l \<le> snd (chosen 12 sz 0x100000 bs)" "heap_used bs' = insert (q, l) (heap_used bs)"
      using ff by (auto simp: heap_used_def)
    have kq: "unat p = q" "p \<noteq> 0" "heap_ok h' bs'" "keeps (heap_used bs) h h'"
      using k(2) by (simp_all add: q)
    have "4 dvd q"
      using kh.in_use_aligned [of "hram h'" HEAP_START "0x100000" "0x400000" bs' q l] kq(3) l(3)
      by (auto simp: heap_ok_def heap_used_def)
    moreover have "0x100000 \<le> q" "q + l \<le> 0x400000" "\<forall>(b, j)\<in>heap_used bs. b + j \<le> q \<or> q + l \<le> b"
      using ff l chosen_ge [of "0x100000" 12 sz bs] by (fastforce simp: heap_used_def)+
    moreover note first_fit_split [OF q]
    ultimately have "\<exists>pre d post. bs = pre @ (d, True) # post \<and> (\<forall>j. (j, True) \<in> set pre \<longrightarrow> j < sz) \<and> sz \<le> d \<and>
       unat p = place 12 0x100000 pre + 12 \<and>
       bs' = pre @ (if sz + 12 + 4 \<le> d then [(sz, False), (d - sz - 12, True)] else [(d, False)]) @ post \<and>
       heap_ok h' bs' \<and> heap_used bs' = insert (unat p, l) (heap_used bs) \<and> unat n \<le> l \<and>
       4 dvd unat p \<and> 0x100000 \<le> unat p \<and> unat p + l \<le> 0x400000 \<and>
       (\<forall>(b, j)\<in>heap_used bs. b + j \<le> unat p \<or> unat p + l \<le> b) \<and> keeps (heap_used bs) h h'"
      using kq l le by simp
    then show ?thesis
      unfolding k(1) using kq(2) by (intro exI [of _ p] exI [of _ h']) (simp only: if_False simp_thms, blast)
  qed
qed

theorem kmalloc_correct_witness:
  "\<exists>p h'. kmalloc 100 (heap_install \<lparr>hram = \<lambda>_. 0, heap_head = 0\<rparr>) = Some (p, h') \<and> p \<noteq> 0 \<and> 4 dvd unat p"
proof -
  let ?h = "heap_install \<lparr>hram = \<lambda>_. 0, heap_head = 0\<rparr>"
  obtain p h' where "kmalloc 100 ?h = Some (p, h')"
    "if p = 0 then h' = ?h \<and> (\<forall>k. (k, True) \<in> set [(0x2FFFF4, True)] \<longrightarrow> k < 4 * ((unat (100 :: u32) + 3) div 4))
     else 4 dvd unat p"
    using kmalloc_correct [OF heap_install_ok, of 100 "\<lparr>hram = \<lambda>_. 0, heap_head = 0\<rparr>"]
    by (fastforce split: if_splits)
  then show ?thesis
    by (cases "p = 0") auto
qed

lemma release_split:
  "(q, n) \<in> in_use 12 a bs \<Longrightarrow> \<exists>pre post. bs = pre @ (n, False) # post \<and> q = place 12 a pre + 12 \<and>
     release q a bs = pre @ (case post of (k, True) # post' \<Rightarrow> (n + 12 + k, True) # post' | _ \<Rightarrow> (n, True) # post)"
proof (induction bs arbitrary: a)
  case (Cons nf bs)
  obtain k f where nf: "nf = (k, f)"
    by (cases nf)
  show ?case
  proof (cases "q = a + 12")
    case True
    then have "(q, n) \<notin> in_use 12 (a + 12 + k) bs"
      using in_use_ge [of q n 12 "a + 12 + k" bs] by auto
    then have "nf = (n, False)"
      using Cons(2) by (simp add: nf split: if_splits)
    then show ?thesis
      using True by (intro exI [of _ "[]"] exI [of _ bs]) simp
  next
    case False
    then have "(q, n) \<in> in_use 12 (a + 12 + k) bs"
      using Cons(2) by (simp add: nf split: if_splits)
    from Cons(1) [OF this] obtain pre post where i: "bs = pre @ (n, False) # post" "q = place 12 (a + 12 + k) pre + 12"
      "release q (a + 12 + k) bs = pre @ (case post of (k, True) # post' \<Rightarrow> (n + 12 + k, True) # post' | _ \<Rightarrow> (n, True) # post)"
      by blast
    have "release q a (nf # bs) = nf # release q (a + 12 + k) bs" "place 12 a (nf # pre) = place 12 (a + 12 + k) pre"
      using False by (simp_all add: nf)
    then show ?thesis
      using i by (intro exI [of _ "nf # pre"] exI [of _ post]) simp
  qed
qed simp

text \<open>
  C32.  \<open>kfree\<close> of a block in use gives back that block and nothing else: the block becomes free, together with the one
  behind it if that is free; all other blocks stay as they are, and the other blocks in use keep their place, size
  and contents.  \<open>kfree\<close> of the null pointer does nothing.
\<close>

theorem kfree_correct:
  assumes "heap_ok h bs" "(unat p, n) \<in> heap_used bs"
  shows "kfree 0 h = h \<and> (\<exists>pre post bs'. bs = pre @ (n, False) # post \<and> unat p = place 12 0x100000 pre + 12 \<and>
    bs' = pre @ (case post of (k, True) # post' \<Rightarrow> (n + 12 + k, True) # post' | _ \<Rightarrow> (n, True) # post) \<and>
    heap_ok (kfree p h) bs' \<and> heap_used bs' = heap_used bs - {(unat p, n)} \<and> keeps (heap_used bs) h (kfree p h))"
proof -
  have b: "blocks 12 (hram h) HEAP_START 0x100000 0x400000 bs" "heap_head h = HEAP_START"
    using assms(1) by (simp_all add: heap_ok_def)
  have u: "(unat p, n) \<in> in_use 12 0x100000 bs"
    using assms(2) by (simp add: heap_used_def)
  note fr = freed_blocks [OF b(1) u order_refl]
  have "p \<noteq> 0"
    using kh.in_use_range [OF b(1) u] by auto
  then have k: "kfree p h = h\<lparr>hram := freed (p - HDR) (hram h)\<rparr>"
    by (rule kfree_freed)
  have "heap_used (release (unat p) 0x100000 bs) = heap_used bs - {(unat p, n)}"
    using release_in_use [OF b(1) u] by (simp add: heap_used_def)
  moreover have "keeps (heap_used bs) h (kfree p h)"
    unfolding keeps_def k
  proof (clarsimp simp: heap_used_def)
    fix c l and x :: u32
    assume "(c, l) \<in> in_use 12 0x100000 bs" "c \<le> unat x" "unat x < c + l"
    then show "freed (p - HDR) (hram h) x = hram h x"
      using kh.in_use_apart [OF b(1) u] fr(2) by fastforce
  qed
  moreover have "heap_ok (kfree p h) (release (unat p) 0x100000 bs)" "kfree 0 h = h"
    using fr(1) b(2) by (simp_all add: k heap_ok_def kfree_def [of 0])
  ultimately show ?thesis
    using release_split [OF u] by metis
qed

lemma release_first_fit:
  "first_fit 12 4 sz a bs = Some (q, bs') \<Longrightarrow> coalesced bs \<Longrightarrow> release q a bs' = bs"
proof (induction bs arbitrary: a bs')
  case (Cons nf bs)
  obtain n f where nf: "nf = (n, f)"
    by (cases nf)
  show ?case
  proof (cases "f \<and> sz \<le> n")
    case True
    then show ?thesis
      using Cons(2,3) by (auto simp: nf split: if_splits bool.splits list.splits)
  next
    case False
    then obtain bs2 where b2: "first_fit 12 4 sz (a + 12 + n) bs = Some (q, bs2)" "bs' = (n, f) # bs2"
      using Cons(2) by (auto simp: nf)
    then show ?thesis
      using Cons(1) [OF b2(1)] Cons(3) first_fit_ge [OF b2(1)] by (simp add: b2(2) nf)
  qed
qed simp

text \<open>
  Allocating a block and freeing it again restores the heap, provided no two neighbouring blocks
  were free before.
\<close>

theorem kmalloc_kfree:
  assumes "heap_ok h bs" "coalesced bs" "unat n \<le> 0xFFFFFFFC" "kmalloc n h = Some (p, h')"
  shows "heap_ok (kfree p h') bs"
proof -
  let ?sz = "4 * ((unat n + 3) div 4)"
  show ?thesis
  proof (cases "first_fit 12 4 ?sz 0x100000 bs")
    case None
    then have "p = 0" "h' = h"
      using kmalloc_ok [OF assms(1,3)] assms(4) by auto
    then show ?thesis
      using assms(1) by (simp add: kfree_def)
  next
    case (Some qb)
    then obtain q bs' where q: "first_fit 12 4 ?sz 0x100000 bs = Some (q, bs')"
      by (cases qb) simp
    then have k: "unat p = q" "p \<noteq> 0" "heap_ok h' bs'"
      using kmalloc_ok [OF assms(1,3)] assms(4) by auto
    have b: "blocks 12 (hram h) HEAP_START 0x100000 0x400000 bs"
      using assms(1) by (simp add: heap_ok_def)
    obtain l where "(unat p, l) \<in> in_use 12 0x100000 bs'"
      using kh.first_fit_Some [OF b q] k(1) by auto
    then have "blocks 12 (freed (p - HDR) (hram h')) HEAP_START 0x100000 0x400000 (release (unat p) 0x100000 bs')"
      using k(3) by (intro freed_blocks(1)) (auto simp: heap_ok_def)
    then show ?thesis
      using release_first_fit [OF q assms(2)] k by (simp add: kfree_freed heap_ok_def)
  qed
qed

lemma first_allocation:
  "\<exists>p h'. kmalloc 100 (heap_install \<lparr>hram = \<lambda>_. 0, heap_head = 0\<rparr>) = Some (p, h') \<and> unat p = 0x10000C \<and>
     heap_ok h' [(100, False), (0x2FFF84, True)]"
  using kmalloc_ok [OF heap_install_ok, of 100 "\<lparr>hram = \<lambda>_. 0, heap_head = 0\<rparr>"] by auto

theorem kfree_correct_witness:
  "case kmalloc 100 (heap_install \<lparr>hram = \<lambda>_. 0, heap_head = 0\<rparr>) of Some (p, h') \<Rightarrow>
     \<exists>bs'. heap_ok (kfree p h') bs' \<and> heap_used bs' = {} | None \<Rightarrow> False"
proof -
  obtain p h' where k: "kmalloc 100 (heap_install \<lparr>hram = \<lambda>_. 0, heap_head = 0\<rparr>) = Some (p, h')"
      "unat p = 0x10000C" "heap_ok h' [(100, False), (0x2FFF84, True)]"
    using first_allocation by blast
  have "(unat p, 100) \<in> heap_used [(100, False), (0x2FFF84, True)]"
    by (simp add: k(2) heap_used_def)
  from kfree_correct [OF k(3) this] show ?thesis
    by (auto simp: k(1,2) heap_used_def)
qed

theorem kmalloc_kfree_witness:
  "case kmalloc 100 (heap_install \<lparr>hram = \<lambda>_. 0, heap_head = 0\<rparr>) of Some (p, h') \<Rightarrow>
     heap_ok (kfree p h') [(0x2FFFF4, True)] | None \<Rightarrow> False"
  using first_allocation kmalloc_kfree [OF heap_install_ok, of 100 "\<lparr>hram = \<lambda>_. 0, heap_head = 0\<rparr>"]
  by auto

end
