(* ===== verification/Kstring.thy ===== *)
theory Kstring
  imports Memory
begin

text \<open>
  The string functions of \<open>kernel/string.c\<close>.  A \<open>const char *\<close> is what it is used for: the bytes that
  can be read from it onwards, as a function of the offset.  \<open>bytes_at\<close> is the reader of an address
  of memory, \<open>bytes_of\<close> that of a string literal or a character array.  Characters are compared as
  \<open>unsigned char\<close>.  \<open>strlen\<close> and \<open>strcmp\<close> run until they meet a terminator, so they are partial: not
  returning is \<^const>\<open>None\<close>.
\<close>

type_synonym bytes = "nat \<Rightarrow> u8"

definition bytes_at :: "mem \<Rightarrow> u32 \<Rightarrow> bytes" where
  "bytes_at m p = (\<lambda>i. m (p + of_nat i))"

definition bytes_of :: "u8 list \<Rightarrow> bytes" where
  "bytes_of xs = (\<lambda>i. if i < length xs then xs ! i else 0)"

definition str :: "string \<Rightarrow> u8 list" where
  "str s = map of_char s"

fun memcmp_loop :: "bytes \<Rightarrow> bytes \<Rightarrow> nat list \<Rightarrow> int" where
  "memcmp_loop x y [] = 0"
| "memcmp_loop x y (i # is) = (if x i \<noteq> y i then uint (x i) - uint (y i) else memcmp_loop x y is)"

definition memcmp :: "bytes \<Rightarrow> bytes \<Rightarrow> nat \<Rightarrow> int" where
  "memcmp x y n = memcmp_loop x y [0..<n]"

partial_function (option) strlen_loop :: "bytes \<Rightarrow> nat \<Rightarrow> nat option" where
  "strlen_loop s n = (if s n \<noteq> 0 then strlen_loop s (n + 1) else Some n)"

definition strlen :: "bytes \<Rightarrow> nat option" where
  "strlen s = strlen_loop s 0"

partial_function (option) strcmp_loop :: "bytes \<Rightarrow> bytes \<Rightarrow> nat \<Rightarrow> int option" where
  "strcmp_loop a b i = (if a i \<noteq> 0 \<and> a i = b i then strcmp_loop a b (i + 1)
     else Some (uint (a i) - uint (b i)))"

definition strcmp :: "bytes \<Rightarrow> bytes \<Rightarrow> int option" where
  "strcmp a b = strcmp_loop a b 0"

fun strncmp_loop :: "bytes \<Rightarrow> bytes \<Rightarrow> nat list \<Rightarrow> int" where
  "strncmp_loop a b [] = 0"
| "strncmp_loop a b (i # is) =
     (if a i \<noteq> b i then uint (a i) - uint (b i) else if a i = 0 then 0 else strncmp_loop a b is)"

definition strncmp :: "bytes \<Rightarrow> bytes \<Rightarrow> nat \<Rightarrow> int" where
  "strncmp a b n = strncmp_loop a b [0..<n]"

text \<open>
  \<open>strncpy_z\<close> writes to a character array of the caller.  The bound \<open>n - 1\<close> is computed in
  \<open>size_t\<close>, so it wraps for \<open>n = 0\<close>.
\<close>

fun strncpy_loop :: "nat \<Rightarrow> nat \<Rightarrow> bytes \<Rightarrow> u8 list \<Rightarrow> u8 list" where
  "strncpy_loop 0 i src dst = dst[i := 0]"
| "strncpy_loop (Suc k) i src dst =
     (if src i \<noteq> 0 then strncpy_loop k (i + 1) src (dst[i := src i]) else dst[i := 0])"

definition strncpy_z :: "u8 list \<Rightarrow> bytes \<Rightarrow> u32 \<Rightarrow> u8 list" where
  "strncpy_z dst src n = strncpy_loop (unat (n - 1)) 0 src dst"

section \<open>C strings\<close>

definition cstr :: "bytes \<Rightarrow> u8 list \<Rightarrow> bool" where
  "cstr b xs \<longleftrightarrow> 0 \<notin> set xs \<and> (\<forall>i<length xs. b i = xs ! i) \<and> b (length xs) = 0"

lemma cstr_bytes_of [simp]: "0 \<notin> set xs \<Longrightarrow> cstr (bytes_of xs) xs"
  by (simp add: cstr_def bytes_of_def)

lemma cstr_terminated: "0 \<notin> set xs \<Longrightarrow> cstr (bytes_of (xs @ 0 # ys)) xs"
  by (auto simp: cstr_def bytes_of_def nth_append)

text \<open>The string at the start of an array.\<close>

definition c_string :: "u8 list \<Rightarrow> u8 list" where
  "c_string ys = takeWhile (\<lambda>b. b \<noteq> 0) ys"

lemma cstr_c_string: "0 \<in> set ys \<Longrightarrow> cstr (bytes_of (ys @ zs)) (c_string ys)"
proof -
  assume "0 \<in> set ys"
  then have "c_string ys @ 0 # tl (dropWhile (\<lambda>b. b \<noteq> 0) ys) = ys"
    unfolding c_string_def
    by (metis (mono_tags, lifting) dropWhile_eq_Nil_conv hd_dropWhile list.collapse takeWhile_dropWhile_id)
  moreover have "0 \<notin> set (c_string ys)"
    by (auto simp: c_string_def dest: set_takeWhileD)
  ultimately show ?thesis
    using cstr_terminated [of "c_string ys" "tl (dropWhile (\<lambda>b. b \<noteq> 0) ys) @ zs"] by (metis append.assoc append_Cons)
qed

lemma c_string_terminated: "0 \<notin> set xs \<Longrightarrow> c_string (xs @ 0 # ys) = xs"
  unfolding c_string_def by (subst takeWhile_append2) auto

lemma cstr_no_zero: "cstr b xs \<Longrightarrow> 0 \<notin> set xs"
  by (simp add: cstr_def)

lemma cstr_nonzero: "cstr b xs \<Longrightarrow> i < length xs \<Longrightarrow> b i = xs ! i \<and> b i \<noteq> 0"
  by (auto simp: cstr_def) (metis nth_mem)

lemma cstr_unique: "cstr b xs \<Longrightarrow> cstr b ys \<Longrightarrow> xs = ys"
proof -
  assume c: "cstr b xs" "cstr b ys"
  then have "length xs = length ys"
    using cstr_nonzero [OF c(1), of "length ys"] cstr_nonzero [OF c(2), of "length xs"]
    by (cases "length xs" "length ys" rule: linorder_cases) (auto simp: cstr_def)
  then show ?thesis
    using c by (auto simp: cstr_def intro!: nth_equalityI)
qed

lemma cstr_Nil [simp]: "cstr b [] \<longleftrightarrow> b 0 = 0"
  by (simp add: cstr_def)

lemma cstr_Cons [simp]: "cstr b (x # xs) \<longleftrightarrow> b 0 = x \<and> x \<noteq> 0 \<and> cstr (\<lambda>k. b (Suc k)) xs"
  by (auto simp: cstr_def nth_Cons split: nat.splits)

lemma strlen_loop_ok: "cstr (\<lambda>k. b (i + k)) xs \<Longrightarrow> strlen_loop b i = Some (i + length xs)"
proof (induction xs arbitrary: i)
  case (Cons x xs)
  then show ?case
    using Cons.IH [of "i + 1"] by (simp add: strlen_loop.simps [of b i])
qed (simp add: strlen_loop.simps)

lemma strlen_cstr: "cstr b xs \<Longrightarrow> strlen b = Some (length xs)"
  using strlen_loop_ok [of b 0 xs] by (simp add: strlen_def)

lemma strlen_loop_end:
  "strlen_loop b i = Some n \<Longrightarrow> i \<le> n \<and> b n = 0 \<and> (\<forall>k. i \<le> k \<and> k < n \<longrightarrow> b k \<noteq> 0)"
proof (induction b i n rule: strlen_loop.raw_induct [rotated, consumes 1, case_names step])
  case (step loop s i n)
  show ?case
  proof (cases "s i = 0")
    case False
    then have "i + 1 \<le> n \<and> s n = 0 \<and> (\<forall>k. i + 1 \<le> k \<and> k < n \<longrightarrow> s k \<noteq> 0)"
      using step by simp
    then show ?thesis
      using False by (metis Suc_eq_plus1 Suc_leD le_neq_implies_less less_eq_Suc_le)
  qed (use step(2) in auto)
qed

lemma cstr_map: "b n = 0 \<Longrightarrow> \<forall>k<n. b k \<noteq> 0 \<Longrightarrow> cstr b (map b [0..<n])"
  by (auto simp: cstr_def)

lemma strlen_Some: "strlen b = Some n \<longleftrightarrow> (\<exists>xs. cstr b xs \<and> length xs = n)"
proof
  assume "strlen b = Some n"
  then have n: "b n = 0" "\<forall>k<n. b k \<noteq> 0"
    using strlen_loop_end [of b 0 n] by (auto simp: strlen_def)
  then have "cstr b (map b [0..<n])"
    by (rule cstr_map)
  then show "\<exists>xs. cstr b xs \<and> length xs = n"
    by fastforce
qed (auto simp: strlen_cstr)

lemma strlen_None: "strlen b = None \<longleftrightarrow> (\<forall>i. b i \<noteq> 0)"
proof
  assume none: "strlen b = None"
  show "\<forall>i. b i \<noteq> 0"
  proof (rule ccontr)
    assume "\<not> (\<forall>i. b i \<noteq> 0)"
    then obtain n where "b n = 0" "\<forall>k<n. \<not> b k = 0"
      using exists_least_iff [of "\<lambda>i. b i = 0"] by blast
    then show False
      using cstr_map [of b n] strlen_cstr none by fastforce
  qed
next
  assume nz: "\<forall>i. b i \<noteq> 0"
  show "strlen b = None"
    using nz strlen_Some [of b] by (metis cstr_def not_None_eq)
qed

section \<open>Comparison\<close>

lemma uint_cmp: "uint (x :: u8) = uint y \<longleftrightarrow> x = y" "uint (x :: u8) < uint y \<longleftrightarrow> x < y"
  "0 = uint y \<longleftrightarrow> y = 0" "uint x = 0 \<longleftrightarrow> x = 0"  "0 < uint y \<longleftrightarrow> 0 < y"
  by (auto simp: word_less_def word_uint_eq_iff)

text \<open>The comparison functions return an integer whose sign is the order of the two strings.\<close>

definition compares :: "int \<Rightarrow> u8 list \<Rightarrow> u8 list \<Rightarrow> bool" where
  "compares r xs ys \<longleftrightarrow> (r = 0 \<longleftrightarrow> xs = ys) \<and> (r < 0 \<longleftrightarrow> ord_class.lexordp xs ys)"

lemma strcmp_loop_ok:
  "cstr (\<lambda>k. a (i + k)) xs \<Longrightarrow> cstr (\<lambda>k. b (i + k)) ys \<Longrightarrow>
   \<exists>r. strcmp_loop a b i = Some r \<and> compares r xs ys"
proof (induction xs arbitrary: i ys)
  case Nil
  then show ?case
    by (cases ys) (auto simp: strcmp_loop.simps [of a b i] compares_def uint_cmp word_gt_0)
next
  case (Cons x xs)
  show ?case
  proof (cases ys)
    case (Cons y ys')
    then show ?thesis
      using Cons.IH [of "i + 1" ys'] Cons.prems
      by (auto simp: strcmp_loop.simps [of a b i] compares_def uint_cmp)
  qed (use Cons.prems in \<open>auto simp: strcmp_loop.simps [of a b i] compares_def uint_cmp word_gt_0\<close>)
qed

lemma strcmp_cstr: "cstr a xs \<Longrightarrow> cstr b ys \<Longrightarrow> \<exists>r. strcmp a b = Some r \<and> compares r xs ys"
  unfolding strcmp_def by (rule strcmp_loop_ok) simp_all

lemma strcmp_eq: "cstr a xs \<Longrightarrow> cstr b ys \<Longrightarrow> strcmp a b = Some 0 \<longleftrightarrow> xs = ys"
  using strcmp_cstr [of a xs b ys] by (auto simp: compares_def)

lemma strncmp_loop_ok:
  "cstr (\<lambda>k. a (i + k)) xs \<Longrightarrow> cstr (\<lambda>k. b (i + k)) ys \<Longrightarrow>
   compares (strncmp_loop a b [i..<i + n]) (take n xs) (take n ys)"
proof (induction n arbitrary: i xs ys)
  case 0
  then show ?case by (simp add: compares_def)
next
  case (Suc n)
  have up: "[i..<i + Suc n] = i # [i + 1..<i + 1 + n]"
    by (simp add: upt_rec)
  show ?case
  proof (cases xs)
    case Nil
    then show ?thesis
      using Suc.prems unfolding up by (cases ys) (auto simp: compares_def uint_cmp word_gt_0)
  next
    case (Cons x xs')
    then show ?thesis
      using Suc.prems Suc.IH [of "i + 1" xs'] unfolding up
      by (cases ys) (auto simp: compares_def uint_cmp word_gt_0)
  qed
qed

lemma strncmp_cstr: "cstr a xs \<Longrightarrow> cstr b ys \<Longrightarrow> compares (strncmp a b n) (take n xs) (take n ys)"
  using strncmp_loop_ok [of a 0 xs b ys n] by (simp add: strncmp_def)

lemma memcmp_loop_ok: "compares (memcmp_loop x y is) (map x is) (map y is)"
  by (induction "is") (auto simp: compares_def uint_cmp)

section \<open>Bounded copy\<close>

lemma strncpy_loop_ok:
  "cstr (\<lambda>j. src (i + j)) xs \<Longrightarrow> i + k < length dst \<Longrightarrow>
   strncpy_loop k i src dst = take i dst @ take k xs @ 0 # drop (i + min k (length xs) + 1) dst"
proof (induction k arbitrary: i xs dst)
  case 0
  then show ?case
    by (simp add: upd_conv_take_nth_drop)
next
  case (Suc k)
  show ?case
  proof (cases xs)
    case Nil
    then show ?thesis
      using Suc.prems by (simp add: upd_conv_take_nth_drop)
  next
    case (Cons x xs')
    then show ?thesis
      using Suc.prems Suc.IH [of "i + 1" xs' "dst[i := x]"]
      by (simp add: take_Suc_conv_app_nth nth_list_update list_update_append)
  qed
qed

section \<open>Properties of the string functions\<close>

text \<open>
  C31.  On terminated strings \<open>strcmp\<close> returns, and the sign of its result is the lexicographic order
  of the strings as unsigned bytes; \<open>strncmp\<close> is the same comparison of the first \<open>n\<close> characters and
  \<open>memcmp\<close> that of the first \<open>n\<close> bytes.  \<open>strlen\<close> returns exactly when a terminator exists, with the
  length of the string.
\<close>

theorem string_compare_correct:
  assumes "cstr a xs" "cstr b ys"
  shows "(\<exists>r. strcmp a b = Some r \<and> (r = 0 \<longleftrightarrow> xs = ys) \<and> (r < 0 \<longleftrightarrow> ord_class.lexordp xs ys)) \<and>
    (strncmp a b n = 0 \<longleftrightarrow> take n xs = take n ys) \<and>
    (strncmp a b n < 0 \<longleftrightarrow> ord_class.lexordp (take n xs) (take n ys)) \<and>
    (memcmp c d n = 0 \<longleftrightarrow> map c [0..<n] = map d [0..<n]) \<and>
    (memcmp c d n < 0 \<longleftrightarrow> ord_class.lexordp (map c [0..<n]) (map d [0..<n])) \<and>
    strlen a = Some (length xs) \<and> (strlen c = None \<longleftrightarrow> (\<forall>i. c i \<noteq> 0))"
proof -
  note strlen_None [of c]
  moreover have "memcmp c d n = 0 \<longleftrightarrow> map c [0..<n] = map d [0..<n]"
    "memcmp c d n < 0 \<longleftrightarrow> ord_class.lexordp (map c [0..<n]) (map d [0..<n])"
    using memcmp_loop_ok [of c d "[0..<n]"] by (simp_all only: compares_def memcmp_def)
  ultimately show ?thesis
    using strcmp_cstr [OF assms] strncmp_cstr [OF assms] strlen_cstr [OF assms(1)]
    by (simp add: compares_def)
qed

theorem string_compare_correct_witness:
  "(\<exists>r. strcmp (bytes_of (str ''cat'')) (bytes_of (str ''cow'')) = Some r \<and> r < 0) \<and>
   strncmp (bytes_of (str ''cat'')) (bytes_of (str ''cow'')) 1 = 0 \<and> memcmp (bytes_of [1, 0, 2]) (bytes_of [1, 0, 3]) 3 < 0"
  using string_compare_correct [OF cstr_bytes_of [of "str ''cat''"] cstr_bytes_of [of "str ''cow''"], of 1 "\<lambda>_. 1" "\<lambda>_. 1"]
    string_compare_correct [OF cstr_bytes_of [of "str ''cat''"] cstr_bytes_of [of "str ''cow''"], of 3 "bytes_of [1, 0, 2]" "bytes_of [1, 0, 3]"]
  by (auto simp: str_def bytes_of_def upt_rec)

text \<open>
  \<open>strncpy_z\<close> into an array of \<open>n\<close> bytes always leaves a terminated string: the source cut to
  \<open>n - 1\<close> characters, followed by what the array held before.  It never writes past the array.
\<close>

theorem strncpy_z_correct:
  assumes "cstr src xs" "length dst = unat n" "n \<noteq> 0"
  shows "strncpy_z dst src n = take (unat n - 1) xs @ 0 # drop (min (unat n - 1) (length xs) + 1) dst \<and>
    length (strncpy_z dst src n) = length dst \<and>
    cstr (bytes_of (strncpy_z dst src n)) (take (unat n - 1) xs)"
proof -
  have n: "unat (n - 1) = unat n - 1" "0 < unat n"
    using assms(3) by (simp_all add: unat_minus_one unat_gt_0)
  have eq: "strncpy_z dst src n = take (unat n - 1) xs @ 0 # drop (min (unat n - 1) (length xs) + 1) dst"
    using strncpy_loop_ok [of src 0 xs "unat n - 1" dst] assms n by (simp add: strncpy_z_def)
  have "0 \<notin> set (take (unat n - 1) xs)"
    using assms(1) by (auto simp: cstr_def dest: in_set_takeD)
  then show ?thesis
    using cstr_terminated [of "take (unat n - 1) xs"] assms(2) n(2) by (simp add: eq)
qed

theorem strncpy_z_correct_witness:
  "strncpy_z [9, 9, 9, 9] (bytes_of (str ''kernel'')) 4 = [107, 101, 114, 0]"
  using strncpy_z_correct [OF cstr_bytes_of [of "str ''kernel''"], of "[9, 9, 9, 9]" 4] by (simp add: str_def)

end
