(* ===== verification/Screen.thy ===== *)
theory Screen
  imports Kstring
begin

text \<open>
  The VGA text screen, \<open>kernel/screen.c\<close>.  Video memory is the function from byte offsets above
  \<open>0xB8000\<close>: two bytes per cell, character and colour.  \<open>kprint\<close> reads its string through a pointer
  until the terminator, so it is partial; \<open>kprint_arr\<close> is the same loop over a character array or
  literal.
\<close>

definition COLS :: int where
  "COLS = 80"

definition ROWS :: int where
  "ROWS = 25"

definition COLOR_WHITE_ON_BLACK :: u8 where
  "COLOR_WHITE_ON_BLACK = 0x0F"

definition COLOR_GREEN_ON_BLACK :: u8 where
  "COLOR_GREEN_ON_BLACK = 0x0A"

definition COLOR_RED_ON_BLACK :: u8 where
  "COLOR_RED_ON_BLACK = 0x0C"

type_synonym video = "int \<Rightarrow> u8"

record console =
  video :: video
  cursor :: int
  text_color :: u8

definition put_cell :: "int \<Rightarrow> u8 \<Rightarrow> u8 \<Rightarrow> video \<Rightarrow> video" where
  "put_cell index c color v = v(index * 2 := c, index * 2 + 1 := color)"

text \<open>The body of the loop that moves a cell up one row.\<close>

definition move_cell :: "int \<Rightarrow> video \<Rightarrow> video" where
  "move_cell i v =
     (let v = v(i * 2 := v ((i + COLS) * 2))
      in v(i * 2 + 1 := v ((i + COLS) * 2 + 1)))"

definition scroll_if_needed :: "console \<Rightarrow> console" where
  "scroll_if_needed c =
     (if cursor c < COLS * ROWS then c
      else let v = fold move_cell [0..COLS * (ROWS - 1) - 1] (video c);
               v = fold (\<lambda>i. put_cell i 0x20 (text_color c)) [COLS * (ROWS - 1)..COLS * ROWS - 1] v
           in c\<lparr>video := v, cursor := COLS * (ROWS - 1)\<rparr>)"

definition clear_screen :: "console \<Rightarrow> console" where
  "clear_screen c =
     c\<lparr>video := fold (\<lambda>i. put_cell i 0x20 COLOR_WHITE_ON_BLACK) [0..COLS * ROWS - 1] (video c), cursor := 0\<rparr>"

definition kprint_char :: "u8 \<Rightarrow> console \<Rightarrow> console" where
  "kprint_char ch c = scroll_if_needed
     (if ch = 0x0A then c\<lparr>cursor := (cursor c div COLS + 1) * COLS\<rparr>
      else if ch = 0x08 then
        (if cursor c > 0
         then c\<lparr>cursor := cursor c - 1, video := put_cell (cursor c - 1) 0x20 (text_color c) (video c)\<rparr>
         else c)
      else c\<lparr>video := put_cell (cursor c) ch (text_color c) (video c), cursor := cursor c + 1\<rparr>)"

partial_function (option) kprint_loop :: "bytes \<Rightarrow> nat \<Rightarrow> console \<Rightarrow> console option" where
  "kprint_loop s i c = (if s i \<noteq> 0 then kprint_loop s (i + 1) (kprint_char (s i) c) else Some c)"

definition kprint :: "bytes \<Rightarrow> console \<Rightarrow> console option" where
  "kprint s c = kprint_loop s 0 c"

fun kprint_arr :: "u8 list \<Rightarrow> console \<Rightarrow> console" where
  "kprint_arr [] c = c"
| "kprint_arr (x # xs) c = (if x \<noteq> 0 then kprint_arr xs (kprint_char x c) else c)"

definition kprint_lit :: "string \<Rightarrow> console \<Rightarrow> console" where
  "kprint_lit s = kprint_arr (str s)"

definition kprint_color :: "u8 list \<Rightarrow> u8 \<Rightarrow> console \<Rightarrow> console" where
  "kprint_color s color c =
     (let saved = text_color c in (kprint_arr s (c\<lparr>text_color := color\<rparr>))\<lparr>text_color := saved\<rparr>)"

text \<open>The loop over the shift counts 28, 24, .., 0.\<close>

definition hex_digit :: "u32 \<Rightarrow> nat \<Rightarrow> u8" where
  "hex_digit n sh = str ''0123456789abcdef'' ! unat (drop_bit sh n AND 0xF)"

definition kprint_hex :: "u32 \<Rightarrow> console \<Rightarrow> console" where
  "kprint_hex n c =
     fold (\<lambda>sh. kprint_char (hex_digit n sh)) [28, 24, 20, 16, 12, 8, 4, 0] (kprint_lit ''0x'' c)"

definition screen_put :: "int \<Rightarrow> int \<Rightarrow> u8 \<Rightarrow> u8 \<Rightarrow> console \<Rightarrow> console" where
  "screen_put row col ch color c =
     (if row < 0 \<or> row \<ge> ROWS \<or> col < 0 \<or> col \<ge> COLS then c
      else c\<lparr>video := put_cell (row * COLS + col) ch color (video c)\<rparr>)"

text \<open>
  \<open>kprint_dec\<close> fills its eleven-byte buffer from the right.  The index is an \<open>int\<close> and ends at
  \<open>-1\<close> when the buffer is full.
\<close>

function dec_loop :: "u32 \<Rightarrow> int \<Rightarrow> u8 list \<Rightarrow> int \<times> u8 list" where
  "dec_loop n i buf =
     (if n > 0 \<and> i \<ge> 0 then dec_loop (n div 10) (i - 1) (buf[nat i := 0x30 + ucast (n mod 10)])
      else (i, buf))"
  by pat_completeness auto
termination
  by (relation "measure (\<lambda>(n, i, buf). nat (i + 1))") auto

definition kprint_dec :: "u32 \<Rightarrow> console \<Rightarrow> console" where
  "kprint_dec n c =
     (let buf = (replicate 11 0)[10 := 0]
      in if n = 0 then kprint_char 0x30 c
         else let (i, buf) = dec_loop n 9 buf in kprint_arr (drop (nat (i + 1)) buf) c)"

section \<open>Cells\<close>

definition cell :: "video \<Rightarrow> int \<Rightarrow> u8 \<times> u8" where
  "cell v i = (v (i * 2), v (i * 2 + 1))"

text \<open>Two video memories that agree outside the 4000 bytes of the text window.\<close>

definition only_window :: "video \<Rightarrow> video \<Rightarrow> bool" where
  "only_window v v' \<longleftrightarrow> (\<forall>x. x < 0 \<or> 4000 \<le> x \<longrightarrow> v' x = v x)"

lemma only_window_refl [simp]: "only_window v v"
  by (simp add: only_window_def)

lemma only_window_trans: "only_window v w \<Longrightarrow> only_window w x \<Longrightarrow> only_window v x"
  by (simp add: only_window_def)

lemma cell_put_cell [simp]: "cell (put_cell i ch col v) j = (if j = i then (ch, col) else cell v j)"
proof -
  have "j * 2 \<noteq> i * 2 + 1" "j * 2 + 1 \<noteq> i * 2"
    by presburger+
  then show ?thesis
    by (simp add: cell_def put_cell_def)
qed

lemma cell_move_cell [simp]: "cell (move_cell i v) j = (if j = i then cell v (i + 80) else cell v j)"
proof -
  have "j * 2 \<noteq> i * 2 + 1" "j * 2 + 1 \<noteq> i * 2" "(i + 80) * 2 + 1 \<noteq> i * 2"
    by presburger+
  then show ?thesis
    by (simp add: cell_def move_cell_def COLS_def Let_def)
qed

lemma only_window_put_cell: "0 \<le> i \<Longrightarrow> i < 2000 \<Longrightarrow> only_window v (put_cell i ch col v)"
  by (simp add: only_window_def put_cell_def)

lemma only_window_move_cell: "0 \<le> i \<Longrightarrow> i < 2000 \<Longrightarrow> only_window v (move_cell i v)"
  by (simp add: only_window_def move_cell_def Let_def)

lemma only_window_fold:
  "(\<And>i v. i \<in> set is \<Longrightarrow> only_window v (f i v)) \<Longrightarrow> only_window v (fold f is v)"
proof (induction "is" arbitrary: v)
  case (Cons i "is")
  then show ?case
    using only_window_trans by fastforce
qed simp

lemma cell_fill:
  "cell (fold (\<lambda>i. put_cell i ch col) is v) j = (if j \<in> set is then (ch, col) else cell v j)"
  by (induction "is" arbitrary: v) auto

text \<open>Moving the cells up in ascending order reads each source cell before it is overwritten.\<close>

lemma cell_moves:
  "cell (fold move_cell (map int [0..<n]) v) j = (if 0 \<le> j \<and> j < int n then cell v (j + 80) else cell v j)"
  by (induction n arbitrary: j) auto

lemma upto_map_int: "[0..int n - 1] = map int [0..<n]"
  by (induction n) (auto simp: upto_rec2)

lemma cell_scroll_up: "cell (fold move_cell [0..1919] v) j = (if 0 \<le> j \<and> j < 1920 then cell v (j + 80) else cell v j)"
proof -
  have "[0..1919] = map int [0..<1920]"
    using upto_map_int [of 1920] by (simp only: of_nat_numeral) simp
  then show ?thesis
    by (simp only: cell_moves of_nat_numeral)
qed

lemma only_window_scroll: "only_window (video c) (video (scroll_if_needed c))"
proof -
  have "only_window (video c) (fold move_cell [0..1919] (video c))"
    by (rule only_window_fold) (auto intro: only_window_move_cell)
  moreover have "only_window v (fold (\<lambda>i. put_cell i 0x20 (text_color c)) [1920..1999] v)" for v
    by (rule only_window_fold) (auto intro: only_window_put_cell)
  ultimately show ?thesis
    unfolding scroll_if_needed_def COLS_def ROWS_def by (auto simp: Let_def intro: only_window_trans)
qed

lemma scroll_cells:
  assumes "\<not> cursor c < 2000"
  shows "cell (video (scroll_if_needed c)) j =
    (if 0 \<le> j \<and> j < 1920 then cell (video c) (j + 80)
     else if 1920 \<le> j \<and> j < 2000 then (0x20, text_color c) else cell (video c) j)"
    "cursor (scroll_if_needed c) = 1920"
proof -
  have v: "video (scroll_if_needed c) =
      fold (\<lambda>i. put_cell i 0x20 (text_color c)) [1920..1999] (fold move_cell [0..1919] (video c))"
    using assms unfolding scroll_if_needed_def COLS_def ROWS_def by (simp only: Let_def) simp
  have "j \<in> set [1920..1999] \<longleftrightarrow> 1920 \<le> j \<and> j < 2000"
    unfolding set_upto by auto
  then show "cell (video (scroll_if_needed c)) j =
    (if 0 \<le> j \<and> j < 1920 then cell (video c) (j + 80)
     else if 1920 \<le> j \<and> j < 2000 then (0x20, text_color c) else cell (video c) j)"
    unfolding v cell_fill cell_scroll_up by auto
  show "cursor (scroll_if_needed c) = 1920"
    using assms unfolding scroll_if_needed_def COLS_def ROWS_def by (simp only: Let_def) simp
qed

lemma scroll_id: "cursor c < 2000 \<Longrightarrow> scroll_if_needed c = c"
  by (simp add: scroll_if_needed_def COLS_def ROWS_def)

lemma text_color_scroll [simp]: "text_color (scroll_if_needed c) = text_color c"
  unfolding scroll_if_needed_def by (simp only: Let_def) simp

lemma text_color_kprint_char [simp]: "text_color (kprint_char ch c) = text_color c"
  by (simp add: kprint_char_def)

section \<open>An endless roll of paper\<close>

text \<open>
  What the driver promises: the characters are typed on a roll of paper of 80 columns that never ends,
  and the screen shows the 25 lines from \<open>topline\<close> on.  Reaching the end of the window feeds one blank
  line; nothing above the window ever changes.
\<close>

record paper =
  cells :: "int \<Rightarrow> u8 \<times> u8"
  pos :: int
  topline :: int
  ink :: u8

definition feed :: "paper \<Rightarrow> paper" where
  "feed p =
     (if pos p < 80 * (topline p + 25) then p
      else p\<lparr>cells := (\<lambda>i. if 80 * (topline p + 25) \<le> i \<and> i < 80 * (topline p + 26) then (0x20, ink p) else cells p i),
             topline := topline p + 1\<rparr>)"

definition type_char :: "u8 \<Rightarrow> paper \<Rightarrow> paper" where
  "type_char ch p = feed
     (if ch = 0x0A then p\<lparr>pos := (pos p div 80 + 1) * 80\<rparr>
      else if ch = 0x08 then
        (if 80 * topline p < pos p then p\<lparr>pos := pos p - 1, cells := (cells p)(pos p - 1 := (0x20, ink p))\<rparr> else p)
      else p\<lparr>cells := (cells p)(pos p := (ch, ink p)), pos := pos p + 1\<rparr>)"

definition window :: "paper \<Rightarrow> console \<Rightarrow> bool" where
  "window p c \<longleftrightarrow> cursor c = pos p - 80 * topline p \<and> 0 \<le> cursor c \<and> cursor c < 2000 \<and> text_color c = ink p \<and>
     (\<forall>i. 0 \<le> i \<and> i < 2000 \<longrightarrow> cell (video c) i = cells p (80 * topline p + i))"

text \<open>The window may be off by one line before the screen scrolls.\<close>

definition almost_window :: "paper \<Rightarrow> console \<Rightarrow> bool" where
  "almost_window p c \<longleftrightarrow> cursor c = pos p - 80 * topline p \<and> 0 \<le> cursor c \<and> cursor c \<le> 2000 \<and> text_color c = ink p \<and>
     (\<forall>i. 0 \<le> i \<and> i < 2000 \<longrightarrow> cell (video c) i = cells p (80 * topline p + i))"

lemma window_feed:
  assumes "almost_window p c"
  shows "window (feed p) (scroll_if_needed c)"
proof (cases "cursor c < 2000")
  case True
  then show ?thesis
    using assms by (auto simp: window_def almost_window_def scroll_id feed_def)
next
  case False
  have "cursor c = 2000" "pos p = 80 * topline p + 2000"
    using False assms by (auto simp: almost_window_def)
  moreover have "cell (video (scroll_if_needed c)) i = cells (feed p) (80 * (topline p + 1) + i)" if "0 \<le> i" "i < 2000" for i
    using that assms calculation by (auto simp: scroll_cells(1) [OF False] feed_def almost_window_def algebra_simps)
  ultimately show ?thesis
    using assms by (auto simp: window_def almost_window_def scroll_cells(2) [OF False] feed_def)
qed

lemma window_type_char:
  assumes "window p c"
  shows "window (type_char ch p) (kprint_char ch c)"
proof -
  have w: "cursor c = pos p - 80 * topline p" "0 \<le> cursor c" "cursor c < 2000" "text_color c = ink p"
    "\<And>i. 0 \<le> i \<Longrightarrow> i < 2000 \<Longrightarrow> cell (video c) i = cells p (80 * topline p + i)"
    using assms by (auto simp: window_def)
  have nl: "almost_window (p\<lparr>pos := (pos p div 80 + 1) * 80\<rparr>) (c\<lparr>cursor := (cursor c div 80 + 1) * 80\<rparr>)"
  proof -
    have "pos p = cursor c + 80 * topline p"
      using w(1) by simp
    then have "(cursor c div 80 + 1) * 80 = (pos p div 80 + 1) * 80 - 80 * topline p"
      by simp
    moreover have "0 \<le> (cursor c div 80 + 1) * 80" "(cursor c div 80 + 1) * 80 \<le> 2000"
      using w(2,3) by presburger+
    ultimately show ?thesis
      using w(4,5) unfolding almost_window_def by simp
  qed
  have bs: "almost_window (p\<lparr>pos := pos p - 1, cells := (cells p)(pos p - 1 := (0x20, ink p))\<rparr>)
      (c\<lparr>cursor := cursor c - 1, video := put_cell (cursor c - 1) 0x20 (text_color c) (video c)\<rparr>)" if "0 < cursor c"
    using w that by (auto simp: almost_window_def)
  have ch: "almost_window (p\<lparr>cells := (cells p)(pos p := (ch, ink p)), pos := pos p + 1\<rparr>)
      (c\<lparr>video := put_cell (cursor c) ch (text_color c) (video c), cursor := cursor c + 1\<rparr>)"
    using w by (auto simp: almost_window_def)
  have id: "almost_window p c"
    using w by (simp add: almost_window_def)
  show ?thesis
    unfolding type_char_def kprint_char_def COLS_def
    by (rule window_feed) (use nl bs ch id w(1) in simp)
qed

lemma window_kprint_arr:
  "window p c \<Longrightarrow> window (fold type_char (takeWhile (\<lambda>x. x \<noteq> 0) xs) p) (kprint_arr xs c)"
  by (induction xs arbitrary: p c) (auto intro: window_type_char)

lemma kprint_arr_fold: "kprint_arr xs = fold kprint_char (takeWhile (\<lambda>x. x \<noteq> 0) xs)"
proof
  show "kprint_arr xs c = fold kprint_char (takeWhile (\<lambda>x. x \<noteq> 0) xs) c" for c
    by (induction xs arbitrary: c) auto
qed

lemma only_window_kprint_char:
  assumes "0 \<le> cursor c" "cursor c < 2000"
  shows "only_window (video c) (video (kprint_char ch c))"
proof -
  have "only_window (video c) (video d) \<Longrightarrow> only_window (video c) (video (scroll_if_needed d))" for d
    using only_window_scroll only_window_trans by blast
  note scroll = this
  show ?thesis
    unfolding kprint_char_def by (rule scroll) (use assms in \<open>auto intro!: only_window_put_cell\<close>)
qed

lemma window_bounds: "window p c \<Longrightarrow> 0 \<le> cursor c \<and> cursor c < 2000"
  by (simp add: window_def)

lemma only_window_chars: "window p c \<Longrightarrow> only_window (video c) (video (fold kprint_char xs c))"
proof (induction xs arbitrary: p c)
  case (Cons x xs)
  have "only_window (video c) (video (kprint_char x c))"
    using window_bounds [OF Cons(2)] by (simp add: only_window_kprint_char)
  moreover have "only_window (video (kprint_char x c)) (video (fold kprint_char xs (kprint_char x c)))"
    by (rule Cons(1)) (rule window_type_char [OF Cons(2)])
  ultimately show ?case
    by (auto intro: only_window_trans)
qed simp

lemma kprint_loop_cstr:
  "cstr s xs \<Longrightarrow> i \<le> length xs \<Longrightarrow> kprint_loop s i c = Some (fold kprint_char (drop i xs) c)"
proof (induction "length xs - i" arbitrary: i c)
  case 0
  then have "s i = 0" "drop i xs = []"
    by (auto simp: cstr_def)
  then show ?case
    by (simp add: kprint_loop.simps)
next
  case (Suc k)
  then have i: "i < length xs"
    by simp
  have "kprint_loop s (i + 1) (kprint_char (xs ! i) c) = Some (fold kprint_char (drop (i + 1) xs) (kprint_char (xs ! i) c))"
    using Suc i by simp
  then show ?case
    using i cstr_nonzero [OF Suc(3) i]
    by (subst kprint_loop.simps) (auto simp: Cons_nth_drop_Suc [symmetric])
qed

lemma kprint_cstr: "cstr s xs \<Longrightarrow> kprint s c = Some (fold kprint_char xs c)"
  by (simp add: kprint_def kprint_loop_cstr)

lemma cstr_takeWhile: "cstr (bytes_of xs) (takeWhile (\<lambda>x. x \<noteq> 0) xs)"
proof -
  let ?t = "takeWhile (\<lambda>x. x \<noteq> 0) xs"
  have "0 \<notin> set ?t"
    by (auto dest: set_takeWhileD)
  moreover have "bytes_of xs i = ?t ! i" if "i < length ?t" for i
    using that length_takeWhile_le [of "\<lambda>x. x \<noteq> 0" xs] by (simp add: bytes_of_def takeWhile_nth)
  moreover have "bytes_of xs (length ?t) = 0"
    using nth_length_takeWhile [of "\<lambda>x. x \<noteq> 0" xs] by (auto simp: bytes_of_def)
  ultimately show ?thesis
    by (simp add: cstr_def)
qed

text \<open>\<open>kprint_arr\<close> is \<open>kprint\<close> on an array.\<close>

lemma kprint_bytes_of: "kprint (bytes_of xs) c = Some (kprint_arr xs c)"
  by (simp add: kprint_cstr [OF cstr_takeWhile] kprint_arr_fold)

text \<open>What is typed never changes a line that has left the window.\<close>

lemma feed_above:
  "80 * topline q \<le> pos q \<Longrightarrow> 80 * topline (feed q) \<le> pos (feed q) \<and> topline q \<le> topline (feed q) \<and>
    (\<forall>i < 80 * topline q. cells (feed q) i = cells q i)"
  by (auto simp: feed_def)

definition above :: "paper \<Rightarrow> paper \<Rightarrow> bool" where
  "above p q \<longleftrightarrow> 80 * topline q \<le> pos q \<and> topline p \<le> topline q \<and> (\<forall>i < 80 * topline p. cells q i = cells p i)"

lemma above_trans: "above p q \<Longrightarrow> above q r \<Longrightarrow> above p r"
  by (auto simp: above_def)

lemma above_type_char:
  assumes "80 * topline p \<le> pos p"
  shows "above p (type_char ch p)"
proof -
  have "topline p \<le> pos p div 80"
    using zdiv_mono1 [OF assms, of 80] by simp
  then have nl: "80 * topline p \<le> (pos p div 80 + 1) * 80"
    by simp
  have "above p q \<Longrightarrow> above p (feed q)" for q
    using feed_above [of q] by (auto simp: above_def)
  note fd = this
  show ?thesis
    unfolding type_char_def by (rule fd) (use assms nl in \<open>simp add: above_def\<close>)
qed

lemma above_fold: "80 * topline p \<le> pos p \<Longrightarrow> above p (fold type_char xs p)"
proof (induction xs arbitrary: p)
  case Nil
  then show ?case
    by (simp add: above_def)
next
  case (Cons x xs)
  note step = above_type_char [OF Cons(2), of x]
  have "above (type_char x p) (fold type_char xs (type_char x p))"
    by (rule Cons(1)) (use step in \<open>simp add: above_def\<close>)
  then show ?case
    using step by (auto intro: above_trans)
qed

lemma window_fold: "window p c \<Longrightarrow> window (fold type_char xs p) (fold kprint_char xs c)"
  by (induction xs arbitrary: p c) (auto intro: window_type_char)

text \<open>
  C14.  The screen is a window on a roll of paper.  If the screen shows the 25 lines of a roll from its top
  line on, then printing any C string returns, the screen shows the same roll with the string typed
  on it (newline, backspace and wrapping included), with the cursor on the screen; only the 4000 bytes
  of the text window are written, and no line above the window is changed.
\<close>

theorem kprint_refines_paper:
  assumes "window p c" "cstr s xs"
  shows "\<exists>c'. kprint s c = Some c' \<and> window (fold type_char xs p) c' \<and> 0 \<le> cursor c' \<and> cursor c' < 2000 \<and>
    (\<forall>x. x < 0 \<or> 4000 \<le> x \<longrightarrow> video c' x = video c x) \<and>
    (\<forall>i < 80 * topline p. cells (fold type_char xs p) i = cells p i)"
proof (intro exI [of _ "fold kprint_char xs c"] conjI)
  note w = window_fold [OF assms(1), of xs]
  show "kprint s c = Some (fold kprint_char xs c)"
    by (rule kprint_cstr) (rule assms(2))
  show "window (fold type_char xs p) (fold kprint_char xs c)"
    by (rule w)
  show "0 \<le> cursor (fold kprint_char xs c)" "cursor (fold kprint_char xs c) < 2000"
    using window_bounds [OF w] by auto
  show "\<forall>x. x < 0 \<or> 4000 \<le> x \<longrightarrow> video (fold kprint_char xs c) x = video c x"
    using only_window_chars [OF assms(1)] by (simp add: only_window_def)
  show "\<forall>i < 80 * topline p. cells (fold type_char xs p) i = cells p i"
    using above_fold [of p xs] assms(1) by (simp add: above_def window_def)
qed

text \<open>The paper that a cleared screen shows.\<close>

definition blank_paper :: paper where
  "blank_paper = \<lparr>cells = (\<lambda>_. (0x20, COLOR_WHITE_ON_BLACK)), pos = 0, topline = 0, ink = COLOR_WHITE_ON_BLACK\<rparr>"

lemma cell_clear: "0 \<le> i \<Longrightarrow> i < 2000 \<Longrightarrow> cell (video (clear_screen c)) i = (0x20, COLOR_WHITE_ON_BLACK)"
  unfolding clear_screen_def COLS_def ROWS_def by (simp add: cell_fill del: upto.simps)

lemma window_clear: "text_color c = COLOR_WHITE_ON_BLACK \<Longrightarrow> window blank_paper (clear_screen c)"
proof -
  assume "text_color c = COLOR_WHITE_ON_BLACK"
  moreover have "cursor (clear_screen c) = 0" "text_color (clear_screen c) = text_color c"
    unfolding clear_screen_def by simp_all
  ultimately show ?thesis
    by (simp add: window_def blank_paper_def cell_clear)
qed

theorem kprint_refines_paper_witness:
  "\<exists>c'. kprint (bytes_of (str ''hi'')) (clear_screen \<lparr>video = \<lambda>_. 0, cursor = 0, text_color = COLOR_WHITE_ON_BLACK\<rparr>) = Some c' \<and>
    window (fold type_char (str ''hi'') blank_paper) c'"
proof -
  let ?c = "clear_screen \<lparr>video = \<lambda>_. 0, cursor = 0, text_color = COLOR_WHITE_ON_BLACK\<rparr>"
  have "window blank_paper ?c"
    by (rule window_clear) simp
  moreover have "cstr (bytes_of (str ''hi'')) (str ''hi'')"
    by (rule cstr_bytes_of) (simp add: str_def)
  ultimately show ?thesis
    using kprint_refines_paper by blast
qed

section \<open>Numbers\<close>

text \<open>
  Reading a number back from its digits, of which there is at least one; a character that is no digit of the base makes the
  text unreadable.
\<close>

definition digit_value :: "u8 \<Rightarrow> nat" where
  "digit_value d =
     (if 0x30 \<le> d \<and> d \<le> 0x39 then unat d - 0x30 else if 0x61 \<le> d \<and> d \<le> 0x66 then unat d - 0x57 else 255)"

definition weigh :: "nat \<Rightarrow> u8 list \<Rightarrow> nat" where
  "weigh b ds = foldl (\<lambda>a d. b * a + digit_value d) 0 ds"

definition read_number :: "nat \<Rightarrow> u8 list \<Rightarrow> nat option" where
  "read_number b ds = (if ds \<noteq> [] \<and> list_all (\<lambda>d. digit_value d < b) ds then Some (weigh b ds) else None)"

fun decimal :: "nat \<Rightarrow> u8 list" where
  "decimal n = (if n = 0 then [] else decimal (n div 10) @ [0x30 + of_nat (n mod 10)])"

declare decimal.simps [simp del]

lemma decimal_0 [simp]: "decimal 0 = []"
  by (simp add: decimal.simps)

lemma unat_digit: "k < 10 \<Longrightarrow> unat (0x30 + of_nat k :: u8) = 0x30 + k"
  by (simp add: unat_word_ariths unat_of_nat)

lemma digit_value_dec: "k < 10 \<Longrightarrow> digit_value (0x30 + of_nat k) = k"
  by (simp add: digit_value_def unat_digit word_le_nat_alt)

lemma weigh_decimal: "weigh 10 (decimal n) = n"
proof (induction n rule: decimal.induct)
  case (1 n)
  show ?case
    using 1 by (cases "n = 0") (simp_all add: decimal.simps [of n] weigh_def digit_value_dec)
qed

lemma decimal_digits: "d \<in> set (decimal n) \<Longrightarrow> 0x30 \<le> d \<and> d \<le> 0x39"
proof (induction n rule: decimal.induct)
  case (1 n)
  then show ?case
    by (cases "n = 0") (auto simp: decimal.simps [of n] word_le_nat_alt unat_digit)
qed

lemma decimal_nonempty: "0 < n \<Longrightarrow> decimal n \<noteq> []"
  by (subst decimal.simps) simp

lemma decimal_hd: "0 < n \<Longrightarrow> hd (decimal n) \<noteq> 0x30"
proof (induction n rule: decimal.induct)
  case (1 n)
  show ?case
  proof (cases "n < 10")
    case True
    then have "hd (decimal n) = 0x30 + of_nat n"
      using 1(2) by (simp add: decimal.simps [of n])
    then show ?thesis
      using 1(2) True unat_digit [of n] by (auto simp: word_unat_eq_iff)
  next
    case False
    then show ?thesis
      using 1 decimal_nonempty [of "n div 10"] by (subst decimal.simps) simp
  qed
qed

lemma ucast_digit: "0x30 + ucast (n mod 10 :: u32) = (0x30 + of_nat (unat n mod 10) :: u8)"
proof -
  have "(ucast (n mod 10) :: u8) = of_nat (unat (n mod 10))"
    by transfer simp
  then show ?thesis
    by (simp add: unat_mod)
qed

declare dec_loop.simps [simp del]

lemma dec_loop_ok:
  "unat n < 10 ^ nat (i + 1) \<Longrightarrow> - 1 \<le> i \<Longrightarrow> nat (i + 1) \<le> length buf \<Longrightarrow>
   (case dec_loop n i buf of (i', buf') \<Rightarrow>
      drop (nat (i' + 1)) buf' = decimal (unat n) @ drop (nat (i + 1)) buf)"
proof (induction n i buf rule: dec_loop.induct)
  case (1 n i buf)
  show ?case
  proof (cases "n = 0")
    case True
    then show ?thesis
      by (subst dec_loop.simps) simp
  next
    case False
    have pos: "0 < unat n"
      using False by (simp add: unat_gt_0)
    then have i: "0 \<le> i"
      using 1(2,3) by (cases "i = -1") auto
    let ?b = "buf[nat i := 0x30 + ucast (n mod 10)]"
    have p: "(10 :: nat) ^ nat (i + 1) = 10 * 10 ^ nat i"
      using i by (simp add: nat_add_distrib)
    have "unat (n div 10) < 10 ^ nat (i - 1 + 1)"
      using 1(2) p by (simp add: unat_div less_mult_imp_div_less mult.commute)
    then have IH: "case dec_loop (n div 10) (i - 1) ?b of (i', buf') \<Rightarrow>
        drop (nat (i' + 1)) buf' = decimal (unat (n div 10)) @ drop (nat (i - 1 + 1)) ?b"
      using 1(1) [of] 1(4) i False by (simp add: word_gt_0)
    have "nat i < length buf" "nat (i + 1) = Suc (nat i)"
      using 1(4) i by auto
    then have "drop (nat i) ?b = (0x30 + ucast (n mod 10)) # drop (nat (i + 1)) buf"
      by (simp add: Cons_nth_drop_Suc [symmetric])
    then have "decimal (unat (n div 10)) @ drop (nat (i - 1 + 1)) ?b = decimal (unat n) @ drop (nat (i + 1)) buf"
      using pos by (simp add: decimal.simps [of "unat n"] unat_div ucast_digit)
    then show ?thesis
      using IH i False by (simp add: dec_loop.simps [of n i buf] word_gt_0)
  qed
qed

lemma takeWhile_decimal: "takeWhile (\<lambda>x. x \<noteq> 0) (decimal n @ [0]) = decimal n"
proof -
  have "\<forall>d \<in> set (decimal n). d \<noteq> 0"
    using decimal_digits [of _ n] by fastforce
  then show ?thesis
    by (simp add: takeWhile_append2)
qed

text \<open>The digits \<open>kprint_dec\<close> prints.\<close>

definition dec_digits :: "u32 \<Rightarrow> u8 list" where
  "dec_digits n = (if n = 0 then [0x30] else decimal (unat n))"

lemma kprint_dec_digits: "kprint_dec n = fold kprint_char (dec_digits n)"
proof
  fix c
  have "unat n < 10 ^ nat (9 + 1)"
    using unat_u32_less [of n] by simp
  then have "case dec_loop n 9 (replicate 11 0) of (i, buf) \<Rightarrow>
      drop (nat (i + 1)) buf = decimal (unat n) @ drop (nat (9 + 1)) (replicate 11 0)"
    by (rule dec_loop_ok) simp_all
  moreover have "drop 10 (replicate 11 (0 :: u8)) = [0]"
    by (simp add: numeral_eq_Suc)
  moreover have "(replicate 11 (0 :: u8))[10 := 0] = replicate 11 0"
    by (simp add: numeral_eq_Suc)
  ultimately show "kprint_dec n c = fold kprint_char (dec_digits n) c"
    by (cases "dec_loop n 9 (replicate 11 0)")
      (simp add: kprint_dec_def dec_digits_def Let_def kprint_arr_fold takeWhile_decimal)
qed

lemma dec_digits_props:
  "read_number 10 (dec_digits n) = Some (unat n)" "if n = 0 then dec_digits n = [0x30] else hd (dec_digits n) \<noteq> 0x30"
proof -
  have "weigh 10 (dec_digits n) = unat n"
    by (simp add: dec_digits_def weigh_decimal) (simp add: weigh_def digit_value_def)
  moreover have "digit_value d < 10" if "d \<in> set (dec_digits n)" for d
  proof -
    have "0x30 \<le> d" "d \<le> 0x39"
      using that decimal_digits [of d "unat n"] by (auto simp: dec_digits_def split: if_splits)
    then show ?thesis
      by (simp add: digit_value_def word_le_nat_alt)
  qed
  moreover have "dec_digits n \<noteq> []"
    by (simp add: dec_digits_def decimal.simps [of "unat n"] unat_eq_zero)
  ultimately show "read_number 10 (dec_digits n) = Some (unat n)"
    by (simp add: read_number_def list_all_iff)
  show "if n = 0 then dec_digits n = [0x30] else hd (dec_digits n) \<noteq> 0x30"
    using decimal_hd [of "unat n"] by (auto simp: dec_digits_def unat_gt_0)
qed

text \<open>Hexadecimal digits: the nibbles of the number.\<close>

definition hex_digits :: "u32 \<Rightarrow> u8 list" where
  "hex_digits n = map (hex_digit n) [28, 24, 20, 16, 12, 8, 4, 0]"

lemma length_hex_digits: "length (hex_digits n) = 8"
  by (simp add: hex_digits_def)

lemma nibble: "unat (drop_bit k n AND 0xF :: u32) = (unat n div 2 ^ k) mod 16"
proof -
  have "(drop_bit k n AND 0xF :: u32) = take_bit 4 (drop_bit k n)"
    using take_bit_eq_mask [of 4 "drop_bit k n"] by (simp add: mask_eq_exp_minus_1)
  then have "unat (drop_bit k n AND 0xF :: u32) = take_bit 4 (drop_bit k (unat n))"
    using unat_u32_less [of n] by (simp add: unsigned_take_bit_eq unsigned_drop_bit_eq take_bit_nat_eq_self)
  then show ?thesis
    by (simp only: take_bit_eq_mod drop_bit_eq_div) simp
qed

lemma digit_value_hex: "\<forall>k<16. digit_value (str ''0123456789abcdef'' ! k) = k"
proof -
  have "\<forall>k \<in> set [0..<16]. digit_value (str ''0123456789abcdef'' ! k) = k"
    by code_simp
  then show ?thesis
    by simp
qed

lemma digit_value_hex_digit: "digit_value (hex_digit n k) = (unat n div 2 ^ k) mod 16"
  using digit_value_hex by (simp add: hex_digit_def nibble)

lemma read_nibbles:
  "foldl (\<lambda>a d. 16 * a + digit_value d) a (map (\<lambda>j. hex_digit n (4 * j)) (rev [0..<m])) = a * 16 ^ m + unat n mod 16 ^ m"
proof (induction m arbitrary: a)
  case (Suc m)
  have "(2 :: nat) ^ (4 * m) = 16 ^ m"
    by (simp add: power_mult)
  then show ?case
    using mod_mult2_eq [of "unat n" "16 ^ m" 16] Suc [of "16 * a + unat n div 16 ^ m mod 16"]
    by (simp add: digit_value_hex_digit) (simp add: algebra_simps)
qed simp

lemma nth_hex_digits:
  "k < 8 \<Longrightarrow> hex_digits n ! k = str ''0123456789abcdef'' ! ((unat n div 16 ^ (7 - k)) mod 16)"
proof -
  have eq: "hex_digits n = map (\<lambda>j. hex_digit n (4 * j)) (rev [0..<8])"
    by (simp add: hex_digits_def upt_rec)
  assume "k < 8"
  moreover have "(2 :: nat) ^ (4 * (7 - k)) = 16 ^ (7 - k)"
    by (simp add: power_mult)
  ultimately show ?thesis
    by (simp add: eq rev_nth hex_digit_def nibble)
qed

lemma read_hex: "read_number 16 (hex_digits n) = Some (unat n)"
proof -
  have eq: "hex_digits n = map (\<lambda>j. hex_digit n (4 * j)) (rev [0..<8])"
    by (simp add: hex_digits_def upt_rec)
  then have "weigh 16 (hex_digits n) = unat n"
    using read_nibbles [of 0 n 8] unat_u32_less [of n] by (simp add: weigh_def)
  then show ?thesis
    by (simp add: eq read_number_def list_all_iff digit_value_hex_digit)
qed

lemma kprint_hex_digits: "kprint_hex n = fold kprint_char (str ''0x'' @ hex_digits n)"
  by (rule ext) (simp add: kprint_hex_def hex_digits_def kprint_lit_def kprint_arr_fold str_def)

text \<open>
  C33.  Printing a number loses nothing: \<open>kprint_dec\<close> prints decimal digits without a leading zero, and
  \<open>kprint_hex\<close> prints \<open>0x\<close> and the eight hexadecimal digits, the highest first; reading the digits gives the number back.
\<close>

theorem kprint_number_roundtrip:
  "\<exists>ds hs. (\<forall>c. kprint_dec n c = fold kprint_char ds c) \<and> (\<forall>c. kprint_hex n c = fold kprint_char (str ''0x'' @ hs) c) \<and>
     read_number 10 ds = Some (unat n) \<and> (if n = 0 then ds = [0x30] else hd ds \<noteq> 0x30) \<and>
     hs = map (\<lambda>k. str ''0123456789abcdef'' ! ((unat n div 16 ^ (7 - k)) mod 16)) [0..<8] \<and> read_number 16 hs = Some (unat n)"
proof (rule exI [of _ "dec_digits n"], rule exI [of _ "hex_digits n"], intro conjI)
  show "hex_digits n = map (\<lambda>k. str ''0123456789abcdef'' ! ((unat n div 16 ^ (7 - k)) mod 16)) [0..<8]"
    using nth_hex_digits by (intro nth_equalityI) (simp_all add: length_hex_digits)
qed (use dec_digits_props in \<open>simp_all only: kprint_dec_digits kprint_hex_digits read_hex simp_thms\<close>)

end
