(* ===== verification/Task.thy ===== *)
theory Task
  imports Memory
begin

text \<open>
  The task switcher, \<open>kernel/task.c\<close> with \<open>kernel/switch.asm\<close>, and the timer tick that drives it,
  \<open>kernel/timer.c\<close>.  A task is a stack and the stack pointer saved in its slot.  The registers
  \<open>context_switch\<close> saves are those of the record \<open>cpu\<close>, as they are when it is called: \<open>esp\<close> points at
  the return address.  The address of the static array \<open>stacks\<close> is a field of the state.
\<close>

definition MAX_TASKS :: nat where
  "MAX_TASKS = 8"

definition STACK_SIZE :: nat where
  "STACK_SIZE = 4096"

record task =
  t_esp :: u32
  t_active :: bool

record cpu =
  ebp :: u32
  ebx :: u32
  esi :: u32
  edi :: u32
  esp :: u32
  eip :: u32

record sched =
  tasks :: "nat \<Rightarrow> task"
  stacks :: u32
  num_tasks :: nat
  current :: nat
  preempt_enabled :: bool
  deadline :: u32
  tick :: u32
  regs :: cpu
  sram :: mem

text \<open>
  \<open>context_switch\<close>: push the four callee-saved registers, hand out the stack pointer, load the new one,
  pop the registers of the other task and return into it.
\<close>

definition context_switch :: "u32 \<Rightarrow> cpu \<times> mem \<Rightarrow> u32 \<times> cpu \<times> mem" where
  "context_switch new_esp = (\<lambda>(c, m).
     let m = store32 m (esp c - 4) (ebp c);
         m = store32 m (esp c - 8) (ebx c);
         m = store32 m (esp c - 12) (esi c);
         m = store32 m (esp c - 16) (edi c)
     in (esp c - 16,
         \<lparr>ebp = load32 m (new_esp + 12), ebx = load32 m (new_esp + 8), esi = load32 m (new_esp + 4),
          edi = load32 m new_esp, esp = new_esp + 20, eip = load32 m (new_esp + 16)\<rparr>, m))"

text \<open>The call \<open>context_switch(&tasks[prev].esp, tasks[next].esp)\<close>.\<close>

definition switch_tasks :: "nat \<Rightarrow> nat \<Rightarrow> sched \<Rightarrow> sched" where
  "switch_tasks prev nxt s =
     (case context_switch (t_esp (tasks s nxt)) (regs s, sram s) of (old_esp, c, m) \<Rightarrow>
        s\<lparr>tasks := (tasks s)(prev := tasks s prev\<lparr>t_esp := old_esp\<rparr>), regs := c, sram := m\<rparr>)"

definition task_create :: "u32 \<Rightarrow> sched \<Rightarrow> nat \<times> sched" where
  "task_create entry s =
     (let id = num_tasks s;
          sp = stacks s + of_nat (id * STACK_SIZE) + of_nat STACK_SIZE;
          m = store32 (sram s) (sp - 4) entry;
          m = store32 m (sp - 8) 0;
          m = store32 m (sp - 12) 0;
          m = store32 m (sp - 16) 0;
          m = store32 m (sp - 20) 0
      in (id, s\<lparr>num_tasks := num_tasks s + 1, sram := m,
               tasks := (tasks s)(id := \<lparr>t_esp = sp - 20, t_active = True\<rparr>)\<rparr>))"

text \<open>The search of \<open>task_yield\<close> for another worker.\<close>

fun yield_search :: "(nat \<Rightarrow> bool) \<Rightarrow> nat \<Rightarrow> nat \<Rightarrow> nat list \<Rightarrow> nat option" where
  "yield_search active n prev [] = None"
| "yield_search active n prev (off # offs) =
     (let cand = (prev + off) mod n
      in if cand = 0 then yield_search active n prev offs
         else if active cand then Some cand
         else yield_search active n prev offs)"

definition yield_target :: "(nat \<Rightarrow> bool) \<Rightarrow> nat \<Rightarrow> nat \<Rightarrow> nat option" where
  "yield_target active n prev =
     (case yield_search active n prev [1..<n] of
        Some cand \<Rightarrow> Some cand
      | None \<Rightarrow> if prev \<noteq> 0 \<and> \<not> active prev then Some 0 else None)"

definition task_yield :: "sched \<Rightarrow> sched" where
  "task_yield s =
     (let prev = current s
      in case yield_target (\<lambda>i. t_active (tasks s i)) (num_tasks s) prev of
           Some cand \<Rightarrow> switch_tasks prev cand (s\<lparr>current := cand\<rparr>)
         | None \<Rightarrow> s)"

text \<open>\<open>task_exit\<close> up to the switch; it does not come back.\<close>

definition task_exit :: "sched \<Rightarrow> sched" where
  "task_exit s =
     task_yield (s\<lparr>tasks := (tasks s)(current s := tasks s (current s)\<lparr>t_active := False\<rparr>)\<rparr>)"

definition preempt_tick :: "sched \<Rightarrow> sched" where
  "preempt_tick s =
     (if \<not> preempt_enabled s then s
      else if deadline s \<le> tick s then
        let s = s\<lparr>preempt_enabled := False\<rparr>;
            s = fold (\<lambda>i s. s\<lparr>tasks := (tasks s)(i := tasks s i\<lparr>t_active := False\<rparr>)\<rparr>) [1..<num_tasks s] s;
            prev = current s
        in if prev \<noteq> 0 then switch_tasks prev 0 (s\<lparr>current := 0\<rparr>) else s
      else task_yield s)"

definition timer_callback :: "sched \<Rightarrow> sched" where
  "timer_callback s = preempt_tick (s\<lparr>tick := tick s + 1\<rparr>)"

definition timer_ticks :: "sched \<Rightarrow> u32" where
  "timer_ticks s = tick s"

text \<open>Task 0 becomes the scheduler and the table is empty.\<close>

definition reset_tasks :: "sched \<Rightarrow> sched" where
  "reset_tasks s =
     s\<lparr>tasks := (tasks s)(0 := \<lparr>t_esp = 0, t_active = False\<rparr>), num_tasks := 1, current := 0\<rparr>"

text \<open>The start of \<open>preempt_demo\<close>, up to the wait for the deadline.\<close>

definition preempt_start :: "u32 \<Rightarrow> u32 \<Rightarrow> sched \<Rightarrow> sched" where
  "preempt_start pworker_a pworker_b s =
     (let s = reset_tasks s;
          s = snd (task_create pworker_a s);
          s = snd (task_create pworker_b s)
      in s\<lparr>deadline := timer_ticks s + 100, preempt_enabled := True\<rparr>)"

section \<open>The round robin\<close>

lemma yield_search_Some:
  "yield_search active n prev offs = Some c \<Longrightarrow>
   \<exists>xs off ys. offs = xs @ off # ys \<and> c = (prev + off) mod n \<and> c \<noteq> 0 \<and> active c \<and>
     (\<forall>o' \<in> set xs. (prev + o') mod n = 0 \<or> \<not> active ((prev + o') mod n))"
proof (induction offs)
  case (Cons off offs)
  show ?case
  proof (cases "(prev + off) mod n = 0 \<or> \<not> active ((prev + off) mod n)")
    case True
    then have "yield_search active n prev offs = Some c"
      using Cons(2) by (auto simp: Let_def split: if_splits)
    from Cons(1) [OF this] obtain xs o' ys where "offs = xs @ o' # ys" "c = (prev + o') mod n" "c \<noteq> 0" "active c"
      "\<forall>o' \<in> set xs. (prev + o') mod n = 0 \<or> \<not> active ((prev + o') mod n)"
      by blast
    then show ?thesis
      using True by (intro exI [of _ "off # xs"]) auto
  next
    case False
    then show ?thesis
      using Cons(2) by (intro exI [of _ "[]"]) (auto simp: Let_def)
  qed
qed simp

lemma yield_search_None:
  "yield_search active n prev offs = None \<longleftrightarrow>
   (\<forall>off \<in> set offs. (prev + off) mod n = 0 \<or> \<not> active ((prev + off) mod n))"
  by (induction offs) (auto simp: Let_def)

text \<open>How far a task is ahead of another in the rotation.\<close>

definition ahead :: "nat \<Rightarrow> nat \<Rightarrow> nat \<Rightarrow> nat" where
  "ahead n i j = (j + n - i) mod n"

lemma ahead_lt: "i < n \<Longrightarrow> ahead n i j < n"
  by (simp add: ahead_def)

lemma ahead_eq: "i < n \<Longrightarrow> j < n \<Longrightarrow> ahead n i j = (if i \<le> j then j - i else j + n - i)"
  by (auto simp: ahead_def mod_if)

lemma ahead_add: "i < n \<Longrightarrow> j < n \<Longrightarrow> (i + ahead n i j) mod n = j"
  by (auto simp: ahead_eq)

lemma ahead_offset: "i < n \<Longrightarrow> off < n \<Longrightarrow> ahead n i ((i + off) mod n) = off"
  by (auto simp: ahead_eq mod_if)

lemma ahead_pos: "i < n \<Longrightarrow> j < n \<Longrightarrow> ahead n i j = 0 \<longleftrightarrow> i = j"
  by (auto simp: ahead_eq)

text \<open>\<open>yield_target\<close> picks the nearest active worker ahead.\<close>

lemma upt_split: "[1..<n] = xs @ off # ys \<Longrightarrow> off < n \<and> 1 \<le> off \<and> (\<forall>k. 1 \<le> k \<and> k < off \<longrightarrow> k \<in> set xs)"
proof -
  assume a: "[1..<n] = xs @ off # ys"
  have len: "length xs < n - 1"
    using arg_cong [OF a, of length] by simp
  have "off = [1..<n] ! length xs"
    unfolding a by simp
  then have off: "off = 1 + length xs"
    using len by simp
  have "k \<in> set xs" if "1 \<le> k" "k < off" for k
  proof -
    have "k = ([1..<n]) ! (k - 1)"
      using that off len by simp
    also have "\<dots> = xs ! (k - 1)"
      unfolding a using that off by (auto simp: nth_append)
    finally show ?thesis
      using that off nth_mem [of "k - 1" xs] by simp
  qed
  then show ?thesis
    using off len by auto
qed

lemma yield_target_worker:
  assumes "prev < n" "yield_target active n prev = Some c" "c \<noteq> 0"
  shows "c < n" "c \<noteq> prev" "active c"
    "\<And>w. 0 < w \<Longrightarrow> w < n \<Longrightarrow> w \<noteq> prev \<Longrightarrow> active w \<Longrightarrow> ahead n prev c \<le> ahead n prev w"
proof -
  have "yield_search active n prev [1..<n] = Some c"
    using assms(2,3) by (auto simp: yield_target_def split: option.splits if_splits)
  from yield_search_Some [OF this] obtain xs off ys where o: "[1..<n] = xs @ off # ys" "c = (prev + off) mod n" "active c"
    "\<forall>o' \<in> set xs. (prev + o') mod n = 0 \<or> \<not> active ((prev + o') mod n)"
    by blast
  note u = upt_split [OF o(1)]
  have d: "ahead n prev c = off"
    using u assms(1) by (simp add: o(2) ahead_offset)
  show c: "c < n"
    using assms(1) by (simp add: o(2))
  show "c \<noteq> prev"
    using d u ahead_pos [OF assms(1) c] by auto
  show "active c"
    by (rule o(3))
  fix w assume w: "0 < w" "w < n" "w \<noteq> prev" "active w"
  have "\<not> ahead n prev w < off"
  proof
    assume "ahead n prev w < off"
    then have "ahead n prev w \<in> set xs"
      using u ahead_pos [OF assms(1) w(2)] w(3) by (metis One_nat_def Suc_leI neq0_conv)
    then show False
      using o(4) ahead_add [OF assms(1) w(2)] w by auto
  qed
  then show "ahead n prev c \<le> ahead n prev w"
    using d by simp
qed

lemma yield_target_none:
  assumes "prev < n" "yield_target active n prev = None \<or> yield_target active n prev = Some 0"
    "0 < w" "w < n" "w \<noteq> prev"
  shows "\<not> active w"
proof
  assume "active w"
  have "ahead n prev w \<in> set [1..<n]"
    using ahead_pos [OF assms(1,4)] assms(5) ahead_lt [OF assms(1), of w] by auto
  moreover have "yield_search active n prev [1..<n] = None"
    using assms(2) yield_search_Some [of active n prev "[1..<n]"] by (auto simp: yield_target_def split: option.splits)
  ultimately have "(prev + ahead n prev w) mod n = 0 \<or> \<not> active ((prev + ahead n prev w) mod n)"
    unfolding yield_search_None by blast
  then show False
    using \<open>active w\<close> ahead_add [OF assms(1,4)] assms(3) by simp
qed

lemma yield_target_back: "yield_target active n prev = Some 0 \<Longrightarrow> prev \<noteq> 0 \<and> \<not> active prev"
  using yield_search_Some [of active n prev "[1..<n]" 0]
  by (auto simp: yield_target_def split: option.splits if_splits)

text \<open>Switching changes neither which tasks exist nor which want to run.\<close>

lemma switch_tasks_frame [simp]:
  "t_active (tasks (switch_tasks p q s) i) = t_active (tasks s i)" "num_tasks (switch_tasks p q s) = num_tasks s"
  "current (switch_tasks p q s) = current s" "stacks (switch_tasks p q s) = stacks s" "tick (switch_tasks p q s) = tick s"
  "deadline (switch_tasks p q s) = deadline s" "preempt_enabled (switch_tasks p q s) = preempt_enabled s"
  by (auto simp: switch_tasks_def split: prod.splits)

lemma task_yield_frame [simp]:
  "t_active (tasks (task_yield s) i) = t_active (tasks s i)" "num_tasks (task_yield s) = num_tasks s"
  "stacks (task_yield s) = stacks s" "tick (task_yield s) = tick s"
  "deadline (task_yield s) = deadline s" "preempt_enabled (task_yield s) = preempt_enabled s"
  by (auto simp: task_yield_def Let_def split: option.splits)

lemma current_task_yield:
  "current (task_yield s) =
     (case yield_target (\<lambda>i. t_active (tasks s i)) (num_tasks s) (current s) of Some c \<Rightarrow> c | None \<Rightarrow> current s)"
  by (auto simp: task_yield_def Let_def split: option.splits)

abbreviation wants :: "sched \<Rightarrow> nat \<Rightarrow> bool" where
  "wants s i \<equiv> t_active (tasks s i)"

text \<open>One yield brings a waiting worker to the CPU or closer to it.\<close>

lemma ahead_closer:
  assumes "i < n" "j < n" "w < n" "i \<noteq> j" "ahead n i j \<le> ahead n i w"
  shows "ahead n j w < ahead n i w"
  using assms by (auto simp: ahead_eq split: if_splits)

lemma task_yield_progress:
  assumes "current s < num_tasks s" "0 < w" "w < num_tasks s" "wants s w" "w \<noteq> current s"
  shows "current (task_yield s) < num_tasks s"
    "ahead (num_tasks s) (current (task_yield s)) w < ahead (num_tasks s) (current s) w"
proof -
  obtain c where c: "yield_target (wants s) (num_tasks s) (current s) = Some c" "c \<noteq> 0"
    using yield_target_none [OF assms(1) _ assms(2,3,5)] assms(4)
    by (cases "yield_target (wants s) (num_tasks s) (current s)") auto
  note y = yield_target_worker [OF assms(1) c]
  show "current (task_yield s) < num_tasks s"
    using y(1) by (simp add: current_task_yield c)
  show "ahead (num_tasks s) (current (task_yield s)) w < ahead (num_tasks s) (current s) w"
    using ahead_closer [OF assms(1) y(1) assms(3)] y(2) y(4) [OF assms(2,3,5,4)]
    by (simp add: current_task_yield c)
qed

lemma task_yield_reaches:
  "current s < num_tasks s \<Longrightarrow> 0 < w \<Longrightarrow> w < num_tasks s \<Longrightarrow> wants s w \<Longrightarrow>
   \<exists>k \<le> ahead (num_tasks s) (current s) w. current ((task_yield ^^ k) s) = w"
proof (induction "ahead (num_tasks s) (current s) w" arbitrary: s rule: less_induct)
  case less
  show ?case
  proof (cases "w = current s")
    case False
    note p = task_yield_progress [OF less(2-5) False]
    obtain k where k: "k \<le> ahead (num_tasks s) (current (task_yield s)) w" "current ((task_yield ^^ k) (task_yield s)) = w"
      using less(1) [of "task_yield s"] p less(3-5) by auto
    show ?thesis
      using k p(2) by (intro exI [of _ "Suc k"]) (auto simp: funpow_swap1)
  qed auto
qed

lemma task_yield_choice:
  assumes "current s < num_tasks s"
  defines "c \<equiv> current (task_yield s)" and "workers \<equiv> {w. 0 < w \<and> w < num_tasks s \<and> wants s w}"
  shows "if workers - {current s} \<noteq> {} then c \<in> workers - {current s}
    else c = (if current s \<in> workers \<or> current s = 0 then current s else 0)"
proof -
  let ?t = "yield_target (wants s) (num_tasks s) (current s)"
  consider (worker) d where "?t = Some d" "d \<noteq> 0" | (zero) "?t = Some 0" | (kept) "?t = None"
    by (cases ?t) auto
  then show ?thesis
  proof cases
    case worker
    then show ?thesis
      using yield_target_worker [OF assms(1) worker] by (auto simp: c_def workers_def current_task_yield)
  next
    case zero
    then have "workers - {current s} = {}" "current s \<notin> workers" "current s \<noteq> 0"
      using yield_target_none [OF assms(1)] yield_target_back [OF zero] by (auto simp: workers_def)
    then show ?thesis
      using zero by (simp add: c_def current_task_yield)
  next
    case kept
    then have "workers - {current s} = {}"
      using yield_target_none [OF assms(1)] by (auto simp: workers_def)
    moreover have "current s \<in> workers \<or> current s = 0"
      using kept assms(1) by (auto simp: workers_def yield_target_def split: option.splits if_splits)
    ultimately show ?thesis
      using kept by (simp add: c_def current_task_yield)
  qed
qed

text \<open>
  C27.  The scheduler starves nobody: as long as the set of active workers does not change, every active
  worker gets the CPU within one round of yields, fewer than there are tasks.  And it never wakes a worker that has
  exited: while another worker is active, a yield switches to one of those; otherwise a worker that is still active, and
  the scheduler itself, keeps the CPU, and a worker that has exited gives it back to task 0.
\<close>

theorem task_yield_fair:
  assumes "current s < num_tasks s"
  shows "(\<forall>w. 0 < w \<and> w < num_tasks s \<and> t_active (tasks s w) \<longrightarrow> (\<exists>k < num_tasks s. current ((task_yield ^^ k) s) = w)) \<and>
    (let workers = {w. 0 < w \<and> w < num_tasks s \<and> t_active (tasks s w)}
     in if workers - {current s} \<noteq> {} then current (task_yield s) \<in> workers - {current s}
        else current (task_yield s) = (if current s \<in> workers \<or> current s = 0 then current s else 0))"
proof (intro conjI allI impI)
  fix w
  assume "0 < w \<and> w < num_tasks s \<and> wants s w"
  then obtain k where "k \<le> ahead (num_tasks s) (current s) w" "current ((task_yield ^^ k) s) = w"
    using task_yield_reaches [OF assms] by blast
  then show "\<exists>k < num_tasks s. current ((task_yield ^^ k) s) = w"
    using ahead_lt [OF assms(1), of w] by (intro exI [of _ k]) simp
qed (use task_yield_choice [OF assms] in \<open>simp only: Let_def\<close>)

definition three_workers :: sched where
  "three_workers =
     (let s = reset_tasks \<lparr>tasks = \<lambda>_. \<lparr>t_esp = 0, t_active = False\<rparr>, stacks = 0x20000, num_tasks = 0, current = 0,
        preempt_enabled = False, deadline = 0, tick = 0,
        regs = \<lparr>ebp = 1, ebx = 2, esi = 3, edi = 4, esp = 0x90000, eip = 0\<rparr>, sram = \<lambda>_. 0\<rparr>;
          s = snd (task_create 0x1000 s); s = snd (task_create 0x2000 s)
      in snd (task_create 0x3000 s))"

lemma three_workers_tasks:
  "num_tasks three_workers = 4" "current three_workers = 0" "t_active (tasks three_workers i) \<longleftrightarrow> i \<in> {1, 2, 3}"
  by (auto simp: three_workers_def reset_tasks_def task_create_def Let_def)

theorem task_yield_fair_witness:
  "(\<exists>k < 4. current ((task_yield ^^ k) three_workers) = 3) \<and> current (task_yield three_workers) \<in> {1, 2, 3}"
proof -
  have "{w. 0 < w \<and> w < 4 \<and> t_active (tasks three_workers w)} = {1, 2, 3}"
    by (auto simp: three_workers_tasks)
  then show ?thesis
    using task_yield_fair [of three_workers] by (auto simp: three_workers_tasks Let_def)
qed

section \<open>Stacks and saved registers\<close>

text \<open>The registers a task resumes with when its stack pointer is \<open>p\<close>.\<close>

definition saved :: "mem \<Rightarrow> u32 \<Rightarrow> cpu" where
  "saved m p = \<lparr>ebp = load32 m (p + 12), ebx = load32 m (p + 8), esi = load32 m (p + 4), edi = load32 m p,
     esp = p + 20, eip = load32 m (p + 16)\<rparr>"

definition resume :: "sched \<Rightarrow> nat \<Rightarrow> cpu" where
  "resume s i = saved (sram s) (t_esp (tasks s i))"

text \<open>What the running task expects to find when \<open>context_switch\<close> returns to it.\<close>

definition calling :: "sched \<Rightarrow> cpu" where
  "calling s = regs s\<lparr>esp := esp (regs s) + 4, eip := load32 (sram s) (esp (regs s))\<rparr>"

text \<open>The stack of a worker is its row of \<open>stacks\<close>; task 0 runs on the kernel's own stack \<open>B\<close>, elsewhere.\<close>

definition area :: "u32 set \<Rightarrow> sched \<Rightarrow> nat \<Rightarrow> u32 set" where
  "area B s i =
     (if i = 0 then B
      else {x. unat (stacks s) + i * 4096 \<le> unat x \<and> unat x < unat (stacks s) + i * 4096 + 4096})"

definition outside_stacks :: "u32 set \<Rightarrow> u32 \<Rightarrow> bool" where
  "outside_stacks B st \<longleftrightarrow> (\<forall>x \<in> B. unat x < unat st \<or> unat st + 32768 \<le> unat x)"

lemma area_disjoint: "outside_stacks B (stacks s) \<Longrightarrow> i \<noteq> j \<Longrightarrow> i < 8 \<Longrightarrow> j < 8 \<Longrightarrow> area B s i \<inter> area B s j = {}"
  by (auto simp: area_def outside_stacks_def split: if_splits)

lemma saved_cong: "(\<And>x. x \<in> footprint p 20 \<Longrightarrow> m' x = m x) \<Longrightarrow> saved m' p = saved m p"
proof -
  assume eq: "\<And>x. x \<in> footprint p 20 \<Longrightarrow> m' x = m x"
  have "load32 m' (p + b) = load32 m (p + b)" if "unat b + 4 \<le> 20" for b
    by (rule load32_cong) (use eq footprint_sub [OF that, of p] in auto)
  from this [of 0] this [of 4] this [of 8] this [of 12] this [of 16] show ?thesis
    by (simp add: saved_def)
qed

text \<open>The frame \<open>context_switch\<close> pushes.\<close>

definition pushed_frame :: "cpu \<Rightarrow> mem \<Rightarrow> mem" where
  "pushed_frame c m = store32 (store32 (store32 (store32 m (esp c - 4) (ebp c)) (esp c - 8) (ebx c)) (esp c - 12) (esi c))
     (esp c - 16) (edi c)"

lemma context_switch_saved: "context_switch q (c, m) = (esp c - 16, saved (pushed_frame c m) q, pushed_frame c m)"
  by (simp add: context_switch_def pushed_frame_def saved_def Let_def)

lemma words_apart:
  "footprint (a + 4) 4 \<inter> footprint (a :: u32) 4 = {}" "footprint (a + 8) 4 \<inter> footprint a 4 = {}"
  "footprint (a + 12) 4 \<inter> footprint a 4 = {}" "footprint (a + 16) 4 \<inter> footprint a 4 = {}"
  by (rule footprint_apart; simp)+

lemma load_pushed:
  fixes a :: u32
  shows "load32 (store32 (store32 (store32 (store32 m (a + 12) v1) (a + 8) v2) (a + 4) v3) a v4) a = v4"
    "load32 (store32 (store32 (store32 (store32 m (a + 12) v1) (a + 8) v2) (a + 4) v3) a v4) (a + 4) = v3"
    "load32 (store32 (store32 (store32 (store32 m (a + 12) v1) (a + 8) v2) (a + 4) v3) a v4) (a + 8) = v2"
    "load32 (store32 (store32 (store32 (store32 m (a + 12) v1) (a + 8) v2) (a + 4) v3) a v4) (a + 12) = v1"
    "load32 (store32 (store32 (store32 (store32 m (a + 12) v1) (a + 8) v2) (a + 4) v3) a v4) (a + 16) = load32 m (a + 16)"
  using words_apart [of a] words_apart [of "a + 4"] words_apart [of "a + 8"] words_apart [of "a + 12"]
  by (simp_all add: load32_store32_disjoint Int_commute add.assoc)

lemma saved_pushed: "saved (pushed_frame c m) (esp c - 16) = c\<lparr>esp := esp c + 4, eip := load32 m (esp c)\<rparr>"
proof -
  have a: "esp c - 4 = (esp c - 16) + 12" "esp c - 8 = (esp c - 16) + 8" "esp c - 12 = (esp c - 16) + 4"
    "esp c = (esp c - 16) + 16"
    by simp_all
  have "pushed_frame c m = store32 (store32 (store32 (store32 m ((esp c - 16) + 12) (ebp c)) ((esp c - 16) + 8) (ebx c))
      ((esp c - 16) + 4) (esi c)) (esp c - 16) (edi c)"
    by (simp add: pushed_frame_def)
  then show ?thesis
    using load_pushed [where a = "esp c - 16"] by (simp add: saved_def)
qed

lemma pushed_frame_outside: "x \<notin> footprint (esp c - 16) 20 \<Longrightarrow> pushed_frame c m x = m x"
proof -
  assume x: "x \<notin> footprint (esp c - 16) 20"
  have "x \<notin> footprint (esp c - 16 + b) 4" if "unat b + 4 \<le> 20" for b
    using x footprint_sub [OF that, of "esp c - 16"] by blast
  from this [of 0] this [of 4] this [of 8] this [of 12] show ?thesis
    by (simp add: pushed_frame_def store32_outside)
qed

section \<open>Every task finds its registers again\<close>

definition frame_ok :: "u32 set \<Rightarrow> sched \<Rightarrow> nat \<Rightarrow> bool" where
  "frame_ok B s i \<longleftrightarrow> footprint (t_esp (tasks s i)) 20 \<subseteq> area B s i"

text \<open>The running task may call \<open>context_switch\<close>: there is room for the frame on its own stack.\<close>

definition may_switch :: "u32 set \<Rightarrow> sched \<Rightarrow> bool" where
  "may_switch B s \<longleftrightarrow> footprint (esp (regs s) - 16) 20 \<subseteq> area B s (current s)"

definition sched_ok :: "u32 set \<Rightarrow> sched \<Rightarrow> bool" where
  "sched_ok B s \<longleftrightarrow> num_tasks s \<le> 8 \<and> current s < num_tasks s \<and> unat (stacks s) + 32768 \<le> 4294967296 \<and> outside_stacks B (stacks s) \<and>
     (\<forall>i < num_tasks s. i \<noteq> current s \<longrightarrow> frame_ok B s i)"

lemma area_upd [simp]:
  "area B (s\<lparr>current := c\<rparr>) i = area B s i" "area B (s\<lparr>tasks := t\<rparr>) i = area B s i" "area B (s\<lparr>regs := r\<rparr>) i = area B s i"
  "area B (s\<lparr>regs := r, sram := m\<rparr>) i = area B s i" "area B (s\<lparr>preempt_enabled := b\<rparr>) i = area B s i"
  "area B (switch_tasks p q s) i = area B s i" "area B (task_yield s) i = area B s i"
  by (auto simp: area_def)

lemma switch_tasks_eq:
  "switch_tasks p q s = s\<lparr>tasks := (tasks s)(p := tasks s p\<lparr>t_esp := esp (regs s) - 16\<rparr>),
     regs := saved (pushed_frame (regs s) (sram s)) (t_esp (tasks s q)), sram := pushed_frame (regs s) (sram s)\<rparr>"
  by (simp add: switch_tasks_def context_switch_saved)

lemma saved_other:
  assumes "may_switch B s" "frame_ok B s i" "i \<noteq> current s" "i < 8" "current s < 8" "outside_stacks B (stacks s)"
  shows "saved (pushed_frame (regs s) (sram s)) (t_esp (tasks s i)) = resume s i"
  unfolding resume_def
proof (rule saved_cong)
  fix x assume "x \<in> footprint (t_esp (tasks s i)) 20"
  then have "x \<in> area B s i"
    using assms(2) by (auto simp: frame_ok_def)
  then have "x \<notin> footprint (esp (regs s) - 16) 20"
    using assms(1) area_disjoint [OF assms(6,3-5)] by (auto simp: may_switch_def)
  then show "pushed_frame (regs s) (sram s) x = sram s x"
    by (rule pushed_frame_outside)
qed

lemma switch_tasks_ok:
  assumes ok: "sched_ok B s" and may: "may_switch B s" and q: "q < num_tasks s" "q \<noteq> current s"
  defines "s' \<equiv> switch_tasks (current s) q (s\<lparr>current := q\<rparr>)"
  shows "sched_ok B s'" "regs s' = resume s q" "resume s' (current s) = calling s"
    "\<And>i. i < num_tasks s \<Longrightarrow> i \<noteq> current s \<Longrightarrow> i \<noteq> q \<Longrightarrow> resume s' i = resume s i"
proof -
  have n: "num_tasks s \<le> 8" "current s < num_tasks s" "unat (stacks s) + 32768 \<le> 4294967296" "outside_stacks B (stacks s)"
    and fr: "\<And>i. i < num_tasks s \<Longrightarrow> i \<noteq> current s \<Longrightarrow> frame_ok B s i"
    using ok by (auto simp: sched_ok_def)
  have eq: "s' = s\<lparr>current := q, tasks := (tasks s)(current s := tasks s (current s)\<lparr>t_esp := esp (regs s) - 16\<rparr>),
     regs := saved (pushed_frame (regs s) (sram s)) (t_esp (tasks s q)), sram := pushed_frame (regs s) (sram s)\<rparr>"
    by (simp add: s'_def switch_tasks_eq)
  show "regs s' = resume s q"
    using saved_other [OF may fr [OF q] q(2)] q(1) n by (simp add: eq)
  show "resume s' (current s) = calling s"
    by (simp add: resume_def eq saved_pushed calling_def)
  show "resume s' i = resume s i" if "i < num_tasks s" "i \<noteq> current s" "i \<noteq> q" for i
  proof -
    have "resume s' i = saved (pushed_frame (regs s) (sram s)) (t_esp (tasks s i))"
      using that(2) by (simp add: resume_def eq)
    then show ?thesis
      using saved_other [OF may fr [OF that(1,2)] that(2)] that(1) n by simp
  qed
  have "frame_ok B s' i" if "i < num_tasks s" "i \<noteq> q" for i
    using that fr [of i] may by (cases "i = current s") (auto simp: frame_ok_def may_switch_def eq area_def)
  then show "sched_ok B s'"
    using n q by (auto simp: sched_ok_def eq)
qed

text \<open>
  The life of the task system: tasks are created, the running task works (it changes its registers and
  any memory but the stacks of the others), yields, exits, arms the timer or is interrupted by it.  \<open>G\<close> records
  for every task the registers with which it left the CPU, or with which it was created.
\<close>

definition stack_top :: "sched \<Rightarrow> nat \<Rightarrow> u32" where
  "stack_top s i = stacks s + of_nat (i * 4096) + 4096"

inductive sched_run :: "u32 set \<Rightarrow> (nat \<Rightarrow> cpu) \<Rightarrow> sched \<Rightarrow> bool" for B where
  start: "unat (stacks s) + 32768 \<le> 4294967296 \<Longrightarrow> outside_stacks B (stacks s) \<Longrightarrow> sched_run B G (reset_tasks s)"
| create: "sched_run B G s \<Longrightarrow> num_tasks s < 8 \<Longrightarrow>
    sched_run B (G(num_tasks s := \<lparr>ebp = 0, ebx = 0, esi = 0, edi = 0, esp = stack_top s (num_tasks s), eip = entry\<rparr>))
      (snd (task_create entry s))"
| work: "sched_run B G s \<Longrightarrow> (\<forall>i < num_tasks s. i \<noteq> current s \<longrightarrow> (\<forall>x \<in> area B s i. m x = sram s x)) \<Longrightarrow>
    sched_run B G (s\<lparr>regs := c, sram := m\<rparr>)"
| arm: "sched_run B G s \<Longrightarrow> sched_run B G (s\<lparr>deadline := n, preempt_enabled := True\<rparr>)"
| yield: "sched_run B G s \<Longrightarrow> may_switch B s \<Longrightarrow> sched_run B (G(current s := calling s)) (task_yield s)"
| exit: "sched_run B G s \<Longrightarrow> may_switch B s \<Longrightarrow> sched_run B (G(current s := calling s)) (task_exit s)"
| timer: "sched_run B G s \<Longrightarrow> may_switch B s \<Longrightarrow> sched_run B (G(current s := calling s)) (timer_callback s)"

definition all_saved :: "u32 set \<Rightarrow> (nat \<Rightarrow> cpu) \<Rightarrow> sched \<Rightarrow> bool" where
  "all_saved B G s \<longleftrightarrow> sched_ok B s \<and> (\<forall>i < num_tasks s. i \<noteq> current s \<longrightarrow> resume s i = G i)"

text \<open>A step that switches from the running task, or does not switch at all.\<close>

lemma all_saved_switch:
  assumes "all_saved B G s" "may_switch B s" "q < num_tasks s" "q \<noteq> current s"
  shows "all_saved B (G(current s := calling s)) (switch_tasks (current s) q (s\<lparr>current := q\<rparr>))"
proof -
  have ok: "sched_ok B s"
    using assms(1) by (simp add: all_saved_def)
  note sw = switch_tasks_ok [OF ok assms(2-4)]
  show ?thesis
    using sw assms(1) by (simp add: all_saved_def)
qed

lemma all_saved_stay: "all_saved B G s \<Longrightarrow> all_saved B (G(current s := c)) s"
  by (simp add: all_saved_def)

lemma yield_target_range:
  assumes "prev < n" "yield_target active n prev = Some c"
  shows "c < n" "c \<noteq> prev"
  using yield_target_worker(1,2) [OF assms] yield_target_back [of active n prev] assms by (cases "c = 0"; auto)+

lemma all_saved_yield:
  assumes "all_saved B G s" "may_switch B s"
  shows "all_saved B (G(current s := calling s)) (task_yield s)"
proof (cases "yield_target (wants s) (num_tasks s) (current s)")
  case None
  then show ?thesis
    using all_saved_stay [OF assms(1)] by (simp add: task_yield_def)
next
  case (Some c)
  have "current s < num_tasks s"
    using assms(1) by (simp add: all_saved_def sched_ok_def)
  then show ?thesis
    using all_saved_switch [OF assms] yield_target_range [OF _ Some] Some by (simp add: task_yield_def)
qed

text \<open>Clearing an \<open>active\<close> flag or moving the clock does not touch any stack.\<close>

lemma all_saved_flags:
  assumes "\<And>i. t_esp (tasks s' i) = t_esp (tasks s i)" "stacks s' = stacks s" "num_tasks s' = num_tasks s"
    "current s' = current s" "sram s' = sram s" "regs s' = regs s"
  shows "all_saved B G s' = all_saved B G s" "may_switch B s' = may_switch B s" "calling s' = calling s"
  using assms by (simp_all add: all_saved_def sched_ok_def frame_ok_def resume_def may_switch_def area_def calling_def)

lemma all_saved_exit:
  assumes "all_saved B G s" "may_switch B s"
  shows "all_saved B (G(current s := calling s)) (task_exit s)"
proof -
  let ?s = "s\<lparr>tasks := (tasks s)(current s := tasks s (current s)\<lparr>t_active := False\<rparr>)\<rparr>"
  have f: "all_saved B G ?s = all_saved B G s" "may_switch B ?s = may_switch B s" "calling ?s = calling s"
    by (rule all_saved_flags; simp)+
  show ?thesis
    using all_saved_yield [of B G ?s] assms f by (simp add: task_exit_def)
qed

lemma deactivate_fold:
  fixes s :: sched
  defines "f \<equiv> \<lambda>i (s :: sched). s\<lparr>tasks := (tasks s)(i := tasks s i\<lparr>t_active := False\<rparr>)\<rparr>"
  shows "fold f is s = s\<lparr>tasks := (\<lambda>i. if i \<in> set is then tasks s i\<lparr>t_active := False\<rparr> else tasks s i)\<rparr>"
  by (induction "is" arbitrary: s) (auto simp: f_def fun_eq_iff)

lemma all_saved_timer:
  assumes "all_saved B G s" "may_switch B s"
  shows "all_saved B (G(current s := calling s)) (timer_callback s)"
proof -
  define t where "t = s\<lparr>tick := tick s + 1\<rparr>"
  define d where "d = fold (\<lambda>i s. s\<lparr>tasks := (tasks s)(i := tasks s i\<lparr>t_active := False\<rparr>)\<rparr>) [1..<num_tasks s]
    (t\<lparr>preempt_enabled := False\<rparr>)"
  have t0: "t_esp (tasks t i) = t_esp (tasks s i)" "stacks t = stacks s" "num_tasks t = num_tasks s" "current t = current s"
    "sram t = sram s" "regs t = regs s" for i
    by (simp_all add: t_def)
  have d0: "t_esp (tasks d i) = t_esp (tasks s i)" "stacks d = stacks s" "num_tasks d = num_tasks s" "current d = current s"
    "sram d = sram s" "regs d = regs s" for i
    by (simp_all add: d_def t_def deactivate_fold)
  have t: "all_saved B G t" "may_switch B t" "calling t = calling s" "current t = current s"
    using assms all_saved_flags [OF t0] t0(4) by simp_all
  have d: "all_saved B G d" "may_switch B d" "calling d = calling s" "current d = current s" "num_tasks d = num_tasks s"
    using assms all_saved_flags [OF d0] d0(3,4) by simp_all
  have eq: "timer_callback s = (if \<not> preempt_enabled s then t else if deadline s \<le> tick s + 1 then
      (if current s \<noteq> 0 then switch_tasks (current s) 0 (d\<lparr>current := 0\<rparr>) else d) else task_yield t)"
    using d(4) unfolding timer_callback_def preempt_tick_def Let_def by (simp add: t_def d_def)
  have "all_saved B (G(current s := calling s)) (switch_tasks (current s) 0 (d\<lparr>current := 0\<rparr>))" if "current s \<noteq> 0"
    using all_saved_switch [OF d(1,2), of 0] that d assms(1) by (auto simp: all_saved_def sched_ok_def)
  moreover have "all_saved B (G(current s := calling s)) (task_yield t)"
    using all_saved_yield [OF t(1,2)] t by simp
  ultimately show ?thesis
    using all_saved_stay [OF t(1), of "calling s"] all_saved_stay [OF d(1), of "calling s"] t(4) d(4)
    unfolding eq by (auto split: if_splits)
qed

lemma unat_stack:
  assumes "unat (stacks s) + 32768 \<le> 4294967296" "i < 8"
  shows "footprint (stack_top s i - 20) 20 \<subseteq> {x. unat (stacks s) + i * 4096 \<le> unat x \<and> unat x < unat (stacks s) + i * 4096 + 4096}"
proof -
  have i: "of_nat (i * 4096) + 4096 - 20 = (of_nat (i * 4096 + 4076) :: u32)"
    by simp
  have "stack_top s i - 20 = stacks s + of_nat (i * 4096 + 4076)"
    unfolding stack_top_def by (simp flip: i)
  then have "unat (stack_top s i - 20) = unat (stacks s) + i * 4096 + 4076"
    using assms by (simp add: unat_add_u32 unat_of_nat_u32 del: of_nat_add of_nat_mult)
  then show ?thesis
    using assms by (auto simp: unat_footprint)
qed

lemma area_worker: "0 < i \<Longrightarrow> unat (stacks s) + 32768 \<le> 4294967296 \<Longrightarrow> i < 8 \<Longrightarrow> footprint (stack_top s i - 20) 20 \<subseteq> area B s i"
  using unat_stack [of s i] by (simp add: area_def)

lemma task_create_frame:
  fixes sp entry :: u32 and m :: mem
  defines "m' \<equiv> store32 (store32 (store32 (store32 (store32 m (sp - 4) entry) (sp - 8) 0) (sp - 12) 0) (sp - 16) 0) (sp - 20) 0"
  shows "saved m' (sp - 20) = \<lparr>ebp = 0, ebx = 0, esi = 0, edi = 0, esp = sp, eip = entry\<rparr>"
    "x \<notin> footprint (sp - 20) 20 \<Longrightarrow> m' x = m x"
proof -
  have a: "sp - 4 = sp - 20 + 16" "sp - 8 = sp - 20 + 12" "sp - 12 = sp - 20 + 8" "sp - 16 = sp - 20 + 4"
    by simp_all
  show "saved m' (sp - 20) = \<lparr>ebp = 0, ebx = 0, esi = 0, edi = 0, esp = sp, eip = entry\<rparr>"
    unfolding m'_def a saved_def load_pushed by simp
  assume x: "x \<notin> footprint (sp - 20) 20"
  have "x \<notin> footprint (sp - 20 + b) 4" if "unat b + 4 \<le> 20" for b
    using x footprint_sub [OF that, of "sp - 20"] by blast
  from this [of 0] this [of 4] this [of 8] this [of 12] this [of 16] show "m' x = m x"
    by (simp add: m'_def store32_outside)
qed

lemma all_saved_create:
  assumes "all_saved B G s" "num_tasks s < 8"
  shows "all_saved B (G(num_tasks s := \<lparr>ebp = 0, ebx = 0, esi = 0, edi = 0, esp = stack_top s (num_tasks s), eip = entry\<rparr>))
    (snd (task_create entry s))"
proof -
  let ?n = "num_tasks s" and ?sp = "stack_top s (num_tasks s)"
  let ?m = "store32 (store32 (store32 (store32 (store32 (sram s) (?sp - 4) entry) (?sp - 8) 0) (?sp - 12) 0) (?sp - 16) 0) (?sp - 20) 0"
  let ?s = "s\<lparr>num_tasks := ?n + 1, sram := ?m, tasks := (tasks s)(?n := \<lparr>t_esp = ?sp - 20, t_active = True\<rparr>)\<rparr>"
  have eq: "snd (task_create entry s) = ?s"
    by (simp add: task_create_def stack_top_def Let_def STACK_SIZE_def)
  have ok: "current s < ?n" "unat (stacks s) + 32768 \<le> 4294967296" "\<And>i. i < ?n \<Longrightarrow> i \<noteq> current s \<Longrightarrow> frame_ok B s i"
      "outside_stacks B (stacks s)"
    using assms(1) by (auto simp: all_saved_def sched_ok_def)
  have top: "footprint (?sp - 20) 20 \<subseteq> area B s ?n"
    using area_worker [of ?n s] ok assms(2) by simp
  have old: "resume ?s i = resume s i" if "i < ?n" "i \<noteq> current s" for i
  proof -
    have "saved ?m (t_esp (tasks s i)) = saved (sram s) (t_esp (tasks s i))"
    proof (rule saved_cong)
      fix x assume "x \<in> footprint (t_esp (tasks s i)) 20"
      then have "x \<in> area B s i"
        using ok(3) [OF that] by (auto simp: frame_ok_def)
      then have "x \<notin> footprint (?sp - 20) 20"
        using top area_disjoint [OF ok(4), of i ?n] that(1) assms(2) by auto
      then show "?m x = sram s x"
        by (rule task_create_frame)
    qed
    then show ?thesis
      using that by (simp add: resume_def)
  qed
  have new: "resume ?s ?n = \<lparr>ebp = 0, ebx = 0, esi = 0, edi = 0, esp = ?sp, eip = entry\<rparr>"
    by (simp add: resume_def task_create_frame)
  have "frame_ok B ?s i" if "i < ?n + 1" "i \<noteq> current s" for i
    using that top ok(3) [of i] by (cases "i = ?n") (auto simp: frame_ok_def area_def)
  then show ?thesis
    unfolding eq using assms ok old new by (auto simp: all_saved_def sched_ok_def less_Suc_eq)
qed

lemma all_saved_work:
  assumes "all_saved B G s" "\<forall>i < num_tasks s. i \<noteq> current s \<longrightarrow> (\<forall>x \<in> area B s i. m x = sram s x)"
  shows "all_saved B G (s\<lparr>regs := c, sram := m\<rparr>)"
proof -
  have "resume (s\<lparr>regs := c, sram := m\<rparr>) i = resume s i" if "i < num_tasks s" "i \<noteq> current s" for i
  proof -
    have "saved m (t_esp (tasks s i)) = saved (sram s) (t_esp (tasks s i))"
      using assms that by (intro saved_cong) (auto simp: all_saved_def sched_ok_def frame_ok_def)
    then show ?thesis
      by (simp add: resume_def)
  qed
  then show ?thesis
    using assms(1) by (simp add: all_saved_def sched_ok_def frame_ok_def)
qed

lemma sched_run_all_saved: "sched_run B G s \<Longrightarrow> all_saved B G s"
proof (induction rule: sched_run.induct)
  case (start s G)
  then show ?case
    by (auto simp: all_saved_def sched_ok_def reset_tasks_def)
next
  case (arm G s n)
  have "all_saved B G (s\<lparr>deadline := n, preempt_enabled := True\<rparr>) = all_saved B G s"
    by (rule all_saved_flags) simp_all
  then show ?case
    using arm by simp
qed (erule (1) all_saved_create all_saved_work all_saved_yield all_saved_exit all_saved_timer)+

text \<open>
  A step \<open>s'\<close> of the scheduler from \<open>s\<close>: if another task runs now, it has the registers recorded for it and the task that left is
  saved with the registers it called with; if not, nothing moved; and all other tasks are still saved as recorded.
\<close>

definition hands_over :: "(nat \<Rightarrow> cpu) \<Rightarrow> sched \<Rightarrow> sched \<Rightarrow> bool" where
  "hands_over G s s' \<longleftrightarrow>
     (if current s' = current s then regs s' = regs s \<and> sram s' = sram s
      else regs s' = G (current s') \<and> resume s' (current s) = calling s) \<and>
     (\<forall>i < num_tasks s. i \<noteq> current s \<and> i \<noteq> current s' \<longrightarrow> resume s' i = G i)"

lemma hands_over_switch:
  assumes "all_saved B G s" "may_switch B s" "q < num_tasks s" "q \<noteq> current s"
  shows "hands_over G s (switch_tasks (current s) q (s\<lparr>current := q\<rparr>))"
proof -
  have ok: "sched_ok B s" "\<And>i. i < num_tasks s \<Longrightarrow> i \<noteq> current s \<Longrightarrow> resume s i = G i"
    using assms(1) by (auto simp: all_saved_def)
  have "current (switch_tasks (current s) q (s\<lparr>current := q\<rparr>)) = q"
    by (simp add: switch_tasks_eq)
  then show ?thesis
    using switch_tasks_ok [OF ok(1) assms(2-4)] ok(2) assms(3,4) by (simp add: hands_over_def)
qed

lemma hands_over_yield:
  assumes "all_saved B G s" "may_switch B s"
  shows "hands_over G s (task_yield s)"
proof (cases "yield_target (wants s) (num_tasks s) (current s)")
  case None
  then show ?thesis
    using assms(1) by (simp add: task_yield_def hands_over_def all_saved_def)
next
  case (Some c)
  have "current s < num_tasks s"
    using assms(1) by (simp add: all_saved_def sched_ok_def)
  then show ?thesis
    using hands_over_switch [OF assms] yield_target_range [OF _ Some] Some by (simp add: task_yield_def)
qed

text \<open>Flags and the clock play no part.\<close>

lemma hands_over_flags:
  assumes "num_tasks t = num_tasks s" "current t = current s" "sram t = sram s" "regs t = regs s"
  shows "hands_over G t s' = hands_over G s s'"
  using assms by (simp add: hands_over_def calling_def)

lemma hands_over_exit:
  assumes "all_saved B G s" "may_switch B s"
  shows "hands_over G s (task_exit s)"
proof -
  let ?s = "s\<lparr>tasks := (tasks s)(current s := tasks s (current s)\<lparr>t_active := False\<rparr>)\<rparr>"
  have f: "all_saved B G ?s = all_saved B G s" "may_switch B ?s = may_switch B s"
    by (rule all_saved_flags; simp)+
  show ?thesis
    using hands_over_yield [of B G ?s] assms f hands_over_flags [of ?s s G] by (simp add: task_exit_def)
qed

lemma hands_over_timer:
  assumes "all_saved B G s" "may_switch B s"
  shows "hands_over G s (timer_callback s)"
proof -
  define t where "t = s\<lparr>tick := tick s + 1\<rparr>"
  define d where "d = fold (\<lambda>i s. s\<lparr>tasks := (tasks s)(i := tasks s i\<lparr>t_active := False\<rparr>)\<rparr>) [1..<num_tasks s]
    (t\<lparr>preempt_enabled := False\<rparr>)"
  have t0: "t_esp (tasks t i) = t_esp (tasks s i)" "stacks t = stacks s" "num_tasks t = num_tasks s" "current t = current s"
    "sram t = sram s" "regs t = regs s" for i
    by (simp_all add: t_def)
  have d0: "t_esp (tasks d i) = t_esp (tasks s i)" "stacks d = stacks s" "num_tasks d = num_tasks s" "current d = current s"
    "sram d = sram s" "regs d = regs s" for i
    by (simp_all add: d_def t_def deactivate_fold)
  have t: "all_saved B G t" "may_switch B t"
    using assms all_saved_flags [OF t0] by simp_all
  have d: "all_saved B G d" "may_switch B d"
    using assms all_saved_flags [OF d0] by simp_all
  have eq: "timer_callback s = (if \<not> preempt_enabled s then t else if deadline s \<le> tick s + 1 then
      (if current s \<noteq> 0 then switch_tasks (current s) 0 (d\<lparr>current := 0\<rparr>) else d) else task_yield t)"
    using d0(4) unfolding timer_callback_def preempt_tick_def Let_def by (simp add: t_def d_def)
  have still: "hands_over G s t" "hands_over G s d"
    using t(1) d(1) t0 d0 by (simp_all add: hands_over_def all_saved_def)
  have "hands_over G s (task_yield t)"
    using hands_over_yield [OF t] hands_over_flags [OF t0(3-6)] by simp
  moreover have "hands_over G s (switch_tasks (current s) 0 (d\<lparr>current := 0\<rparr>))" if "current s \<noteq> 0"
    using hands_over_switch [OF d, of 0] that d0(3,4) d(1) hands_over_flags [OF d0(3-6)]
    by (auto simp: all_saved_def sched_ok_def)
  ultimately show ?thesis
    unfolding eq using still by simp
qed

text \<open>
  C8.  Switching away from a task and back is invisible to it.  In every history of task creation,
  computation, yields, exits and timer interrupts, whichever of the three ways leads to another task (a yield, an exit, or a timer
  interrupt, which rotates the workers or returns to task 0 at the deadline), that task continues with exactly the
  registers, the stack pointer and the return address with which it left the CPU, or, the first time, at its
  entry point on its own empty stack; the task that leaves is saved the same way and the other tasks stay saved.
  Without a switch, registers and memory stay as they are.  A task at work may write to any memory but the stacks of the others.
\<close>

theorem context_switch_roundtrip:
  assumes "sched_run B G s" "may_switch B s" "s' \<in> {task_yield s, task_exit s, timer_callback s}"
  shows "(if current s' = current s then regs s' = regs s \<and> sram s' = sram s
       else regs s' = G (current s') \<and> resume s' (current s) = calling s) \<and>
     (\<forall>i < num_tasks s. i \<noteq> current s \<and> i \<noteq> current s' \<longrightarrow> resume s' i = G i)"
proof -
  have "all_saved B G s"
    by (rule sched_run_all_saved) (rule assms(1))
  then show ?thesis
    unfolding hands_over_def [symmetric]
    using assms(2,3) hands_over_yield hands_over_exit hands_over_timer by blast
qed

text \<open>
  The kernel's stack below 0x90000.  The scheduler starts its first worker; the worker runs, writes to a variable and to
  video memory, and is interrupted at the deadline.
\<close>

definition boot_stack :: "u32 set" where
  "boot_stack = {x. 0x8F000 \<le> unat x \<and> unat x < 0x91000}"

definition armed :: sched where
  "armed = three_workers\<lparr>deadline := 1, preempt_enabled := True\<rparr>"

definition interrupted :: sched where
  "interrupted = (task_yield armed)\<lparr>regs := \<lparr>ebp = 5, ebx = 6, esi = 7, edi = 8, esp = 0x21F00, eip = 0x1010\<rparr>,
     sram := (sram (task_yield armed))(0x7000 := 1, 0xB8000 := 65)\<rparr>"

lemma three_workers_run: "\<exists>G. sched_run boot_stack G three_workers \<and> G 1 = \<lparr>ebp = 0, ebx = 0, esi = 0, edi = 0, esp = 0x22000, eip = 0x1000\<rparr>"
proof -
  let ?z = "\<lparr>tasks = \<lambda>_. \<lparr>t_esp = 0, t_active = False\<rparr>, stacks = 0x20000, num_tasks = 0, current = 0,
        preempt_enabled = False, deadline = 0, tick = 0,
        regs = \<lparr>ebp = 1, ebx = 2, esi = 3, edi = 4, esp = 0x90000, eip = 0\<rparr>, sram = \<lambda>_. 0\<rparr>"
  let ?r = "reset_tasks ?z"
  let ?a = "snd (task_create 0x1000 ?r)"
  let ?b = "snd (task_create 0x2000 ?a)"
  have n: "num_tasks ?r = 1" "num_tasks ?a = 2" "num_tasks ?b = 3"
    by (simp_all add: reset_tasks_def task_create_def Let_def)
  have top: "stack_top ?r 1 = 0x22000"
    by (simp add: stack_top_def reset_tasks_def)
  have "sched_run boot_stack (\<lambda>_. undefined) ?r"
    by (rule sched_run.start) (simp_all add: outside_stacks_def boot_stack_def)
  note a = sched_run.create [OF this, where entry = "0x1000", unfolded n top, simplified]
  note b = sched_run.create [OF a, where entry = "0x2000", unfolded n, simplified]
  note c = sched_run.create [OF b, where entry = "0x3000", unfolded n, simplified]
  show ?thesis
    unfolding three_workers_def Let_def by (rule exI, rule conjI, rule c) simp
qed

lemma armed_fields:
  "num_tasks armed = 4" "current armed = 0" "current (task_yield armed) = 1" "stacks armed = 0x20000" "tick armed = 0" "deadline armed = 1"
  "preempt_enabled armed" "may_switch boot_stack armed" "calling armed = calling three_workers"
proof -
  show f: "num_tasks armed = 4" "current armed = 0" "stacks armed = 0x20000" "tick armed = 0" "deadline armed = 1"
    "preempt_enabled armed" "calling armed = calling three_workers"
    by (simp_all add: armed_def three_workers_tasks calling_def) (simp_all add: three_workers_def reset_tasks_def task_create_def Let_def)
  show "current (task_yield armed) = 1"
    by (simp add: current_task_yield f) (simp add: armed_def three_workers_tasks yield_target_def upt_rec)
  show "may_switch boot_stack armed"
    by (auto simp: armed_def may_switch_def three_workers_def reset_tasks_def task_create_def Let_def area_def boot_stack_def unat_footprint)
qed

theorem context_switch_roundtrip_witness:
  "regs (task_yield armed) = \<lparr>ebp = 0, ebx = 0, esi = 0, edi = 0, esp = 0x22000, eip = 0x1000\<rparr> \<and>
   current (timer_callback interrupted) = 0 \<and> regs (timer_callback interrupted) = calling three_workers"
proof -
  obtain G where g: "sched_run boot_stack G three_workers" "G 1 = \<lparr>ebp = 0, ebx = 0, esi = 0, edi = 0, esp = 0x22000, eip = 0x1000\<rparr>"
    using three_workers_run by blast
  have a: "sched_run boot_stack G armed"
    unfolding armed_def by (rule sched_run.arm) (rule g(1))
  have 1: "regs (task_yield armed) = G 1"
    using context_switch_roundtrip [OF a armed_fields(8), of "task_yield armed"] by (simp add: armed_fields)
  have y: "sched_run boot_stack (G(0 := calling three_workers)) (task_yield armed)"
    using sched_run.yield [OF a armed_fields(8)] by (simp add: armed_fields)
  have i: "sched_run boot_stack (G(0 := calling three_workers)) interrupted"
    unfolding interrupted_def
    by (rule sched_run.work [OF y]) (auto simp: armed_fields area_def boot_stack_def split: if_splits)
  have m: "may_switch boot_stack interrupted"
    by (auto simp: may_switch_def interrupted_def area_def armed_fields unat_footprint)
  have "current interrupted = 1" "current (timer_callback interrupted) = 0"
    by (simp_all add: interrupted_def armed_fields timer_callback_def preempt_tick_def Let_def deactivate_fold switch_tasks_eq)
  then show ?thesis
    using context_switch_roundtrip [OF i m, of "timer_callback interrupted"] 1 g(2) by simp
qed

section \<open>Preemption\<close>

text \<open>
  Preemption is bounded.  While it is armed and the deadline lies ahead, a timer interrupt only
  rotates the workers; the interrupt that reaches the deadline stops every worker, gives the CPU back to
  task 0 and disarms; disarmed, the timer only counts.  The flag stays set exactly until then.
\<close>

theorem timer_preemption:
  assumes "current s < num_tasks s"
  shows "tick (timer_callback s) = tick s + 1 \<and>
    (if \<not> preempt_enabled s then timer_callback s = s\<lparr>tick := tick s + 1\<rparr>
     else if deadline s \<le> tick s + 1 then \<not> preempt_enabled (timer_callback s) \<and> current (timer_callback s) = 0 \<and>
       (\<forall>i. 0 < i \<and> i < num_tasks s \<longrightarrow> \<not> t_active (tasks (timer_callback s) i))
     else preempt_enabled (timer_callback s) \<and> timer_callback s = task_yield (s\<lparr>tick := tick s + 1\<rparr>) \<and>
       (\<forall>i. t_active (tasks (timer_callback s) i) = t_active (tasks s i)))"
  by (simp add: timer_callback_def preempt_tick_def Let_def deactivate_fold)

theorem timer_preemption_witness:
  "tick (timer_callback (three_workers\<lparr>preempt_enabled := True, deadline := 1\<rparr>)) = 1 \<and>
   \<not> preempt_enabled (timer_callback (three_workers\<lparr>preempt_enabled := True, deadline := 1\<rparr>)) \<and>
   current (timer_callback (three_workers\<lparr>preempt_enabled := True, deadline := 1\<rparr>)) = 0"
proof -
  have t: "tick three_workers = 0"
    by (simp add: three_workers_def reset_tasks_def task_create_def Let_def)
  show ?thesis
    using timer_preemption [of "three_workers\<lparr>preempt_enabled := True, deadline := 1\<rparr>"]
    by (simp add: three_workers_tasks t)
qed

end
