(* ===== verification/Threads.thy ===== *)
theory Threads
  imports Screen Task
begin

text \<open>
  Synchronisation, \<open>kernel/sync.c\<close>, and the cooperative thread demonstrations of \<open>kernel/task.c\<close>.  A
  thread body is a program whose steps are its accesses to shared data, with its program point and its
  local variables as the thread's own state; a step says whether the thread goes on, calls
  \<open>task_yield\<close> or calls \<open>task_exit\<close>.
\<close>

section \<open>Locks and semaphores\<close>

text \<open>\<open>xchg\<close>: the old value and the new contents.\<close>

definition atomic_xchg :: "int \<Rightarrow> int \<Rightarrow> int \<times> int" where
  "atomic_xchg p v = (p, v)"

text \<open>One round of the loops of \<open>spin_lock\<close> and \<open>mutex_lock\<close>: acquired or not, and the lock word.\<close>

definition spin_init :: int where
  "spin_init = 0"

definition spin_lock_round :: "int \<Rightarrow> bool \<times> int" where
  "spin_lock_round locked = (let (old, locked') = atomic_xchg locked 1 in (old = 0, locked'))"

definition spin_unlock :: "int \<Rightarrow> int" where
  "spin_unlock locked = 0"

definition mutex_init :: int where
  "mutex_init = 0"

definition mutex_lock_round :: "int \<Rightarrow> bool \<times> int" where
  "mutex_lock_round locked = (let (old, locked') = atomic_xchg locked 1 in (old = 0, locked'))"

definition mutex_unlock :: "int \<Rightarrow> int" where
  "mutex_unlock locked = 0"

text \<open>The semaphore and the flags register of the caller; bit 9 is the interrupt flag.\<close>

record sem_state =
  sem_count :: int
  eflags :: u32

definition irq_save :: "sem_state \<Rightarrow> u32 \<times> sem_state" where
  "irq_save s = (eflags s, s\<lparr>eflags := eflags s AND NOT 0x200\<rparr>)"

definition irq_restore :: "u32 \<Rightarrow> sem_state \<Rightarrow> sem_state" where
  "irq_restore flags s = s\<lparr>eflags := flags\<rparr>"

definition sem_init :: "int \<Rightarrow> sem_state \<Rightarrow> sem_state" where
  "sem_init n s = s\<lparr>sem_count := n\<rparr>"

text \<open>One round of the loop of \<open>sem_wait\<close>: whether it returns.\<close>

definition sem_wait_round :: "sem_state \<Rightarrow> bool \<times> sem_state" where
  "sem_wait_round s =
     (let (flags, s) = irq_save s
      in if sem_count s > 0 then (True, irq_restore flags (s\<lparr>sem_count := sem_count s - 1\<rparr>))
         else (False, irq_restore flags s))"

definition sem_post :: "sem_state \<Rightarrow> sem_state" where
  "sem_post s = (let (flags, s) = irq_save s in irq_restore flags (s\<lparr>sem_count := sem_count s + 1\<rparr>))"

section \<open>Thread bodies\<close>

datatype signal = Continue | Yields | Exits

definition THREAD_ITERS :: nat where
  "THREAD_ITERS = 8"




text \<open>\<open>safe_worker\<close>: lock, read, yield, write, unlock, over the counter and the mutex.\<close>

datatype safe_pc = At_lock nat | At_read nat | At_write nat int | At_unlock nat

record guarded =
  shared_counter :: int
  counter_mutex :: int

fun safe_step :: "safe_pc \<Rightarrow> guarded \<Rightarrow> safe_pc \<times> guarded \<times> signal" where
  "safe_step (At_lock i) g =
     (if i < THREAD_ITERS
      then let (got, locked) = mutex_lock_round (counter_mutex g); g = g\<lparr>counter_mutex := locked\<rparr>
           in if got then (At_read i, g, Continue) else (At_lock i, g, Yields)
      else (At_lock i, g, Exits))"
| "safe_step (At_read i) g = (At_write i (shared_counter g), g, Yields)"
| "safe_step (At_write i t) g = (At_unlock i, g\<lparr>shared_counter := t + 1\<rparr>, Continue)"
| "safe_step (At_unlock i) g = (At_lock (i + 1), g\<lparr>counter_mutex := mutex_unlock (counter_mutex g)\<rparr>, Continue)"

section \<open>Running the threads\<close>

text \<open>
  The threads under the scheduler: the states of the workers, what they share, which are active, and
  the running task, 0 being the caller.
\<close>

record ('l, 'g) crew =
  locals :: "nat \<Rightarrow> 'l"
  shared :: 'g
  active :: "nat \<Rightarrow> bool"
  running :: nat
  crew_size :: nat









section \<open>What the demonstrations do\<close>





text \<open>A run does not depend on how the shared data is represented.\<close>

definition seen_as :: "('g \<Rightarrow> 'h) \<Rightarrow> ('l, 'g) crew \<Rightarrow> ('l, 'h) crew" where
  "seen_as h s = \<lparr>locals = locals s, shared = h (shared s), active = active s, running = running s, crew_size = crew_size s\<rparr>"

lemma running_seen_as [simp]: "running (seen_as h s) = running s"
  by (simp add: seen_as_def)










section \<open>Mutual exclusion under every schedule\<close>

text \<open>
  Any number of threads running \<open>safe_worker\<close>, preempted anywhere: at every moment any of them may make
  its next access.
\<close>

inductive interleaved :: "nat \<Rightarrow> (nat \<Rightarrow> safe_pc) \<Rightarrow> guarded \<Rightarrow> bool" where
  spawned: "interleaved n (\<lambda>_. At_lock 0) \<lparr>shared_counter = 0, counter_mutex = mutex_init\<rparr>"
| access: "interleaved n ws g \<Longrightarrow> i < n \<Longrightarrow> safe_step (ws i) g = (l, g', sig) \<Longrightarrow> interleaved n (ws(i := l)) g'"

primrec in_section :: "safe_pc \<Rightarrow> bool" where
  "in_section (At_lock i) \<longleftrightarrow> False"
| "in_section (At_read i) \<longleftrightarrow> True"
| "in_section (At_write i t) \<longleftrightarrow> True"
| "in_section (At_unlock i) \<longleftrightarrow> True"

primrec updates :: "safe_pc \<Rightarrow> nat" where
  "updates (At_lock i) = i"
| "updates (At_read i) = i"
| "updates (At_write i t) = i"
| "updates (At_unlock i) = i + 1"

definition finished :: "safe_pc \<Rightarrow> bool" where
  "finished w \<longleftrightarrow> w = At_lock THREAD_ITERS"

definition holder :: "nat \<Rightarrow> (nat \<Rightarrow> safe_pc) \<Rightarrow> nat option \<Rightarrow> bool" where
  "holder n ws h \<longleftrightarrow> (\<forall>i < n. in_section (ws i) \<longleftrightarrow> h = Some i) \<and> (\<forall>i. h = Some i \<longrightarrow> i < n)"

primrec pc_ok :: "int \<Rightarrow> safe_pc \<Rightarrow> bool" where
  "pc_ok c (At_lock k) \<longleftrightarrow> k \<le> 8"
| "pc_ok c (At_read k) \<longleftrightarrow> k < 8"
| "pc_ok c (At_write k t) \<longleftrightarrow> k < 8 \<and> t = c"
| "pc_ok c (At_unlock k) \<longleftrightarrow> k < 8"

lemma pc_ok_outside: "\<not> in_section w \<Longrightarrow> pc_ok c w \<Longrightarrow> pc_ok c' w"
  by (cases w) auto

definition crew_inv :: "nat \<Rightarrow> (nat \<Rightarrow> safe_pc) \<Rightarrow> guarded \<Rightarrow> bool" where
  "crew_inv n ws g \<longleftrightarrow> shared_counter g = int (\<Sum>i<n. updates (ws i)) \<and>
     (\<exists>h. holder n ws h \<and> counter_mutex g = (if h = None then 0 else 1)) \<and>
     (\<forall>i < n. pc_ok (shared_counter g) (ws i))"

lemma sum_updates:
  "j < (n :: nat) \<Longrightarrow> (\<Sum>i<n. updates ((ws(j := l)) i)) + updates (ws j) = (\<Sum>i<n. updates (ws i)) + updates l"
proof -
  assume j: "j < n"
  have "(\<Sum>i<n. updates ((ws(j := l)) i)) = updates l + (\<Sum>i\<in>{..<n} - {j}. updates ((ws(j := l)) i))"
    using j by (subst sum.remove [of "{..<n}" j]) auto
  also have "(\<Sum>i\<in>{..<n} - {j}. updates ((ws(j := l)) i)) = (\<Sum>i\<in>{..<n} - {j}. updates (ws i))"
    by (rule sum.cong) auto
  finally show ?thesis
    using j by (simp add: sum.remove [of "{..<n}" j "\<lambda>i. updates (ws i)"])
qed

lemma crew_invI:
  assumes "crew_inv n ws g" "j < n" "holder n (ws(j := l)) h" "counter_mutex g' = (if h = None then 0 else 1)"
    "shared_counter g' + int (updates (ws j)) = shared_counter g + int (updates l)" "pc_ok (shared_counter g') l"
    "\<forall>i < n. i \<noteq> j \<longrightarrow> pc_ok (shared_counter g') (ws i)"
  shows "crew_inv n (ws(j := l)) g'"
proof -
  have "shared_counter g' = int (\<Sum>i<n. updates ((ws(j := l)) i))"
    using sum_updates [OF assms(2), of ws l] assms(1,5) unfolding crew_inv_def by linarith
  then show ?thesis
    using assms(3,4,6,7) unfolding crew_inv_def by auto
qed

lemma crew_inv_step:
  assumes inv: "crew_inv n ws g" and j: "j < n" and step: "safe_step (ws j) g = (l, g', sig)"
  shows "crew_inv n (ws(j := l)) g'"
proof -
  obtain h where h: "holder n ws h" "counter_mutex g = (if h = None then 0 else 1)"
    and b: "\<And>i. i < n \<Longrightarrow> pc_ok (shared_counter g) (ws i)"
    using inv unfolding crew_inv_def by blast
  have own: "h = Some j \<longleftrightarrow> in_section (ws j)" and others: "\<And>i. i < n \<Longrightarrow> in_section (ws i) \<longleftrightarrow> h = Some i"
    using h(1) j by (auto simp: holder_def)
  show ?thesis
  proof (cases "ws j")
    case (At_lock i)
    show ?thesis
    proof (cases "i < 8 \<and> h = None")
      case True
      then have l: "l = At_read i" "g' = g\<lparr>counter_mutex := 1\<rparr>"
        using step h(2) At_lock by (auto simp: THREAD_ITERS_def mutex_lock_round_def atomic_xchg_def)
      have "holder n (ws(j := l)) (Some j)"
        using others True j by (auto simp: holder_def l)
      then show ?thesis
        by (rule crew_invI [OF inv j]) (use True At_lock b l in simp_all)
    next
      case False
      then have "l = At_lock i" "g' = g"
        using step h(2) At_lock
        by (auto simp: THREAD_ITERS_def mutex_lock_round_def atomic_xchg_def split: if_splits)
      moreover have "ws(j := At_lock i) = ws"
        using At_lock by auto
      ultimately show ?thesis
        using inv by simp
    qed
  next
    case (At_read i)
    then have l: "l = At_write i (shared_counter g)" "g' = g"
      using step by auto
    have "holder n (ws(j := l)) h"
      using h(1) j At_read by (auto simp: holder_def l)
    then show ?thesis
      by (rule crew_invI [OF inv j]) (use At_read b b [OF j] h(2) l in simp_all)
  next
    case (At_write i t)
    then have l: "l = At_unlock i" "g' = g\<lparr>shared_counter := t + 1\<rparr>"
      using step by auto
    have "holder n (ws(j := l)) h"
      using h(1) j At_write by (auto simp: holder_def l)
    moreover have "pc_ok (t + 1) (ws k)" if "k < n" "k \<noteq> j" for k
      by (rule pc_ok_outside [OF _ b [OF that(1)]]) (use others [OF that(1)] own At_write that(2) in auto)
    ultimately show ?thesis
      by - (rule crew_invI [OF inv j], use At_write b [OF j] h(2) l in simp_all)
  next
    case (At_unlock i)
    then have l: "l = At_lock (i + 1)" "g' = g\<lparr>counter_mutex := 0\<rparr>"
      using step by (auto simp: mutex_unlock_def)
    have "holder n (ws(j := l)) None"
      using others own j At_unlock by (auto simp: holder_def l)
    then show ?thesis
      by (rule crew_invI [OF inv j]) (use At_unlock b b [OF j] l in simp_all)
  qed
qed

lemma interleaved_inv: "interleaved n ws g \<Longrightarrow> crew_inv n ws g"
proof (induction rule: interleaved.induct)
  case (spawned n)
  have "holder n (\<lambda>_. At_lock 0) None"
    by (simp add: holder_def)
  then show ?case
    by (auto simp: crew_inv_def mutex_init_def)
qed (rule crew_inv_step)

text \<open>
  C11.  The mutex does its job under every schedule and for every number of threads: at no moment are two
  threads in the critical section, the lock word is 1 exactly while one is, and when all threads have
  finished the counter holds all their updates.
\<close>

theorem mutex_exclusion:
  assumes "interleaved n ws g"
  shows "(\<forall>i < n. \<forall>j < n. in_section (ws i) \<and> in_section (ws j) \<longrightarrow> i = j) \<and>
    (counter_mutex g = 1 \<longleftrightarrow> (\<exists>i < n. in_section (ws i))) \<and>
    ((\<forall>i < n. finished (ws i)) \<longrightarrow> shared_counter g = 8 * int n)"
proof -
  have inv: "crew_inv n ws g"
    by (rule interleaved_inv) (rule assms)
  then obtain h where h: "holder n ws h" "counter_mutex g = (if h = None then 0 else 1)"
    by (auto simp: crew_inv_def)
  have "shared_counter g = 8 * int n" if "\<forall>i < n. finished (ws i)"
  proof -
    have "(\<Sum>i<n. updates (ws i)) = (\<Sum>i<n. 8)"
      using that by (intro sum.cong) (auto simp: finished_def THREAD_ITERS_def)
    then show ?thesis
      using inv by (simp add: crew_inv_def)
  qed
  then show ?thesis
    using h by (cases h) (auto simp: holder_def)
qed

theorem mutex_exclusion_witness:
  "\<exists>ws g. interleaved 2 ws g \<and> in_section (ws 0) \<and> \<not> in_section (ws 1) \<and> counter_mutex g = 1"
proof -
  let ?ws = "(\<lambda>_ :: nat. At_lock 0)(0 := At_read 0)" and ?g = "\<lparr>shared_counter = 0, counter_mutex = 1\<rparr>"
  have "safe_step (At_lock 0) \<lparr>shared_counter = 0, counter_mutex = mutex_init\<rparr> = (At_read 0, ?g, Continue)"
    by (simp add: THREAD_ITERS_def mutex_lock_round_def atomic_xchg_def mutex_init_def)
  then have i: "interleaved 2 ?ws ?g"
    using interleaved.access [OF interleaved.spawned [of 2], of 0] by simp
  have "\<exists>i < (2 :: nat). in_section (?ws i)"
    by (rule exI [of _ 0]) simp
  with mutex_exclusion [OF i] have "counter_mutex ?g = 1"
    by blast
  then show ?thesis
    using i by (intro exI [of _ ?ws] exI [of _ ?g]) simp
qed

text \<open>
  A sequence of operations on a semaphore, by any threads in any order, each atomic since interrupts
  are off inside: how many waits came through, and the final state.
\<close>

datatype sem_op = Wait | Post

fun sem_run :: "sem_op list \<Rightarrow> sem_state \<Rightarrow> nat \<times> sem_state" where
  "sem_run [] s = (0, s)"
| "sem_run (Post # ops) s = sem_run ops (sem_post s)"
| "sem_run (Wait # ops) s =
     (case sem_wait_round s of (through, s1) \<Rightarrow>
        case sem_run ops s1 of (n, s') \<Rightarrow> (if through then n + 1 else n, s'))"

lemma sem_run_ok:
  "sem_run ops s = (n, s') \<Longrightarrow> 0 \<le> sem_count s \<Longrightarrow>
   0 \<le> sem_count s' \<and> sem_count s' + int n = sem_count s + int (length (filter ((=) Post) ops)) \<and> eflags s' = eflags s"
proof (induction ops s arbitrary: n rule: sem_run.induct)
  case (2 ops s)
  then show ?case
    by (simp add: sem_post_def irq_save_def irq_restore_def)
next
  case (3 ops s)
  obtain through s1 where r: "sem_wait_round s = (through, s1)"
    by fastforce
  then obtain m where m: "sem_run ops s1 = (m, s')" "n = (if through then m + 1 else m)"
    using 3(2) by (auto split: prod.splits)
  have "sem_count s1 = (if through then sem_count s - 1 else sem_count s)" "eflags s1 = eflags s" "0 \<le> sem_count s1"
    using r 3(3) by (auto simp: sem_wait_round_def irq_save_def irq_restore_def split: if_splits)
  then show ?case
    using 3(1) [OF r [symmetric] m(1)] m(2) by auto
qed simp

text \<open>
  A semaphore never hands out more than it has: after any sequence of posts and waits from a count
  that was not negative, the count is not negative, and the initial count plus the posts is the count plus
  the waits that came through.  The caller's interrupt flag is as it was.
\<close>

theorem semaphore_conserves:
  assumes "sem_run ops s = (n, s')" "0 \<le> sem_count s"
  shows "0 \<le> sem_count s' \<and> sem_count s' + int n = sem_count s + int (length (filter ((=) Post) ops)) \<and>
    eflags s' = eflags s"
  using sem_run_ok [OF assms] .

theorem semaphore_conserves_witness:
  "sem_run [Wait, Wait, Post, Wait] (sem_init 1 \<lparr>sem_count = 0, eflags = 0x202\<rparr>) = (2, \<lparr>sem_count = 0, eflags = 0x202\<rparr>) \<and>
   (0 :: int) + int 2 = 1 + int (length (filter ((=) Post) [Wait, Wait, Post, Wait]))"
proof -
  let ?s = "sem_init 1 \<lparr>sem_count = 0, eflags = 0x202\<rparr>"
  have r: "sem_run [Wait, Wait, Post, Wait] ?s = (2, \<lparr>sem_count = 0, eflags = 0x202\<rparr>)"
    by (simp add: sem_init_def sem_wait_round_def sem_post_def irq_save_def irq_restore_def)
  moreover have "0 \<le> sem_count ?s"
    by (simp add: sem_init_def)
  ultimately show ?thesis
    using semaphore_conserves [OF r] by (simp add: sem_init_def)
qed

end
