(* ===== verification/Pmm.thy ===== *)
theory Pmm
  imports Prelude
begin

text \<open>
  The physical frame allocator of \<open>kernel/pmm.c\<close>: a bitmap with one bit per 4 KB frame, a
  reference count per frame, the two counters and the search hint.  The static arrays
  \<open>bitmap[1024]\<close> and \<open>refcount[32768]\<close> are functions of the index; that the code only uses
  indices inside them is part of the invariant (\<open>total_frames\<close> is at most \<open>MAX_FRAMES\<close>).
\<close>

definition PAGE_SIZE :: u32 where "PAGE_SIZE = 4096"

definition MANAGED_BASE :: u32 where "MANAGED_BASE = 0x00400000"

definition MAX_FRAMES :: u32 where "MAX_FRAMES = 32768"

record pmm =
  bitmap :: "u32 \<Rightarrow> u32"
  refcount :: "u32 \<Rightarrow> u8"
  total_frames :: u32
  used_frames :: u32
  next_hint :: u32

definition bit_set :: "pmm \<Rightarrow> u32 \<Rightarrow> pmm" where
  "bit_set s i = s\<lparr>bitmap := (bitmap s)(drop_bit 5 i :=
     bitmap s (drop_bit 5 i) OR push_bit (unat (i AND 31)) 1)\<rparr>"

definition bit_clear :: "pmm \<Rightarrow> u32 \<Rightarrow> pmm" where
  "bit_clear s i = s\<lparr>bitmap := (bitmap s)(drop_bit 5 i :=
     bitmap s (drop_bit 5 i) AND NOT (push_bit (unat (i AND 31)) 1))\<rparr>"

definition bit_test :: "pmm \<Rightarrow> u32 \<Rightarrow> bool" where
  "bit_test s i \<longleftrightarrow> drop_bit (unat (i AND 31)) (bitmap s (drop_bit 5 i)) AND 1 \<noteq> 0"

definition pmm_install :: "u32 \<Rightarrow> pmm" where
  "pmm_install mem_bytes =
     \<lparr>bitmap = (\<lambda>_. 0), refcount = (\<lambda>_. 0),
      total_frames =
        (if mem_bytes \<le> MANAGED_BASE then 0
         else let frames = (mem_bytes - MANAGED_BASE) div PAGE_SIZE
              in if frames > MAX_FRAMES then MAX_FRAMES else frames),
      used_frames = 0, next_hint = 0\<rparr>"

text \<open>One pass of the search loop of \<open>pmm_alloc\<close>, from \<open>i\<close> up to \<open>e\<close>.\<close>

function pmm_scan :: "pmm \<Rightarrow> u32 \<Rightarrow> u32 \<Rightarrow> u32 option" where
  "pmm_scan s i e =
     (if i < e then (if \<not> bit_test s i then Some i else pmm_scan s (i + 1) e) else None)"
  by pat_completeness auto
termination
  by (relation "measure (\<lambda>(s, i, e). unat e - unat i)")
    (auto simp: unat_add_one word_less_nat_alt)

declare pmm_scan.simps [simp del]

text \<open>The body of the search loop once a clear bit is found.\<close>

definition pmm_take :: "pmm \<Rightarrow> u32 \<Rightarrow> u32 \<times> pmm" where
  "pmm_take s i =
     (let s1 = bit_set s i
      in (MANAGED_BASE + i * PAGE_SIZE,
          s1\<lparr>refcount := (refcount s1)(i := 1),
             used_frames := used_frames s1 + 1,
             next_hint := i + 1\<rparr>))"

definition pmm_alloc :: "pmm \<Rightarrow> u32 \<times> pmm" where
  "pmm_alloc s =
     (if total_frames s = 0 then (0, s)
      else case pmm_scan s (next_hint s) (total_frames s) of
        Some i \<Rightarrow> pmm_take s i
      | None \<Rightarrow>
          (case pmm_scan s 0 (next_hint s) of
             Some i \<Rightarrow> pmm_take s i
           | None \<Rightarrow> (0, s)))"

definition frame_index :: "u32 \<Rightarrow> u32" where
  "frame_index phys = (phys - MANAGED_BASE) div PAGE_SIZE"

definition pmm_free :: "u32 \<Rightarrow> pmm \<Rightarrow> pmm" where
  "pmm_free phys s =
     (if phys < MANAGED_BASE then s
      else let i = frame_index phys
      in if i \<ge> total_frames s \<or> \<not> bit_test s i then s
      else if refcount s i > 1 then s\<lparr>refcount := (refcount s)(i := refcount s i - 1)\<rparr>
      else let s1 = bit_clear (s\<lparr>refcount := (refcount s)(i := 0)\<rparr>) i
      in s1\<lparr>used_frames := used_frames s1 - 1,
            next_hint := (if i < next_hint s1 then i else next_hint s1)\<rparr>)"

definition pmm_incref :: "u32 \<Rightarrow> pmm \<Rightarrow> pmm" where
  "pmm_incref phys s =
     (if phys < MANAGED_BASE then s
      else let i = frame_index phys
      in if i < total_frames s \<and> bit_test s i \<and> refcount s i < 255
      then s\<lparr>refcount := (refcount s)(i := refcount s i + 1)\<rparr> else s)"

definition pmm_refcount :: "pmm \<Rightarrow> u32 \<Rightarrow> u32" where
  "pmm_refcount s phys =
     (if phys < MANAGED_BASE then 0
      else let i = frame_index phys
      in if i < total_frames s then ucast (refcount s i) else 0)"

definition pmm_total_frames :: "pmm \<Rightarrow> u32" where
  "pmm_total_frames s = total_frames s"

definition pmm_used_frames :: "pmm \<Rightarrow> u32" where
  "pmm_used_frames s = used_frames s"

definition pmm_free_frames :: "pmm \<Rightarrow> u32" where
  "pmm_free_frames s = total_frames s - used_frames s"

section \<open>The bitmap\<close>

lemma bit_test_iff: "bit_test s i \<longleftrightarrow> bit (bitmap s (drop_bit 5 i)) (unat (i AND 31))"
  by (simp add: bit_test_def flag_simps bit_drop_bit_eq)

lemma index_split: "drop_bit 5 i = drop_bit 5 j \<and> i AND 31 = j AND 31 \<longleftrightarrow> (i :: u32) = j"
proof
  assume a: "drop_bit 5 i = drop_bit 5 j \<and> i AND 31 = j AND 31"
  have "(31 :: u32) = mask 5"
    by (simp add: mask_eq_exp_minus_1)
  with a have "drop_bit 5 i = drop_bit 5 j" "take_bit 5 i = take_bit 5 j"
    by (simp_all only: take_bit_eq_mask)
  then show "i = j"
    by (metis bits_ident)
qed simp

lemma unat_and_31: "unat ((i :: u32) AND 31) < 32"
proof -
  have "i AND 31 \<le> 31"
    by (rule word_and_le1)
  then show ?thesis
    by (simp add: word_le_nat_alt)
qed

lemma same_index:
  "j = i \<longleftrightarrow> drop_bit 5 j = drop_bit 5 i \<and> unat (j AND 31) = unat (i AND 31 :: u32)"
  by (simp only: word_unat_eq_iff [symmetric] index_split)

lemma bit_test_bit_set [simp]: "bit_test (bit_set s i) j \<longleftrightarrow> j = i \<or> bit_test s j"
  unfolding same_index [of j i] bit_test_iff bit_set_def
  using unat_and_31 [of j] by (auto simp: bit_or_iff bit_exp_iff)

lemma bit_test_bit_clear [simp]: "bit_test (bit_clear s i) j \<longleftrightarrow> j \<noteq> i \<and> bit_test s j"
  unfolding same_index [of j i] bit_test_iff bit_clear_def
  using unat_and_31 [of j] by (auto simp: bit_and_iff bit_not_iff bit_exp_iff)

lemma bit_set_fields [simp]:
  "refcount (bit_set s i) = refcount s" "total_frames (bit_set s i) = total_frames s"
  "used_frames (bit_set s i) = used_frames s" "next_hint (bit_set s i) = next_hint s"
  by (simp_all add: bit_set_def)

lemma bit_clear_fields [simp]:
  "refcount (bit_clear s i) = refcount s" "total_frames (bit_clear s i) = total_frames s"
  "used_frames (bit_clear s i) = used_frames s" "next_hint (bit_clear s i) = next_hint s"
  by (simp_all add: bit_clear_def)

lemma bit_test_cong: "bitmap s = bitmap t \<Longrightarrow> bit_test s = bit_test t"
  by (simp add: bit_test_def fun_eq_iff)

lemma bit_test_upd [simp]:
  "bit_test (s\<lparr>refcount := r\<rparr>) = bit_test s" "bit_test (s\<lparr>used_frames := u\<rparr>) = bit_test s"
  "bit_test (s\<lparr>next_hint := h\<rparr>) = bit_test s"
  by (simp_all add: bit_test_def fun_eq_iff)

section \<open>The search\<close>

lemma pmm_scan_Some:
  "pmm_scan s i e = Some k \<Longrightarrow>
     i \<le> k \<and> k < e \<and> \<not> bit_test s k \<and> (\<forall>j. i \<le> j \<and> j < k \<longrightarrow> bit_test s j)"
proof (induction s i e rule: pmm_scan.induct)
  case (1 s i e)
  show ?case
  proof (cases "i < e \<and> bit_test s i")
    case True
    then have "pmm_scan s (i + 1) e = Some k"
      using "1.prems" by (simp add: pmm_scan.simps [of s i e])
    then have IH: "i + 1 \<le> k" "k < e" "\<not> bit_test s k"
      "\<forall>j. i + 1 \<le> j \<and> j < k \<longrightarrow> bit_test s j"
      using "1.IH" True by blast+
    have "i < k"
      using True IH(1) unat_add_one [of i e] by (simp add: word_less_nat_alt word_le_nat_alt)
    moreover have "bit_test s j" if "i \<le> j" "j < k" for j
    proof (cases "j = i")
      case False
      with that True have "i + 1 \<le> j"
        using unat_add_one [of i e] by (auto simp: word_le_nat_alt word_unat_eq_iff)
      with that IH(4) show ?thesis
        by blast
    qed (use True in simp)
    ultimately show ?thesis
      using IH by auto
  next
    case False
    with "1.prems" show ?thesis
      by (auto simp: pmm_scan.simps [of s i e] split: if_splits)
  qed
qed

lemma pmm_scan_None:
  "pmm_scan s i e = None \<Longrightarrow> i \<le> j \<Longrightarrow> j < e \<Longrightarrow> bit_test s j"
proof (induction s i e rule: pmm_scan.induct)
  case (1 s i e)
  have ie: "i < e"
    using "1.prems"(2,3) by simp
  then have bi: "bit_test s i" and rest: "pmm_scan s (i + 1) e = None"
    using "1.prems"(1) by (simp_all add: pmm_scan.simps [of s i e] split: if_splits)
  show ?case
  proof (cases "j = i")
    case False
    then have "i + 1 \<le> j"
      using "1.prems"(2) unat_add_one [OF ie] by (auto simp: word_le_nat_alt word_unat_eq_iff)
    then show ?thesis
      using "1.IH" [OF ie _ rest] bi "1.prems"(3) by blast
  qed (use bi in simp)
qed

section \<open>Invariant\<close>

text \<open>
  The indices stay inside the arrays, a frame's bit is set exactly when it has an owner,
  \<open>used_frames\<close> counts the set bits, and every frame below the search hint is in use.
\<close>

definition used_set :: "pmm \<Rightarrow> u32 set" where
  "used_set s = {i. i < total_frames s \<and> bit_test s i}"

definition pmm_inv :: "pmm \<Rightarrow> bool" where
  "pmm_inv s \<longleftrightarrow>
     total_frames s \<le> MAX_FRAMES \<and> next_hint s \<le> total_frames s \<and>
     (\<forall>i < total_frames s. bit_test s i \<longleftrightarrow> refcount s i \<noteq> 0) \<and>
     unat (used_frames s) = card (used_set s) \<and>
     (\<forall>j < next_hint s. bit_test s j)"

lemma used_set_subset: "used_set s \<subseteq> {i. i < total_frames s}"
  by (auto simp: used_set_def)

lemma card_below: "card {i :: u32. i < n} = unat n"
proof -
  have "{i :: u32. i < n} = of_nat ` {0..<unat n}"
  proof (intro equalityI subsetI)
    fix i :: u32
    assume "i \<in> {i. i < n}"
    then show "i \<in> of_nat ` {0..<unat n}"
      by (intro image_eqI [of _ _ "unat i"]) (auto simp: word_less_nat_alt)
  next
    fix i :: u32
    assume "i \<in> of_nat ` {0..<unat n}"
    then show "i \<in> {i. i < n}"
      using unat_u32_less [of n] by (auto simp: word_less_nat_alt unat_of_nat_u32)
  qed
  moreover have "inj_on (of_nat :: nat \<Rightarrow> u32) {0..<unat n}"
    using unat_u32_less [of n] by (auto intro!: inj_onI dest!: arg_cong [of _ _ unat]
        simp: unat_of_nat_u32)
  ultimately show ?thesis
    by (simp add: card_image)
qed

lemma card_used_le: "card (used_set s) \<le> unat (total_frames s)"
  using card_mono [OF _ used_set_subset, of s] by (simp add: card_below)

lemma pmm_install_inv: "pmm_inv (pmm_install n)"
  by (auto simp: pmm_inv_def pmm_install_def used_set_def bit_test_def MAX_FRAMES_def Let_def)

lemma pmm_take_fields:
  "bit_test (snd (pmm_take s i)) j \<longleftrightarrow> j = i \<or> bit_test s j"
  "refcount (snd (pmm_take s i)) = (refcount s)(i := 1)"
  "total_frames (snd (pmm_take s i)) = total_frames s"
  "used_frames (snd (pmm_take s i)) = used_frames s + 1"
  "next_hint (snd (pmm_take s i)) = i + 1"
  "fst (pmm_take s i) = MANAGED_BASE + i * PAGE_SIZE"
  by (simp_all add: pmm_take_def Let_def)

lemma pmm_take_inv:
  assumes inv: "pmm_inv s" and i: "i < total_frames s" "\<not> bit_test s i" "\<forall>j < i. bit_test s j"
  shows "pmm_inv (snd (pmm_take s i))"
proof -
  let ?t = "snd (pmm_take s i)"
  have used: "used_set ?t = insert i (used_set s)"
    using i by (auto simp: used_set_def pmm_take_fields)
  have new: "i \<notin> used_set s"
    using i by (simp add: used_set_def)
  have "card (used_set s) \<le> 32768"
    using card_used_le [of s] inv by (simp add: pmm_inv_def MAX_FRAMES_def word_le_nat_alt)
  then have "unat (used_frames s + 1) = Suc (card (used_set s))"
    using inv by (simp add: pmm_inv_def unat_add_u32)
  then have "unat (used_frames ?t) = card (used_set ?t)"
    using new by (simp add: used pmm_take_fields)
  moreover have "i + 1 \<le> total_frames s"
    using unat_add_one [OF i(1)] i(1) by (simp add: word_le_nat_alt word_less_nat_alt)
  ultimately show ?thesis
    using inv i(3) by (simp add: pmm_inv_def pmm_take_fields less_succ_word [OF i(1)])
qed

section \<open>Frame addresses\<close>

definition frame_addr :: "u32 \<Rightarrow> u32" where
  "frame_addr i = MANAGED_BASE + i * PAGE_SIZE"

definition pool :: "pmm \<Rightarrow> u32 set" where
  "pool s = frame_addr ` {i. i < total_frames s}"

definition owners :: "pmm \<Rightarrow> u32 \<Rightarrow> nat" where
  "owners s p = unat (pmm_refcount s p)"

lemma unat_frame_addr: "i \<le> MAX_FRAMES \<Longrightarrow> unat (frame_addr i) = 4194304 + 4096 * unat i"
  by (simp add: frame_addr_def MAX_FRAMES_def MANAGED_BASE_def PAGE_SIZE_def word_le_nat_alt
      unat_add_u32 unat_mult_u32)

lemma frame_addr_base: "i \<le> MAX_FRAMES \<Longrightarrow> \<not> frame_addr i < MANAGED_BASE"
  by (simp add: word_less_nat_alt unat_frame_addr) (simp add: MANAGED_BASE_def)

lemma frame_index_frame_addr [simp]: "i \<le> MAX_FRAMES \<Longrightarrow> frame_index (frame_addr i) = i"
proof -
  assume i: "i \<le> MAX_FRAMES"
  have "unat (frame_addr i - MANAGED_BASE) = 4096 * unat i"
    using i frame_addr_base [OF i]
    by (simp add: unat_sub_no_wrap unat_frame_addr) (simp add: MANAGED_BASE_def)
  then have "unat (frame_index (frame_addr i)) = unat i"
    by (simp add: frame_index_def PAGE_SIZE_def unat_div)
  then show ?thesis
    by (simp add: word_unat_eq_iff)
qed

lemma page_aligned_frame_addr: "i \<le> MAX_FRAMES \<Longrightarrow> page_aligned (frame_addr i)"
proof -
  assume "i \<le> MAX_FRAMES"
  then have "unat (frame_addr i) = 4096 * (1024 + unat i)"
    by (simp add: unat_frame_addr)
  then show ?thesis
    by (simp add: page_aligned_unat)
qed

lemma index_le_max: "pmm_inv s \<Longrightarrow> i < total_frames s \<Longrightarrow> i \<le> MAX_FRAMES"
  unfolding pmm_inv_def by (blast intro: less_imp_le less_le_trans)

lemma pool_cases:
  assumes "pmm_inv s" "p \<in> pool s"
  obtains i where "p = frame_addr i" "i < total_frames s" "i \<le> MAX_FRAMES" "frame_index p = i"
    "\<not> p < MANAGED_BASE" "page_aligned p"
proof -
  obtain i where i: "p = frame_addr i" "i < total_frames s"
    using assms(2) by (auto simp: pool_def)
  moreover have "i \<le> MAX_FRAMES"
    using assms(1) i(2) by (rule index_le_max)
  ultimately show thesis
    using that frame_addr_base page_aligned_frame_addr by simp
qed

lemma pool_aligned: "pmm_inv s \<Longrightarrow> p \<in> pool s \<Longrightarrow> page_aligned p"
  by (erule (1) pool_cases)

lemma pool_nonzero: "pmm_inv s \<Longrightarrow> p \<in> pool s \<Longrightarrow> p \<noteq> 0"
  by (erule (1) pool_cases) (auto simp: MANAGED_BASE_def)

lemma pool_bounds:
  "pmm_inv s \<Longrightarrow> p \<in> pool s \<Longrightarrow>
     4194304 \<le> unat p \<and> unat p + 4096 \<le> 4194304 + 4096 * unat (total_frames s)"
  by (erule (1) pool_cases) (auto simp: unat_frame_addr word_less_nat_alt)

lemma owners_frame:
  "i \<le> MAX_FRAMES \<Longrightarrow> i < total_frames s \<Longrightarrow> owners s (frame_addr i) = unat (refcount s i)"
  by (simp add: owners_def pmm_refcount_def frame_addr_base unsigned_ucast_eq
      take_bit_nat_eq_self_iff)
    (use unat_u8_less [of "refcount s i"] in simp)

lemma owners_zero_iff:
  "pmm_inv s \<Longrightarrow> i < total_frames s \<Longrightarrow> owners s (frame_addr i) = 0 \<longleftrightarrow> \<not> bit_test s i"
proof -
  assume a: "pmm_inv s" "i < total_frames s"
  then have "i \<le> MAX_FRAMES"
    by (rule index_le_max)
  with a show ?thesis
    by (simp add: owners_frame pmm_inv_def unat_eq_0)
qed

lemma in_pool_iff:
  assumes "pmm_inv s"
  shows "FRAME_OF p \<in> pool s \<longleftrightarrow> \<not> p < MANAGED_BASE \<and> frame_index p < total_frames s"
    and "\<not> p < MANAGED_BASE \<Longrightarrow> frame_index p < total_frames s \<Longrightarrow>
      FRAME_OF p = frame_addr (frame_index p)"
proof -
  have idx: "unat (frame_index p) = unat p div 4096 - 1024" if "\<not> p < MANAGED_BASE"
  proof -
    have "unat (frame_index p) = (unat p - 4194304) div 4096"
      using that by (simp add: frame_index_def PAGE_SIZE_def unat_div unat_sub_no_wrap not_less)
        (simp add: MANAGED_BASE_def)
    then show ?thesis
      by linarith
  qed
  have big: "1024 \<le> unat p div 4096 \<longleftrightarrow> \<not> p < MANAGED_BASE"
    by (simp add: MANAGED_BASE_def word_less_nat_alt) linarith
  show eq: "FRAME_OF p = frame_addr (frame_index p)"
    if "\<not> p < MANAGED_BASE" "frame_index p < total_frames s"
    using idx [OF that(1)] big that index_le_max [OF assms that(2)]
    by (simp add: word_unat_eq_iff unat_frame_addr unat_FRAME_OF)
  show "FRAME_OF p \<in> pool s \<longleftrightarrow> \<not> p < MANAGED_BASE \<and> frame_index p < total_frames s"
  proof
    assume "FRAME_OF p \<in> pool s"
    then obtain i where i: "FRAME_OF p = frame_addr i" "i < total_frames s" "i \<le> MAX_FRAMES"
      by (rule pool_cases [OF assms])
    then have d: "unat p div 4096 = 1024 + unat i"
      using unat_FRAME_OF [of p] unat_frame_addr [OF i(3)] by simp
    then have "\<not> p < MANAGED_BASE"
      using big by simp
    moreover have "frame_index p = i"
      using idx [OF calculation] d by (simp add: word_unat_eq_iff)
    ultimately show "\<not> p < MANAGED_BASE \<and> frame_index p < total_frames s"
      using i(2) by simp
  next
    assume "\<not> p < MANAGED_BASE \<and> frame_index p < total_frames s"
    with eq show "FRAME_OF p \<in> pool s"
      by (simp add: pool_def)
  qed
qed

lemma frame_addr_inj:
  "i \<le> MAX_FRAMES \<Longrightarrow> j \<le> MAX_FRAMES \<Longrightarrow> frame_addr i = frame_addr j \<longleftrightarrow> i = j"
  by (metis frame_index_frame_addr)

section \<open>What each operation does to the owners\<close>

text \<open>
  Every frame below the hint is in use, so the first pass finds the lowest free frame and the
  second one never finds any.
\<close>

lemma pmm_alloc_cases:
  assumes "pmm_inv s"
  obtains (frame) i where "pmm_alloc s = pmm_take s i" "i < total_frames s" "\<not> bit_test s i"
    "\<forall>j < i. bit_test s j"
  | (full) "pmm_alloc s = (0, s)" "\<forall>i < total_frames s. bit_test s i"
proof -
  let ?h = "next_hint s" and ?t = "total_frames s"
  have below: "bit_test s j" if "j < ?h" for j
    using assms that by (simp add: pmm_inv_def)
  have second: "pmm_scan s 0 ?h = None"
    using pmm_scan_Some [of s 0 ?h] below by (cases "pmm_scan s 0 ?h") auto
  show thesis
  proof (cases "?t = 0")
    case True
    then show thesis
      using full by (simp add: pmm_alloc_def)
  next
    case t0: False
    show thesis
    proof (cases "pmm_scan s ?h ?t")
      case (Some i)
      with t0 have "pmm_alloc s = pmm_take s i"
        by (simp add: pmm_alloc_def)
      moreover have "bit_test s j" if "j < i" for j
        using pmm_scan_Some [OF Some] below [of j] that by (cases "?h \<le> j") auto
      ultimately show thesis
        using frame pmm_scan_Some [OF Some] by blast
    next
      case None
      then have "bit_test s i" if "i < ?t" for i
        using pmm_scan_None [OF None, of i] below [of i] that by (cases "?h \<le> i") auto
      moreover have "pmm_alloc s = (0, s)"
        using t0 None second by (simp add: pmm_alloc_def)
      ultimately show thesis
        using full by blast
    qed
  qed
qed

lemma pmm_take_nonzero: "i \<le> MAX_FRAMES \<Longrightarrow> fst (pmm_take s i) \<noteq> 0"
  using unat_frame_addr [of i] by (auto simp: pmm_take_fields frame_addr_def)

lemma pmm_alloc_inv: "pmm_inv s \<Longrightarrow> pmm_inv (snd (pmm_alloc s))"
  by (cases rule: pmm_alloc_cases [of s]) (simp_all add: pmm_take_inv)

lemma pmm_alloc_total: "pmm_inv s \<Longrightarrow> total_frames (snd (pmm_alloc s)) = total_frames s"
  by (erule pmm_alloc_cases) (auto simp: pmm_take_fields)

lemma pmm_free_total: "total_frames (pmm_free p s) = total_frames s"
  by (simp add: pmm_free_def Let_def)

lemma pmm_incref_total: "total_frames (pmm_incref p s) = total_frames s"
  by (simp add: pmm_incref_def Let_def)

lemma pmm_alloc_fresh:
  assumes "pmm_inv s" "pmm_alloc s = (p, t)" "p \<noteq> 0"
  shows "p \<in> pool s" "owners s p = 0"
    "\<And>q. q \<in> pool s \<Longrightarrow> owners t q = (if q = p then 1 else owners s q)"
proof -
  obtain i where i: "pmm_alloc s = pmm_take s i" "i < total_frames s" "\<not> bit_test s i"
    "\<forall>j < i. bit_test s j"
  proof (cases rule: pmm_alloc_cases [OF assms(1), case_names frame full])
    case full
    with assms(2,3) show thesis
      by simp
  qed (use that in blast)
  have p: "p = frame_addr i" and t: "t = snd (pmm_take s i)"
    using i(1) assms(2) by (auto simp: pmm_take_def frame_addr_def Let_def)
  show "p \<in> pool s"
    using i(2) p by (simp add: pool_def)
  show "owners s p = 0"
    using assms(1) i p by (simp add: owners_zero_iff)
  fix q
  assume "q \<in> pool s"
  then obtain j where j: "q = frame_addr j" "j < total_frames s" "j \<le> MAX_FRAMES"
    by (rule pool_cases [OF assms(1)])
  have "i \<le> MAX_FRAMES"
    using assms(1) i(2) by (rule index_le_max)
  then show "owners t q = (if q = p then 1 else owners s q)"
    using j p t by (auto simp: owners_frame pmm_take_fields frame_addr_inj)
qed

lemma pmm_alloc_none:
  assumes "pmm_inv s" "pmm_alloc s = (0, t)"
  shows "t = s" "\<And>q. q \<in> pool s \<Longrightarrow> owners s q \<noteq> 0"
proof -
  have all: "pmm_alloc s = (0, s) \<and> (\<forall>i < total_frames s. bit_test s i)"
  proof (rule pmm_alloc_cases [OF assms(1)])
    fix i
    assume i: "pmm_alloc s = pmm_take s i" "i < total_frames s"
    then have "fst (pmm_take s i) \<noteq> 0"
      using assms(1) by (simp add: pmm_take_nonzero index_le_max)
    with i(1) assms(2) show ?thesis
      by (metis fst_conv)
  qed simp
  then show "t = s"
    using assms(2) by simp
  fix q
  assume "q \<in> pool s"
  then show "owners s q \<noteq> 0"
    using all owners_zero_iff [OF assms(1)] by (auto simp: pool_def)
qed

lemma unat_u8_minus_1: "(w :: u8) \<noteq> 0 \<Longrightarrow> unat (w - 1) = unat w - 1"
  by (simp add: unat_minus_one)

lemma pmm_free_frame:
  assumes "pmm_inv s" "i < total_frames s" "bit_test s i"
  shows "pmm_free (frame_addr i) s =
     (if refcount s i > 1 then s\<lparr>refcount := (refcount s)(i := refcount s i - 1)\<rparr>
      else (bit_clear (s\<lparr>refcount := (refcount s)(i := 0)\<rparr>) i)
        \<lparr>used_frames := used_frames s - 1,
         next_hint := (if i < next_hint s then i else next_hint s)\<rparr>)"
  using assms index_le_max [OF assms(1,2)]
  by (simp add: pmm_free_def frame_addr_base Let_def not_le)

lemma pmm_free_ignored:
  assumes "i \<le> MAX_FRAMES" "\<not> bit_test s i"
  shows "pmm_free (frame_addr i) s = s"
  using assms by (simp add: pmm_free_def Let_def)

text \<open>The address a caller passes is reduced to its frame; anything below the pool is ignored.\<close>

lemma pmm_free_reduce:
  assumes "\<not> phys < MANAGED_BASE" "frame_index phys \<le> MAX_FRAMES"
  shows "pmm_free phys s = pmm_free (frame_addr (frame_index phys)) s"
  using assms by (simp add: pmm_free_def frame_addr_base)

lemma pmm_free_frame_inv:
  assumes inv: "pmm_inv s" and i: "i < total_frames s" "bit_test s i"
  shows "pmm_inv (pmm_free (frame_addr i) s)"
proof (cases "refcount s i > 1")
  case True
  then have "refcount s i - 1 \<noteq> 0"
    by auto
  then show ?thesis
    using inv i True unfolding pmm_free_frame [OF inv i]
    by (auto simp: pmm_inv_def used_set_def)
next
  case False
  let ?t = "pmm_free (frame_addr i) s"
  have t: "bit_test ?t j \<longleftrightarrow> j \<noteq> i \<and> bit_test s j" "refcount ?t = (refcount s)(i := 0)"
    "total_frames ?t = total_frames s" "used_frames ?t = used_frames s - 1"
    "next_hint ?t = (if i < next_hint s then i else next_hint s)" for j
    using False by (simp_all add: pmm_free_frame [OF inv i])
  have used: "used_set ?t = used_set s - {i}" and mem: "i \<in> used_set s"
    using i by (auto simp: used_set_def t)
  have fin: "finite (used_set s)"
    by (rule finite_subset [OF subset_UNIV]) simp
  then have pos: "0 < card (used_set s)"
    using mem by (auto simp: card_gt_0_iff)
  then have "unat (used_frames s - 1) = card (used_set s) - 1"
    using inv by (subst unat_minus_one) (auto simp: pmm_inv_def unat_eq_0)
  then have "unat (used_frames ?t) = card (used_set ?t)"
    using mem fin by (simp add: used t)
  moreover have "next_hint ?t \<le> total_frames s"
    using inv i(1) by (auto simp: t pmm_inv_def)
  ultimately show ?thesis
    using inv by (auto simp: pmm_inv_def t)
qed

lemma pmm_free_inv: "pmm_inv s \<Longrightarrow> pmm_inv (pmm_free phys s)"
proof (cases "phys < MANAGED_BASE \<or> frame_index phys \<ge> total_frames s
    \<or> \<not> bit_test s (frame_index phys)")
  case False
  assume inv: "pmm_inv s"
  with False have "pmm_free phys s = pmm_free (frame_addr (frame_index phys)) s"
    by (simp add: pmm_free_reduce index_le_max not_le)
  with inv False show ?thesis
    by (simp add: pmm_free_frame_inv not_le)
qed (auto simp: pmm_free_def Let_def)

lemma pmm_incref_inv: "pmm_inv s \<Longrightarrow> pmm_inv (pmm_incref phys s)"
proof (cases "phys < MANAGED_BASE \<or> \<not> (frame_index phys < total_frames s
    \<and> bit_test s (frame_index phys) \<and> refcount s (frame_index phys) < 255)")
  case False
  let ?i = "frame_index phys"
  assume inv: "pmm_inv s"
  have "refcount s ?i + 1 \<noteq> 0"
    using False by (auto simp: word_less_nat_alt unat_word_ariths word_unat_eq_iff)
  with inv False show ?thesis
    by (auto simp: pmm_incref_def Let_def pmm_inv_def used_set_def)
qed (auto simp: pmm_incref_def Let_def)

lemma pmm_free_owners:
  assumes inv: "pmm_inv s" and p: "p \<in> pool s" and q: "q \<in> pool s"
  shows "owners (pmm_free p s) q = (if q = p then owners s q - 1 else owners s q)"
proof -
  obtain i where i: "p = frame_addr i" "i < total_frames s" "i \<le> MAX_FRAMES"
    using inv p by (rule pool_cases)
  obtain j where j: "q = frame_addr j" "j < total_frames s" "j \<le> MAX_FRAMES"
    using inv q by (rule pool_cases)
  show ?thesis
  proof (cases "bit_test s i")
    case True
    then have "refcount s i \<noteq> 0"
      using inv i by (simp add: pmm_inv_def)
    moreover have "unat (refcount s i) - 1 = 0" if "\<not> refcount s i > 1"
      using that by (simp add: word_less_nat_alt)
    ultimately show ?thesis
      using i j True
      by (simp add: owners_frame frame_addr_inj pmm_free_frame [OF inv i(2) True]
          unat_u8_minus_1)
  next
    case False
    then have "owners s p = 0"
      using owners_zero_iff [OF inv i(2)] i by simp
    then show ?thesis
      using i False by (simp add: pmm_free_ignored)
  qed
qed

lemma pmm_incref_owners:
  assumes inv: "pmm_inv s" and p: "p \<in> pool s" and q: "q \<in> pool s"
  shows "owners (pmm_incref p s) q =
    (if q = p \<and> 0 < owners s p \<and> owners s p < 255 then owners s q + 1 else owners s q)"
proof -
  obtain i where i: "p = frame_addr i" "i < total_frames s" "i \<le> MAX_FRAMES" "\<not> p < MANAGED_BASE"
    using inv p by (rule pool_cases)
  obtain j where j: "q = frame_addr j" "j < total_frames s" "j \<le> MAX_FRAMES"
    using inv q by (rule pool_cases)
  have b: "bit_test s i \<longleftrightarrow> 0 < owners s p"
    using owners_zero_iff [OF inv i(2)] i(1) by auto
  have c: "refcount s i < 255 \<longleftrightarrow> owners s p < 255"
    using i by (simp add: owners_frame word_less_nat_alt)
  have "unat (refcount s i + 1) = unat (refcount s i) + 1" if "refcount s i < 255"
    using that by (simp add: unat_word_ariths word_less_nat_alt)
  then show ?thesis
    using i j b c by (auto simp: pmm_incref_def Let_def owners_frame frame_addr_inj)
qed

section \<open>The allocator's contract\<close>

text \<open>
  What the memory managers above rely on: a pool of frames, each with a number of owners; a frame
  handed out had none, sharing adds one, releasing takes one away, and the pool never changes.
\<close>

locale frame_pool =
  fixes inv :: "'s \<Rightarrow> bool"
    and frames :: "'s \<Rightarrow> u32 set"
    and owned :: "'s \<Rightarrow> u32 \<Rightarrow> nat"
    and alloc :: "'s \<Rightarrow> u32 \<times> 's"
    and release :: "u32 \<Rightarrow> 's \<Rightarrow> 's"
    and share :: "u32 \<Rightarrow> 's \<Rightarrow> 's"
  assumes frames_nonzero: "inv s \<Longrightarrow> p \<in> frames s \<Longrightarrow> p \<noteq> 0"
    and frames_finite: "finite (frames s)"
    and alloc_keeps: "inv s \<Longrightarrow> inv (snd (alloc s)) \<and> frames (snd (alloc s)) = frames s"
    and alloc_fresh: "inv s \<Longrightarrow> alloc s = (p, t) \<Longrightarrow> p \<noteq> 0 \<Longrightarrow> p \<in> frames s \<and> owned s p = 0"
    and alloc_owned: "inv s \<Longrightarrow> alloc s = (p, t) \<Longrightarrow> p \<noteq> 0 \<Longrightarrow> q \<in> frames s \<Longrightarrow>
      owned t q = (if q = p then 1 else owned s q)"
    and alloc_none: "inv s \<Longrightarrow> alloc s = (0, t) \<Longrightarrow> t = s \<and> (\<forall>q \<in> frames s. owned s q \<noteq> 0)"
    and release_keeps: "inv s \<Longrightarrow> inv (release p s) \<and> frames (release p s) = frames s"
    and release_owned: "inv s \<Longrightarrow> p \<in> frames s \<Longrightarrow> q \<in> frames s \<Longrightarrow>
      owned (release p s) q = (if q = p then owned s q - 1 else owned s q)"
    and share_keeps: "inv s \<Longrightarrow> inv (share p s) \<and> frames (share p s) = frames s"
    and share_owned: "inv s \<Longrightarrow> p \<in> frames s \<Longrightarrow> q \<in> frames s \<Longrightarrow> 0 < owned s p \<Longrightarrow>
      owned s p < 255 \<Longrightarrow> owned (share p s) q = (if q = p then owned s q + 1 else owned s q)"
begin

definition free_frames :: "'s \<Rightarrow> u32 set" where
  "free_frames s = {p \<in> frames s. owned s p = 0}"

lemma finite_free: "finite (free_frames s)"
  using frames_finite [of s] by (simp add: free_frames_def)

lemma alloc_free_frames:
  assumes "inv s" "alloc s = (p, t)" "p \<noteq> 0"
  shows "free_frames t = free_frames s - {p}" "p \<in> free_frames s"
proof -
  have f: "frames t = frames s"
    using alloc_keeps [OF assms(1)] assms(2) by simp
  show "free_frames t = free_frames s - {p}"
    using alloc_owned [OF assms] by (auto simp: free_frames_def f split: if_splits)
  show "p \<in> free_frames s"
    using alloc_fresh [OF assms] by (simp add: free_frames_def)
qed

lemma alloc_card:
  assumes "inv s" "alloc s = (p, t)" "p \<noteq> 0"
  shows "card (free_frames t) + 1 = card (free_frames s)"
  using alloc_free_frames [OF assms] finite_free [of s]
  by (metis Suc_eq_plus1 card_Suc_Diff1)

lemma alloc_succeeds_iff: "inv s \<Longrightarrow> fst (alloc s) \<noteq> 0 \<longleftrightarrow> free_frames s \<noteq> {}"
proof (cases "alloc s")
  case (Pair p t)
  assume "inv s"
  then show ?thesis
    using Pair alloc_none [of s t] alloc_free_frames [of s p t]
    by (cases "p = 0") (auto simp: free_frames_def)
qed

lemma release_last:
  assumes "inv s" "p \<in> frames s" "owned s p = 1"
  shows "free_frames (release p s) = insert p (free_frames s)"
  using assms release_keeps [OF assms(1), of p] release_owned [OF assms(1,2)]
  by (auto simp: free_frames_def split: if_splits)

lemma release_shared:
  assumes "inv s" "p \<in> frames s" "owned s p \<noteq> 1"
  shows "free_frames (release p s) = free_frames s"
  using assms release_keeps [OF assms(1), of p] release_owned [OF assms(1,2)]
  by (auto simp: free_frames_def split: if_splits)

text \<open>Allocating and giving back leaves every owner count as it was.\<close>

lemma alloc_release:
  assumes "inv s" "alloc s = (p, t)" "p \<noteq> 0" "q \<in> frames s"
  shows "owned (release p t) q = owned s q"
proof -
  have t: "inv t" "frames t = frames s"
    using alloc_keeps [OF assms(1)] assms(2) by simp_all
  then show ?thesis
    using assms alloc_fresh [OF assms(1-3)] alloc_owned [OF assms(1-3)] release_owned [of t p q]
    by simp
qed

lemma share_release:
  assumes "inv s" "p \<in> frames s" "q \<in> frames s" "0 < owned s p" "owned s p < 255"
  shows "owned (release p (share p s)) q = owned s q"
  using assms share_keeps [OF assms(1), of p] release_owned [of "share p s" p q]
  by (simp add: share_owned)

end

lemma finite_pool: "finite (pool s)"
  by (simp add: pool_def)

interpretation fp: frame_pool pmm_inv pool owners pmm_alloc pmm_free pmm_incref
proof unfold_locales
  show "pmm_inv s \<Longrightarrow> pmm_inv (snd (pmm_alloc s)) \<and> pool (snd (pmm_alloc s)) = pool s" for s
    by (simp add: pmm_alloc_inv pool_def pmm_alloc_total)
  show "pmm_inv s \<Longrightarrow> pmm_inv (pmm_free p s) \<and> pool (pmm_free p s) = pool s" for s p
    by (simp add: pmm_free_inv pool_def pmm_free_total)
  show "pmm_inv s \<Longrightarrow> pmm_inv (pmm_incref p s) \<and> pool (pmm_incref p s) = pool s" for s p
    by (simp add: pmm_incref_inv pool_def pmm_incref_total)
  show "p \<in> pool s \<and> owners s p = 0"
    if "pmm_inv s" "pmm_alloc s = (p, t)" "p \<noteq> 0" for s p t
    using pmm_alloc_fresh(1,2) [OF that] by blast
  show "t = s \<and> (\<forall>q \<in> pool s. owners s q \<noteq> 0)"
    if "pmm_inv s" "pmm_alloc s = (0, t)" for s t
    using pmm_alloc_none [OF that] by blast
  show "owners t q = (if q = p then 1 else owners s q)"
    if "pmm_inv s" "pmm_alloc s = (p, t)" "p \<noteq> 0" "q \<in> pool s" for s p t q
    using pmm_alloc_fresh(3) [OF that] .
  show "owners (pmm_incref p s) q = (if q = p then owners s q + 1 else owners s q)"
    if "pmm_inv s" "p \<in> pool s" "q \<in> pool s" "0 < owners s p" "owners s p < 255" for s p q
    using pmm_incref_owners [OF that(1-3)] that(4,5) by simp
qed (simp_all add: pool_nonzero finite_pool pmm_free_owners)

section \<open>Properties\<close>

lemma pmm_free_frames_card:
  assumes "pmm_inv s"
  shows "unat (pmm_free_frames s) = card (fp.free_frames s)"
proof -
  let ?T = "{i. i < total_frames s}"
  have le: "used_frames s \<le> total_frames s"
    using assms card_used_le [of s] by (simp add: pmm_inv_def word_le_nat_alt)
  have "fp.free_frames s = frame_addr ` (?T - used_set s)"
    using owners_zero_iff [OF assms]
    by (auto simp: fp.free_frames_def pool_def used_set_def)
  moreover have "inj_on frame_addr (?T - used_set s)"
    using index_le_max [OF assms] by (auto intro!: inj_onI simp: frame_addr_inj)
  ultimately have "card (fp.free_frames s) = card (?T - used_set s)"
    by (simp add: card_image)
  also have "\<dots> = unat (total_frames s) - card (used_set s)"
    using used_set_subset [of s] by (subst card_Diff_subset) (auto simp: card_below finite_subset)
  finally show ?thesis
    using assms le by (simp add: pmm_free_frames_def unat_sub_no_wrap pmm_inv_def)
qed

text \<open>
  C16: \<open>pmm_alloc\<close> is correct on both of its outcomes.  It returns 0 exactly when no frame is
  free, and then changes nothing; otherwise it returns a page-aligned frame inside the managed
  range that nobody owned, the lowest such frame, gives it one owner, leaves every other frame's
  owner count alone and lowers the number of free frames by one.
\<close>

theorem pmm_alloc_correct:
  assumes "pmm_inv s" "pmm_alloc s = (p, t)"
  shows "pmm_inv t \<and>
    (if p = 0 then t = s \<and> pmm_free_frames s = 0
     else p \<in> pool s \<and> page_aligned p \<and> MANAGED_BASE \<le> p \<and>
       owners s p = 0 \<and> (\<forall>q \<in> pool s. owners s q = 0 \<longrightarrow> p \<le> q) \<and>
       owners t p = 1 \<and> (\<forall>q \<in> pool s - {p}. owners t q = owners s q) \<and>
       unat (pmm_free_frames s) = unat (pmm_free_frames t) + 1)"
proof (cases rule: pmm_alloc_cases [OF assms(1), case_names frame full])
  case full
  then have "fp.free_frames s = {}"
    using owners_zero_iff [OF assms(1)] by (auto simp: fp.free_frames_def pool_def)
  then have "pmm_free_frames s = 0"
    using pmm_free_frames_card [OF assms(1)] by (simp add: unat_eq_0)
  then show ?thesis
    using full assms by simp
next
  case (frame i)
  have i: "i \<le> MAX_FRAMES"
    using assms(1) frame(2) by (rule index_le_max)
  have p: "p = frame_addr i"
    using frame(1) assms(2) by (simp add: pmm_take_def frame_addr_def Let_def)
  have nz: "p \<noteq> 0"
    using frame(1) assms(2) pmm_take_nonzero [OF i, of s] by (metis fst_conv)
  have t: "pmm_inv t"
    using pmm_alloc_inv [OF assms(1)] assms(2) by simp
  have low: "p \<le> q" if q: "q \<in> pool s" "owners s q = 0" for q
  proof -
    obtain j where j: "q = frame_addr j" "j < total_frames s" "j \<le> MAX_FRAMES"
      using assms(1) q(1) by (rule pool_cases)
    then have "\<not> bit_test s j"
      using q(2) owners_zero_iff [OF assms(1)] by simp
    then have "i \<le> j"
      using frame(4) by (meson not_le)
    then show ?thesis
      using i j p by (simp add: word_le_nat_alt unat_frame_addr)
  qed
  have "unat (pmm_free_frames s) = unat (pmm_free_frames t) + 1"
    using fp.alloc_card [OF assms nz] assms(1) t by (simp add: pmm_free_frames_card)
  then show ?thesis
    using nz t low pmm_alloc_fresh [OF assms nz] pool_aligned [OF assms(1)] frame_addr_base [OF i] p
    by (auto simp: not_less)
qed

text \<open>Witness: a machine with 8 MB, the size the kernel passes at boot.\<close>

theorem pmm_alloc_correct_witness:
  "pmm_inv (pmm_install 0x00800000) \<and>
   pmm_inv (snd (pmm_alloc (pmm_install 0x00800000))) \<and>
   fst (pmm_alloc (pmm_install 0x00800000)) = 0x00400000 \<and>
   owners (snd (pmm_alloc (pmm_install 0x00800000))) 0x00400000 = 1"
proof -
  let ?s = "pmm_install 0x00800000"
  have p: "fst (pmm_alloc ?s) = 0x00400000"
    by (simp add: pmm_alloc_def pmm_install_def pmm_scan.simps bit_test_def pmm_take_def Let_def
        MANAGED_BASE_def PAGE_SIZE_def MAX_FRAMES_def)
  then have "pmm_alloc ?s = (0x00400000, snd (pmm_alloc ?s))"
    by (metis prod.collapse)
  from pmm_alloc_correct [OF pmm_install_inv this] p show ?thesis
    by (simp add: pmm_install_inv)
qed

lemma pmm_free_to_frame:
  assumes "pmm_inv s"
  shows "FRAME_OF phys \<in> pool s \<Longrightarrow> pmm_free phys s = pmm_free (FRAME_OF phys) s"
    and "FRAME_OF phys \<notin> pool s \<Longrightarrow> pmm_free phys s = s"
  using in_pool_iff [OF assms, of phys] index_le_max [OF assms, of "frame_index phys"]
  by (auto simp: pmm_free_reduce) (auto simp: pmm_free_def Let_def not_less)

text \<open>
  C29: \<open>pmm_free\<close> takes exactly one owner from the frame that contains the address it is given,
  and from no other frame; the frame becomes free only when that was its last owner.  An address
  outside the pool (the kernel's own memory below 4 MB included) or a frame that is already free
  leaves the allocator untouched, so a double free is harmless.
\<close>

theorem pmm_free_correct:
  assumes "pmm_inv s"
  shows "pmm_inv (pmm_free phys s) \<and>
    (\<forall>q \<in> pool s. owners (pmm_free phys s) q =
       (if q = FRAME_OF phys then owners s q - 1 else owners s q)) \<and>
    unat (pmm_free_frames (pmm_free phys s)) = unat (pmm_free_frames s) +
       (if FRAME_OF phys \<in> pool s \<and> owners s (FRAME_OF phys) = 1 then 1 else 0) \<and>
    (FRAME_OF phys \<in> pool s \<and> owners s (FRAME_OF phys) \<noteq> 0 \<or> pmm_free phys s = s)"
proof (cases "FRAME_OF phys \<in> pool s")
  case False
  then show ?thesis
    using assms pmm_free_to_frame(2) [OF assms False] by auto
next
  case True
  let ?f = "FRAME_OF phys"
  have eq: "pmm_free phys s = pmm_free ?f s"
    using assms True by (rule pmm_free_to_frame(1))
  have noop: "pmm_free ?f s = s" if "owners s ?f = 0"
  proof -
    obtain i where "?f = frame_addr i" "i < total_frames s" "i \<le> MAX_FRAMES"
      using assms True by (rule pool_cases)
    then show ?thesis
      using that owners_zero_iff [OF assms, of i] by (simp add: pmm_free_ignored)
  qed
  have "card (fp.free_frames (pmm_free ?f s)) =
      card (fp.free_frames s) + (if owners s ?f = 1 then 1 else 0)"
  proof (cases "owners s ?f = 1")
    case one: True
    then have "?f \<notin> fp.free_frames s"
      by (simp add: fp.free_frames_def)
    then show ?thesis
      using one fp.release_last [OF assms True one] fp.finite_free [of s] by simp
  next
    case False
    then show ?thesis
      using fp.release_shared [OF assms True False] by simp
  qed
  then show ?thesis
    using assms True noop
    by (auto simp: eq pmm_free_inv pmm_free_owners pmm_free_frames_card)
qed

theorem pmm_free_correct_witness:
  "pmm_inv (pmm_install 0x00800000) \<and>
   pmm_free 0x00100000 (pmm_install 0x00800000) = pmm_install 0x00800000"
proof -
  have "FRAME_OF 0x00100000 \<notin> pool (pmm_install 0x00800000)"
    using in_pool_iff(1) [OF pmm_install_inv, of "0x00100000" "0x00800000"]
    by (simp add: MANAGED_BASE_def)
  then show ?thesis
    using pmm_free_correct [OF pmm_install_inv, of "0x00100000" "0x00800000"]
    by (simp add: pmm_install_inv)
qed

text \<open>The allocator's states: what boot and any sequence of calls can reach.\<close>

inductive pmm_reachable :: "pmm \<Rightarrow> bool" where
  install: "pmm_reachable (pmm_install n)"
| alloc: "pmm_reachable s \<Longrightarrow> pmm_reachable (snd (pmm_alloc s))"
| free: "pmm_reachable s \<Longrightarrow> pmm_reachable (pmm_free phys s)"
| incref: "pmm_reachable s \<Longrightarrow> pmm_reachable (pmm_incref phys s)"

text \<open>
  C7: whatever sequence of calls the kernel makes after \<open>pmm_install\<close>, the allocator keeps its
  invariant (array indices in range, bitmap and reference counts agreeing, search hint sound) and
  its statistics are exact: \<open>pmm_free_frames\<close> counts the frames without an owner and
  \<open>pmm_used_frames\<close> the others.
\<close>

theorem pmm_reachable_inv:
  assumes "pmm_reachable s"
  shows "pmm_inv s \<and>
    unat (pmm_free_frames s) = card {p \<in> pool s. owners s p = 0} \<and>
    unat (pmm_used_frames s) = card {p \<in> pool s. owners s p \<noteq> 0}"
proof -
  have inv: "pmm_inv s"
    using assms by (induction rule: pmm_reachable.induct)
      (simp_all add: pmm_install_inv pmm_alloc_inv pmm_free_inv pmm_incref_inv)
  have "{p \<in> pool s. owners s p \<noteq> 0} = frame_addr ` used_set s"
    using owners_zero_iff [OF inv] by (fastforce simp: pool_def used_set_def)
  moreover have "inj_on frame_addr (used_set s)"
    using index_le_max [OF inv] by (auto intro!: inj_onI simp: frame_addr_inj used_set_def)
  ultimately have "card {p \<in> pool s. owners s p \<noteq> 0} = unat (pmm_used_frames s)"
    using inv by (simp add: card_image pmm_inv_def pmm_used_frames_def)
  then show ?thesis
    using inv pmm_free_frames_card [OF inv] by (simp add: fp.free_frames_def)
qed

theorem pmm_reachable_inv_witness:
  "pmm_reachable (pmm_free 0x00400000 (snd (pmm_alloc (pmm_install 0x00800000)))) \<and>
   pmm_inv (pmm_free 0x00400000 (snd (pmm_alloc (pmm_install 0x00800000))))"
proof -
  have "pmm_reachable (pmm_free 0x00400000 (snd (pmm_alloc (pmm_install 0x00800000))))"
    by (intro pmm_reachable.intros)
  then show ?thesis
    using pmm_reachable_inv by blast
qed

end
