(* ===== verification/Paging.thy ===== *)
theory Paging
  imports Memory Pmm
begin

text \<open>
  The boot page tables of \<open>kernel/paging.c\<close> and the machine state the memory managers share.
  The three static tables live at addresses the linker chooses, so the addresses are fields of
  the state; that they are page aligned and distinct is the hypothesis \<open>boot_layout\<close>.  A TLB is
  not modelled: \<open>invlpg\<close> and the reload of CR3 have no effect beyond the CR3 value itself.
\<close>

abbreviation (input) PF_PRESENT :: u32 where "PF_PRESENT \<equiv> 0x1"
abbreviation (input) PF_RW :: u32 where "PF_RW \<equiv> 0x2"
abbreviation (input) PF_USER :: u32 where "PF_USER \<equiv> 0x4"
abbreviation (input) PF_COW :: u32 where "PF_COW \<equiv> 0x200"

abbreviation (input) USER_ZONE_START :: u32 where "USER_ZONE_START \<equiv> 0x00080000"
abbreviation (input) USER_ZONE_END :: u32 where "USER_ZONE_END \<equiv> 0x00100000"

record vm =
  ram :: mem
  cr0 :: u32
  cr3 :: u32
  pmm_st :: pmm
  kernel_dir :: u32
  page_directory :: u32
  first_page_table :: u32
  second_page_table :: u32

text \<open>Entry \<open>i\<close> of the table at \<open>t\<close>: the C expressions \<open>t[i]\<close> and \<open>t[i] = e\<close>.\<close>

definition get_entry :: "vm \<Rightarrow> u32 \<Rightarrow> u32 \<Rightarrow> u32" where
  "get_entry s t i = load32 (ram s) (t + 4 * i)"

definition set_entry :: "u32 \<Rightarrow> u32 \<Rightarrow> u32 \<Rightarrow> vm \<Rightarrow> vm" where
  "set_entry t i e s = s\<lparr>ram := store32 (ram s) (t + 4 * i) e\<rparr>"

text \<open>The indices \<open>a\<close>, ..., \<open>b - 1\<close> of a counting loop.\<close>

definition idx :: "nat \<Rightarrow> nat \<Rightarrow> u32 list" where
  "idx a b = map of_nat [a..<b]"

text \<open>The entries \<open>paging_install\<close> writes into the two boot tables.\<close>

definition first_entry :: "u32 \<Rightarrow> u32" where
  "first_entry i =
     (let addr = i * 0x1000;
          flags = PF_PRESENT OR PF_RW;
          flags = (if addr \<ge> USER_ZONE_START \<and> addr < USER_ZONE_END then flags OR PF_USER else flags)
      in addr OR flags)"

definition second_entry :: "u32 \<Rightarrow> u32" where
  "second_entry i = (0x00400000 + i * 0x1000) OR PF_PRESENT OR PF_RW"

definition paging_install :: "vm \<Rightarrow> vm" where
  "paging_install s =
     (let s = fold (\<lambda>i. set_entry (first_page_table s) i (first_entry i)) (idx 0 1024) s;
          s = fold (\<lambda>i. set_entry (second_page_table s) i (second_entry i)) (idx 0 1024) s;
          s = set_entry (page_directory s) 0
                (first_page_table s OR PF_PRESENT OR PF_RW OR PF_USER) s;
          s = set_entry (page_directory s) 1
                (second_page_table s OR PF_PRESENT OR PF_RW) s
      in s\<lparr>cr3 := page_directory s, cr0 := cr0 s OR 0x80010000\<rparr>)"

text \<open>
  The loop of \<open>paging_set_user_writable\<close>, from page \<open>a\<close> up to \<open>e\<close>.  Its guard repeats the clamp
  of \<open>e\<close> to the zone, which the caller has just applied: it is what makes the loop end.
\<close>

function set_writable_loop :: "u32 \<Rightarrow> u32 \<Rightarrow> bool \<Rightarrow> vm \<Rightarrow> vm" where
  "set_writable_loop a e w s =
     (if a < e \<and> e \<le> USER_ZONE_END
      then let i = drop_bit 12 a;
               x = get_entry s (first_page_table s) i AND NOT PF_RW;
               x = (if w then x OR PF_RW else x)
           in set_writable_loop (a + 0x1000) e w (set_entry (first_page_table s) i x s)
      else s)"
  by pat_completeness auto
termination
proof (relation "measure (\<lambda>(a, e, w, s). unat e - unat a)", goal_cases)
  case (2 a e w s x xa)
  then have "unat a < unat e" "unat e \<le> 1048576"
    by (simp_all add: word_less_nat_alt word_le_nat_alt)
  then show ?case
    by (simp add: unat_add_u32)
qed simp

declare set_writable_loop.simps [simp del]

definition paging_set_user_writable :: "u32 \<Rightarrow> u32 \<Rightarrow> bool \<Rightarrow> vm \<Rightarrow> vm" where
  "paging_set_user_writable addr len w s =
     (let start = addr AND NOT 0xFFF;
          e = (addr + len + 0xFFF) AND NOT 0xFFF;
          start = (if start < USER_ZONE_START then USER_ZONE_START else start);
          e = (if e > USER_ZONE_END then USER_ZONE_END else e)
      in set_writable_loop start e w s)"

definition paging_reset_user_zone :: "vm \<Rightarrow> vm" where
  "paging_reset_user_zone s =
     paging_set_user_writable USER_ZONE_START (USER_ZONE_END - USER_ZONE_START) True s"

text \<open>
  What the paging hardware allows: the walk of directory \<open>d\<close> for address \<open>v\<close>.  Ring 3 needs the
  user bit at both levels, a write needs the writable bit at both levels (in ring 0 too, since
  \<open>paging_install\<close> sets CR0.WP).
\<close>

definition walk_ok :: "vm \<Rightarrow> u32 \<Rightarrow> u32 \<Rightarrow> bool \<Rightarrow> bool \<Rightarrow> bool" where
  "walk_ok s d v user write =
     (let pd = get_entry s d (drop_bit 22 v);
          pt = get_entry s (FRAME_OF pd) (drop_bit 12 v AND 0x3FF)
      in bit pd 0 \<and> bit pt 0 \<and> (user \<longrightarrow> bit pd 2 \<and> bit pt 2) \<and> (write \<longrightarrow> bit pd 1 \<and> bit pt 1))"

definition walk_phys :: "vm \<Rightarrow> u32 \<Rightarrow> u32 \<Rightarrow> u32" where
  "walk_phys s d v =
     (let pd = get_entry s d (drop_bit 22 v);
          pt = get_entry s (FRAME_OF pd) (drop_bit 12 v AND 0x3FF)
      in FRAME_OF pt OR (v AND 0xFFF))"

section \<open>Entries\<close>

lemma set_entry_fields [simp]:
  "cr0 (set_entry t i e s) = cr0 s" "cr3 (set_entry t i e s) = cr3 s"
  "pmm_st (set_entry t i e s) = pmm_st s" "kernel_dir (set_entry t i e s) = kernel_dir s"
  "page_directory (set_entry t i e s) = page_directory s"
  "first_page_table (set_entry t i e s) = first_page_table s"
  "second_page_table (set_entry t i e s) = second_page_table s"
  by (simp_all add: set_entry_def)

lemma get_set_entry:
  "page_aligned t \<Longrightarrow> page_aligned u \<Longrightarrow> i < 1024 \<Longrightarrow> j < 1024 \<Longrightarrow>
   get_entry (set_entry t i e s) u j = (if t = u \<and> i = j then e else get_entry s u j)"
  by (simp add: get_entry_def set_entry_def load_store_entry)

lemma get_entry_upd [simp]:
  "get_entry (s\<lparr>cr0 := a\<rparr>) = get_entry s" "get_entry (s\<lparr>cr3 := b\<rparr>) = get_entry s"
  "get_entry (s\<lparr>pmm_st := c\<rparr>) = get_entry s" "get_entry (s\<lparr>kernel_dir := k\<rparr>) = get_entry s"
  by (simp_all add: get_entry_def fun_eq_iff)

lemma set_idx:
  assumes "a \<le> 1024" "b \<le> 1024"
  shows "set (idx a b) = {i. of_nat a \<le> i \<and> i < of_nat b}"
proof (intro equalityI subsetI)
  fix i
  assume "i \<in> {i. of_nat a \<le> i \<and> i < (of_nat b :: u32)}"
  then have "i \<in> of_nat ` {a..<b}"
    using assms by (intro image_eqI [of _ _ "unat i"])
      (auto simp: word_less_nat_alt word_le_nat_alt unat_of_nat_u32)
  then show "i \<in> set (idx a b)"
    by (simp add: idx_def)
qed (use assms in \<open>auto simp: idx_def word_less_nat_alt word_le_nat_alt unat_of_nat_u32\<close>)

lemma distinct_idx: "b \<le> 1024 \<Longrightarrow> distinct (idx a b)"
  by (auto simp: idx_def distinct_map intro!: inj_onI dest!: arg_cong [of _ _ unat]
      simp: unat_of_nat_u32)

lemma idx_Suc: "idx 0 (Suc n) = idx 0 n @ [of_nat n]"
  by (simp add: idx_def)

lemma of_nat_less_1024: "n < 1024 \<Longrightarrow> (of_nat n :: u32) < 1024"
  by (simp add: word_less_nat_alt unat_of_nat_u32)

lemma less_of_nat_Suc:
  "n < 1024 \<Longrightarrow> (j :: u32) < of_nat (Suc n) \<longleftrightarrow> j < of_nat n \<or> j = of_nat n"
  by (auto simp: word_less_nat_alt word_unat_eq_iff unat_of_nat_u32 less_Suc_eq simp del: of_nat_Suc)

lemma fold_set_entry_fields [simp]:
  "cr0 (fold (\<lambda>i. set_entry t i (f i)) is s) = cr0 s"
  "page_directory (fold (\<lambda>i. set_entry t i (f i)) is s) = page_directory s"
  "first_page_table (fold (\<lambda>i. set_entry t i (f i)) is s) = first_page_table s"
  "second_page_table (fold (\<lambda>i. set_entry t i (f i)) is s) = second_page_table s"
  "pmm_st (fold (\<lambda>i. set_entry t i (f i)) is s) = pmm_st s"
  "kernel_dir (fold (\<lambda>i. set_entry t i (f i)) is s) = kernel_dir s"
  by (induction "is" arbitrary: s) simp_all

lemma get_fold_set_entry:
  assumes "page_aligned t" "page_aligned u" "j < 1024"
  shows "n \<le> 1024 \<Longrightarrow> get_entry (fold (\<lambda>i. set_entry t i (f i)) (idx 0 n) s) u j =
    (if t = u \<and> j < of_nat n then f j else get_entry s u j)"
proof (induction n)
  case (Suc n)
  then have n: "n < 1024"
    by simp
  with Suc assms show ?case
    unfolding less_of_nat_Suc [OF n]
    by (auto simp: idx_Suc get_set_entry of_nat_less_1024)
qed (simp add: idx_def)

section \<open>The boot tables\<close>

text \<open>
  The linker places the three tables at distinct page-aligned addresses below the frame pool, and
  the startup code has cleared the directory (it is in \<open>.bss\<close>).
\<close>

definition boot_layout :: "vm \<Rightarrow> bool" where
  "boot_layout s \<longleftrightarrow>
     page_aligned (page_directory s) \<and> page_aligned (first_page_table s) \<and>
     page_aligned (second_page_table s) \<and>
     page_directory s < MANAGED_BASE \<and> first_page_table s < MANAGED_BASE \<and>
     second_page_table s < MANAGED_BASE \<and>
     distinct [page_directory s, first_page_table s, second_page_table s] \<and>
     (\<forall>i < 1024. get_entry s (page_directory s) i = 0)"

lemma paging_install_fields [simp]:
  "cr3 (paging_install s) = page_directory s"
  "page_directory (paging_install s) = page_directory s"
  "first_page_table (paging_install s) = first_page_table s"
  "second_page_table (paging_install s) = second_page_table s"
  "pmm_st (paging_install s) = pmm_st s" "kernel_dir (paging_install s) = kernel_dir s"
  by (simp_all add: paging_install_def Let_def)

lemma paging_install_entries:
  assumes "boot_layout s" "j < 1024"
  shows "get_entry (paging_install s) (page_directory s) j =
      (if j = 0 then first_page_table s OR PF_PRESENT OR PF_RW OR PF_USER
       else if j = 1 then second_page_table s OR PF_PRESENT OR PF_RW else 0)"
    and "get_entry (paging_install s) (first_page_table s) j = first_entry j"
    and "get_entry (paging_install s) (second_page_table s) j = second_entry j"
proof -
  have al: "page_aligned (page_directory s)" "page_aligned (first_page_table s)"
    "page_aligned (second_page_table s)"
    "page_directory s \<noteq> first_page_table s" "page_directory s \<noteq> second_page_table s"
    "first_page_table s \<noteq> second_page_table s"
    using assms(1) by (auto simp: boot_layout_def)
  show "get_entry (paging_install s) (page_directory s) j =
      (if j = 0 then first_page_table s OR PF_PRESENT OR PF_RW OR PF_USER
       else if j = 1 then second_page_table s OR PF_PRESENT OR PF_RW else 0)"
    using al assms by (simp add: paging_install_def Let_def get_set_entry get_fold_set_entry
        boot_layout_def)
  show "get_entry (paging_install s) (first_page_table s) j = first_entry j"
    using al assms(2) by (simp add: paging_install_def Let_def get_set_entry get_fold_set_entry)
  show "get_entry (paging_install s) (second_page_table s) j = second_entry j"
    using al assms(2) by (simp add: paging_install_def Let_def get_set_entry get_fold_set_entry)
qed

lemma unat_dir_index: "unat (drop_bit 22 (v :: u32)) = unat v div 4194304"
  by (simp add: unat_drop_bit_eq drop_bit_eq_div unat_div)

lemma unat_tab_index: "unat (drop_bit 12 v AND 0x3FF :: u32) = unat v div 4096 mod 1024"
proof -
  have "(0x3FF :: u32) = mask 10"
    by (simp add: mask_eq_exp_minus_1)
  then have "drop_bit 12 v AND 0x3FF = take_bit 10 (drop_bit 12 v)"
    by (simp only: take_bit_eq_mask)
  then have "unat (drop_bit 12 v AND 0x3FF) = take_bit 10 (unat (drop_bit 12 v))"
    by (simp only: unsigned_take_bit_eq)
  then show ?thesis
    by (simp add: take_bit_eq_mod unat_drop_bit_eq drop_bit_eq_div unat_div)
qed

lemma dir_index_less: "drop_bit 22 (v :: u32) < 1024"
  using unat_u32_less [of v] by (simp add: word_less_nat_alt unat_dir_index)

lemma tab_index_less: "(drop_bit 12 v AND 0x3FF :: u32) < 1024"
  by (simp add: word_less_nat_alt unat_tab_index)

lemma unat_page_number: "j < 1024 \<Longrightarrow> unat (j * 0x1000 :: u32) = unat j * 4096"
  by (simp add: unat_mult_u32 word_less_nat_alt)

lemma page_number_aligned: "j < 1024 \<Longrightarrow> page_aligned (j * 0x1000 :: u32)"
  by (simp add: page_aligned_unat unat_page_number)

lemma bits_of_page_number: "j < 1024 \<Longrightarrow> n < 12 \<Longrightarrow> \<not> bit (j * 0x1000 :: u32) n"
  using page_number_aligned [of j] by (simp add: page_aligned_bits)

lemma FRAME_OF_first_entry: "j < 1024 \<Longrightarrow> FRAME_OF (first_entry j) = j * 0x1000"
  by (auto simp: first_entry_def Let_def intro!: FRAME_OF_or_small page_number_aligned)

lemma bit_first_entry:
  assumes "j < 1024"
  shows "bit (first_entry j) 0" "bit (first_entry j) 1"
    "bit (first_entry j) 2 \<longleftrightarrow> USER_ZONE_START \<le> j * 0x1000 \<and> j * 0x1000 < USER_ZONE_END"
  using assms bits_of_page_number [of j] 
  by (auto simp: first_entry_def Let_def flag_simps bit_or_iff)

lemma second_page_aligned: "j < 1024 \<Longrightarrow> page_aligned (0x400000 + j * 0x1000 :: u32)"
  by (simp add: page_aligned_unat unat_add_u32 unat_page_number word_less_nat_alt)

lemma FRAME_OF_second_entry: "j < 1024 \<Longrightarrow> FRAME_OF (second_entry j) = 0x400000 + j * 0x1000"
  by (auto simp: second_entry_def or.assoc intro!: FRAME_OF_or_small second_page_aligned)

lemma bit_second_entry:
  assumes "j < 1024"
  shows "bit (second_entry j) 0" "bit (second_entry j) 1" "\<not> bit (second_entry j) 2"
  using assms second_page_aligned [of j]
  by (auto simp: second_entry_def flag_simps bit_or_iff page_aligned_bits)

text \<open>A boot address splits into its two indices.\<close>

lemma boot_index_cases:
  assumes "v < 0x800000"
  obtains (low) "drop_bit 22 v = 0" "unat v < 4194304" "(drop_bit 12 v AND 0x3FF) * 0x1000 = FRAME_OF v"
    | (high) "drop_bit 22 v = 1" "4194304 \<le> unat v"
        "0x400000 + (drop_bit 12 v AND 0x3FF) * 0x1000 = FRAME_OF v"
proof (cases "unat v < 4194304")
  case True
  then have "unat ((drop_bit 12 v AND 0x3FF) * 0x1000) = unat (FRAME_OF v)"
    by (simp add: unat_page_number tab_index_less unat_tab_index unat_FRAME_OF)
  with True show ?thesis
    by (intro low) (simp_all add: word_unat_eq_iff unat_dir_index)
next
  case False
  have v: "unat v < 8388608"
    using assms by (simp add: word_less_nat_alt)
  have "unat v div 4096 mod 1024 = unat v div 4096 - 1024" "1024 \<le> unat v div 4096"
    using False v by (simp_all add: mod_if [of "unat v div 4096"] mod_less)
  moreover have "unat (0x400000 + (drop_bit 12 v AND 0x3FF) * 0x1000) =
      4194304 + 4096 * (unat v div 4096 mod 1024)"
    by (simp add: unat_add_u32 unat_page_number tab_index_less unat_tab_index)
  ultimately have "unat (0x400000 + (drop_bit 12 v AND 0x3FF) * 0x1000) = unat (FRAME_OF v)"
    unfolding unat_FRAME_OF by arith
  moreover have "unat v div 4194304 = 1"
    using False v by simp
  ultimately show ?thesis
    using False by (intro high) (simp_all add: word_unat_eq_iff unat_dir_index)
qed

lemma dir_index_beyond: "\<not> v < 0x800000 \<Longrightarrow> drop_bit 22 (v :: u32) \<noteq> 0 \<and> drop_bit 22 v \<noteq> 1"
  by (auto simp: word_unat_eq_iff unat_dir_index word_less_nat_alt)

lemma user_zone_page:
  "USER_ZONE_START \<le> FRAME_OF v \<and> FRAME_OF v < USER_ZONE_END \<longleftrightarrow>
   USER_ZONE_START \<le> v \<and> v < USER_ZONE_END"
  by (auto simp: word_less_nat_alt word_le_nat_alt unat_FRAME_OF)

lemma FRAME_OF_entry: "page_aligned t \<Longrightarrow> FRAME_OF (t OR PF_PRESENT OR PF_RW OR PF_USER) = t"
  "page_aligned t \<Longrightarrow> FRAME_OF (t OR PF_PRESENT OR PF_RW) = t"
  by (simp_all add: or.assoc FRAME_OF_or_small)

lemma boot_dir_bits:
  assumes "page_aligned t"
  shows "bit (t OR PF_PRESENT OR PF_RW OR PF_USER) 0" "bit (t OR PF_PRESENT OR PF_RW OR PF_USER) 1"
    "bit (t OR PF_PRESENT OR PF_RW OR PF_USER) 2"
    "bit (t OR PF_PRESENT OR PF_RW) 0" "bit (t OR PF_PRESENT OR PF_RW) 1"
    "\<not> bit (t OR PF_PRESENT OR PF_RW) 2"
  using assms by (simp_all add: or_flags_bit_low or.assoc)

lemma walk_low:
  assumes "boot_layout s" "drop_bit 22 v = 0"
    "(drop_bit 12 v AND 0x3FF) * 0x1000 = FRAME_OF v"
  shows "walk_ok (paging_install s) (page_directory s) v user write \<longleftrightarrow>
      (user \<longrightarrow> USER_ZONE_START \<le> v \<and> v < USER_ZONE_END)"
    and "walk_phys (paging_install s) (page_directory s) v = v"
proof -
  have al: "page_aligned (first_page_table s)"
    using assms(1) by (simp add: boot_layout_def)
  have pd: "get_entry (paging_install s) (page_directory s) (drop_bit 22 v) =
      first_page_table s OR PF_PRESENT OR PF_RW OR PF_USER"
    unfolding paging_install_entries(1) [OF assms(1) dir_index_less] using assms(2) by simp
  have pt: "get_entry (paging_install s) (first_page_table s) (drop_bit 12 v AND 0x3FF) =
      first_entry (drop_bit 12 v AND 0x3FF)"
    by (rule paging_install_entries(2) [OF assms(1) tab_index_less])
  show "walk_ok (paging_install s) (page_directory s) v user write \<longleftrightarrow>
      (user \<longrightarrow> USER_ZONE_START \<le> v \<and> v < USER_ZONE_END)"
    unfolding walk_ok_def Let_def pd FRAME_OF_entry(1) [OF al] pt
      bit_first_entry(3) [OF tab_index_less] assms(3) user_zone_page
    using bit_first_entry [OF tab_index_less] boot_dir_bits [OF al] by blast
  show "walk_phys (paging_install s) (page_directory s) v = v"
    unfolding walk_phys_def Let_def pd FRAME_OF_entry(1) [OF al] pt
      FRAME_OF_first_entry [OF tab_index_less] assms(3) by (rule FRAME_OF_split)
qed

lemma walk_high:
  assumes "boot_layout s" "drop_bit 22 v = 1"
    "0x400000 + (drop_bit 12 v AND 0x3FF) * 0x1000 = FRAME_OF v"
  shows "walk_ok (paging_install s) (page_directory s) v user write \<longleftrightarrow> \<not> user"
    and "walk_phys (paging_install s) (page_directory s) v = v"
proof -
  have al: "page_aligned (second_page_table s)"
    using assms(1) by (simp add: boot_layout_def)
  have pd: "get_entry (paging_install s) (page_directory s) (drop_bit 22 v) =
      second_page_table s OR PF_PRESENT OR PF_RW"
    unfolding paging_install_entries(1) [OF assms(1) dir_index_less] using assms(2) by simp
  have pt: "get_entry (paging_install s) (second_page_table s) (drop_bit 12 v AND 0x3FF) =
      second_entry (drop_bit 12 v AND 0x3FF)"
    by (rule paging_install_entries(3) [OF assms(1) tab_index_less])
  show "walk_ok (paging_install s) (page_directory s) v user write \<longleftrightarrow> \<not> user"
    unfolding walk_ok_def Let_def pd FRAME_OF_entry(2) [OF al] pt
    using bit_second_entry [OF tab_index_less] boot_dir_bits [OF al] by blast
  show "walk_phys (paging_install s) (page_directory s) v = v"
    unfolding walk_phys_def Let_def pd FRAME_OF_entry(2) [OF al] pt
      FRAME_OF_second_entry [OF tab_index_less] assms(3) by (rule FRAME_OF_split)
qed

lemma walk_beyond:
  assumes "boot_layout s" "\<not> v < 0x800000"
  shows "\<not> walk_ok (paging_install s) (page_directory s) v user write"
  unfolding walk_ok_def Let_def paging_install_entries(1) [OF assms(1) dir_index_less]
  using dir_index_beyond [OF assms(2)] by simp

text \<open>
  C24.  Memory protection at boot.  \<open>paging_install\<close> turns on paging, with read-only pages binding the kernel too, and the
  directory in CR3 does what the comments in \<open>paging_install\<close> say: the first 4 MB are mapped to themselves, and of them ring 3 may
  touch exactly the user zone [0x80000, 0x100000); the frame pool from 4 to 8 MB is mapped to itself for the kernel only;
  above 8 MB every access faults.
\<close>

theorem paging_install_protection:
  assumes "boot_layout s"
  shows "bit (cr0 (paging_install s)) 31 \<and> bit (cr0 (paging_install s)) 16 \<and>
     (walk_ok (paging_install s) (cr3 (paging_install s)) v user write \<longleftrightarrow>
       (if v < 0x400000 then user \<longrightarrow> USER_ZONE_START \<le> v \<and> v < USER_ZONE_END
        else v < 0x800000 \<and> \<not> user)) \<and>
     (v < 0x800000 \<longrightarrow> walk_phys (paging_install s) (cr3 (paging_install s)) v = v)"
proof -
  have cr0: "bit (cr0 (paging_install s)) 31" "bit (cr0 (paging_install s)) 16"
    by (simp_all add: paging_install_def Let_def bit_or_iff)
  show ?thesis
  proof (cases "v < 0x800000")
    case True
    then show ?thesis
    proof (cases rule: boot_index_cases)
      case low
      with walk_low [OF assms low(1, 3)] True cr0 show ?thesis
        by (auto simp: word_less_nat_alt)
    next
      case high
      with walk_high [OF assms high(1, 3)] True cr0 show ?thesis
        by (simp add: word_less_nat_alt)
    qed
  next
    case False
    then have "\<not> v < 0x400000"
      by (auto simp: word_less_nat_alt)
    with walk_beyond [OF assms False] False cr0 show ?thesis
      by simp
  qed
qed

definition boot_vm :: vm where
  "boot_vm = \<lparr>ram = (\<lambda>_. 0), cr0 = 0, cr3 = 0, pmm_st = pmm_install 0x00800000, kernel_dir = 0,
     page_directory = 0x10000, first_page_table = 0x11000, second_page_table = 0x12000\<rparr>"

lemma boot_vm_layout: "boot_layout boot_vm"
  by (simp add: boot_layout_def boot_vm_def page_aligned_unat get_entry_def load32_def MANAGED_BASE_def)

theorem paging_install_protection_witness:
  "boot_layout boot_vm \<and>
   walk_ok (paging_install boot_vm) (cr3 (paging_install boot_vm)) 0x90123 True True \<and>
   \<not> walk_ok (paging_install boot_vm) (cr3 (paging_install boot_vm)) 0x400123 True False \<and>
   walk_phys (paging_install boot_vm) (cr3 (paging_install boot_vm)) 0x400123 = 0x400123"
  using boot_vm_layout paging_install_protection [OF boot_vm_layout, of "0x90123" True True]
    paging_install_protection [OF boot_vm_layout, of "0x400123" True False]
  by simp

section \<open>Write permission in the user zone\<close>

definition with_rw :: "bool \<Rightarrow> u32 \<Rightarrow> u32" where
  "with_rw w e = (if w then e AND NOT PF_RW OR PF_RW else e AND NOT PF_RW)"

lemma set_writable_loop_first [simp]:
  "first_page_table (set_writable_loop a e w s) = first_page_table s"
  by (induction a e w s rule: set_writable_loop.induct)
    (subst set_writable_loop.simps, auto simp: Let_def)

lemma get_set_writable_loop:
  assumes "page_aligned (first_page_table s)" "page_aligned u" "j < 1024"
    "page_aligned a" "page_aligned e" "e \<le> USER_ZONE_END"
  shows "get_entry (set_writable_loop a e w s) u j =
     (if u = first_page_table s \<and> a \<le> j * 0x1000 \<and> j * 0x1000 < e
      then with_rw w (get_entry s u j) else get_entry s u j)"
  using assms
proof (induction a e w s rule: set_writable_loop.induct)
  case (1 a e w s)
  show ?case
  proof (cases "a < e")
    case True
    have a: "unat a < unat e" "unat e \<le> 1048576"
      using True 1(7) by (simp_all add: word_less_nat_alt word_le_nat_alt)
    obtain k where k: "unat a = 4096 * k"
      using 1(5) by (rule page_aligned_obtain)
    have next_page: "page_aligned (a + 0x1000)" "unat (a + 0x1000) = 4096 * Suc k"
      using a k by (simp_all add: page_aligned_unat unat_add_u32)
    have i: "drop_bit 12 a < 1024" "unat (drop_bit 12 a) = k"
      using a k by (simp_all add: word_less_nat_alt unat_drop_bit_eq drop_bit_eq_div unat_div)
    have split: "a \<le> j * 0x1000 \<longleftrightarrow> j = drop_bit 12 a \<or> a + 0x1000 \<le> j * 0x1000"
      "\<not> a + 0x1000 \<le> drop_bit 12 a * 0x1000" "drop_bit 12 a * 0x1000 < e"
      using a k i next_page 1(4) unat_page_number [OF i(1)]
      by (auto simp: word_le_nat_alt word_less_nat_alt word_unat_eq_iff unat_page_number)
    define x where "x = with_rw w (get_entry s (first_page_table s) (drop_bit 12 a))"
    have step: "set_writable_loop a e w s =
        set_writable_loop (a + 0x1000) e w (set_entry (first_page_table s) (drop_bit 12 a) x s)"
      using True 1(7) by (subst set_writable_loop.simps) (simp add: Let_def x_def with_rw_def)
    have "get_entry (set_writable_loop a e w s) u j =
       (if u = first_page_table s \<and> a + 0x1000 \<le> j * 0x1000 \<and> j * 0x1000 < e
        then with_rw w (get_entry (set_entry (first_page_table s) (drop_bit 12 a) x s) u j)
        else get_entry (set_entry (first_page_table s) (drop_bit 12 a) x s) u j)"
      unfolding step
      using 1(1) [OF _ refl refl refl] True 1(2-7) next_page(1)
      by (simp add: x_def with_rw_def)
    then show ?thesis
      using split 1(2-4) i(1) by (auto simp: get_set_entry x_def)
  next
    case False
    then have "\<not> (a \<le> j * 0x1000 \<and> j * 0x1000 < e)"
      by auto
    with False show ?thesis
      by (subst set_writable_loop.simps) auto
  qed
qed

lemma mask_FRAME_OF: "x AND NOT 0xFFF = FRAME_OF x"
proof -
  have "(NOT 0xFFF :: u32) = 0xFFFFF000"
    by simp
  then show ?thesis
    by (simp only: FRAME_OF_def)
qed

text \<open>The pages whose entry \<open>paging_set_user_writable addr len\<close> rewrites.\<close>

definition zone_page :: "u32 \<Rightarrow> bool" where
  "zone_page j \<longleftrightarrow> 0x80 \<le> j \<and> j < 0x100"

definition touches :: "u32 \<Rightarrow> u32 \<Rightarrow> u32 \<Rightarrow> bool" where
  "touches addr len j \<longleftrightarrow>
     unat addr div 4096 \<le> unat j \<and> 4096 * unat j < unat addr + unat len"

lemma get_set_user_writable:
  assumes "page_aligned (first_page_table s)" "page_aligned u" "j < 1024"
  shows "get_entry (paging_set_user_writable addr len w s) u j =
     (if u = first_page_table s \<and> zone_page j \<and>
         FRAME_OF addr \<le> j * 0x1000 \<and> j * 0x1000 < FRAME_OF (addr + len + 0xFFF)
      then with_rw w (get_entry s u j) else get_entry s u j)"
proof -
  have zone: "zone_page j \<longleftrightarrow> USER_ZONE_START \<le> j * 0x1000 \<and> j * 0x1000 < USER_ZONE_END"
    using assms(3) by (auto simp: zone_page_def word_le_nat_alt word_less_nat_alt unat_page_number)
  let ?a = "if FRAME_OF addr < USER_ZONE_START then USER_ZONE_START else FRAME_OF addr"
  let ?e = "if FRAME_OF (addr + len + 0xFFF) > USER_ZONE_END then USER_ZONE_END
    else FRAME_OF (addr + len + 0xFFF)"
  have "page_aligned ?a" "page_aligned ?e" "?e \<le> USER_ZONE_END"
    by (auto simp: page_aligned_unat unat_FRAME_OF)
  from get_set_writable_loop [OF assms this, of w]
  have "get_entry (set_writable_loop ?a ?e w s) u j =
    (if u = first_page_table s \<and> ?a \<le> j * 0x1000 \<and> j * 0x1000 < ?e
     then with_rw w (get_entry s u j) else get_entry s u j)" .
  moreover have "?a \<le> x \<and> x < ?e \<longleftrightarrow> USER_ZONE_START \<le> x \<and> x < USER_ZONE_END \<and>
      FRAME_OF addr \<le> x \<and> x < FRAME_OF (addr + len + 0xFFF)" for x
    by auto
  ultimately show ?thesis
    unfolding paging_set_user_writable_def Let_def mask_FRAME_OF zone by simp
qed

lemma touches_frames:
  assumes "unat addr + unat len + 4095 < 4294967296" "j < 1024"
  shows "FRAME_OF addr \<le> j * 0x1000 \<and> j * 0x1000 < FRAME_OF (addr + len + 0xFFF) \<longleftrightarrow>
    touches addr len j"
proof -
  have "unat (addr + len + 0xFFF) = unat addr + unat len + 4095"
    using assms(1) by (simp add: unat_add_u32)
  moreover have "4096 * k < 4096 * ((n + 4095) div 4096) \<longleftrightarrow> 4096 * k < n" for k n :: nat
    by (cases "k < (n + 4095) div 4096") (auto simp: less_eq_div_iff_mult_less_eq not_less div_less_iff_less_mult)
  ultimately show ?thesis
    unfolding word_le_nat_alt word_less_nat_alt unat_FRAME_OF unat_page_number [OF assms(2)]
    by (simp add: touches_def mult.commute [of _ 4096])
qed

text \<open>
  \<open>paging_set_user_writable\<close> rewrites the writable bit of exactly the user-zone pages that
  the range touches.  No other entry of the low table and no entry of any other table changes,
  whatever the arguments (a range that wraps around the address space included), so the function
  can never alter a kernel mapping; and only the writable bit of an entry changes.
\<close>

theorem paging_set_user_writable_correct:
  assumes "page_aligned (first_page_table s)" "page_aligned u" "j < 1024"
  shows "(u \<noteq> first_page_table s \<or> \<not> zone_page j \<longrightarrow>
       get_entry (paging_set_user_writable addr len w s) u j = get_entry s u j) \<and>
     (\<forall>n. n \<noteq> 1 \<longrightarrow> (bit (get_entry (paging_set_user_writable addr len w s) u j) n \<longleftrightarrow>
       bit (get_entry s u j) n)) \<and>
     (unat addr + unat len + 4095 < 2 ^ 32 \<longrightarrow>
       (bit (get_entry (paging_set_user_writable addr len w s) u j) 1 \<longleftrightarrow>
        (if u = first_page_table s \<and> zone_page j \<and> touches addr len j
         then w else bit (get_entry s u j) 1)))"
proof -
  have rw: "bit (with_rw w e) n \<longleftrightarrow> (if n = 1 then w else bit e n)" for e n
  proof -
    have "bit (PF_RW :: u32) n \<longleftrightarrow> n = 1"
      using bit_exp_iff [where 'a = "32 word", of 1 n] by auto
    moreover have "n < 32" if "bit e n"
      using bit_imp_le_length [OF that] by simp
    ultimately show ?thesis
      by (auto simp only: with_rw_def bit_or_iff bit_and_iff bit_not_iff split: if_splits) simp_all
  qed
  show ?thesis
    unfolding get_set_user_writable [OF assms]
    using touches_frames [OF _ assms(3), of addr len] by (auto simp: rw split: if_splits)
qed

theorem paging_set_user_writable_correct_witness:
  "bit (get_entry (paging_set_user_writable 0x90010 8 True boot_vm) 0x11000 0x90) 1 \<and>
   get_entry (paging_set_user_writable 0x90010 8 True boot_vm) 0x11000 0x7F = 0"
  using paging_set_user_writable_correct [of boot_vm "0x11000" "0x90" "0x90010" 8 True]
    paging_set_user_writable_correct [of boot_vm "0x11000" "0x7F" "0x90010" 8 True]
  by (simp add: boot_vm_def page_aligned_unat zone_page_def touches_def get_entry_def load32_def)

end
