(* ===== verification/Elf.thy ===== *)
theory Elf
  imports Screen Paging
begin

text \<open>
  Loading programs, \<open>kernel/elf.c\<close> with \<open>kernel/elf.h\<close>.  The image is where the source has it, in
  memory at the address \<open>img\<close>, and every header field is read from its bytes.
\<close>

section \<open>Headers\<close>

definition load16 :: "mem \<Rightarrow> u32 \<Rightarrow> u16" where
  "load16 m a = ucast (m a) OR push_bit 8 (ucast (m (a + 1)))"

definition e_ident :: "mem \<Rightarrow> u32 \<Rightarrow> u32 \<Rightarrow> u8" where
  "e_ident m eh i = m (eh + i)"

definition e_type :: "mem \<Rightarrow> u32 \<Rightarrow> u16" where
  "e_type m eh = load16 m (eh + 16)"

definition e_machine :: "mem \<Rightarrow> u32 \<Rightarrow> u16" where
  "e_machine m eh = load16 m (eh + 18)"

definition e_entry :: "mem \<Rightarrow> u32 \<Rightarrow> u32" where
  "e_entry m eh = load32 m (eh + 24)"

definition e_phoff :: "mem \<Rightarrow> u32 \<Rightarrow> u32" where
  "e_phoff m eh = load32 m (eh + 28)"

definition e_phentsize :: "mem \<Rightarrow> u32 \<Rightarrow> u16" where
  "e_phentsize m eh = load16 m (eh + 42)"

definition e_phnum :: "mem \<Rightarrow> u32 \<Rightarrow> u16" where
  "e_phnum m eh = load16 m (eh + 44)"

definition EHDR_SIZE :: u32 where
  "EHDR_SIZE = 52"

definition PHDR_SIZE :: u32 where
  "PHDR_SIZE = 32"

text \<open>The program header \<open>ph[i]\<close>, by its address.\<close>

definition phdr :: "mem \<Rightarrow> u32 \<Rightarrow> nat \<Rightarrow> u32" where
  "phdr m img i = img + e_phoff m img + of_nat (i * 32)"

definition p_type :: "mem \<Rightarrow> u32 \<Rightarrow> u32" where
  "p_type m ph = load32 m ph"

definition p_offset :: "mem \<Rightarrow> u32 \<Rightarrow> u32" where
  "p_offset m ph = load32 m (ph + 4)"

definition p_vaddr :: "mem \<Rightarrow> u32 \<Rightarrow> u32" where
  "p_vaddr m ph = load32 m (ph + 8)"

definition p_filesz :: "mem \<Rightarrow> u32 \<Rightarrow> u32" where
  "p_filesz m ph = load32 m (ph + 16)"

definition p_memsz :: "mem \<Rightarrow> u32 \<Rightarrow> u32" where
  "p_memsz m ph = load32 m (ph + 20)"

definition p_flags :: "mem \<Rightarrow> u32 \<Rightarrow> u32" where
  "p_flags m ph = load32 m (ph + 24)"

definition PT_LOAD :: u32 where
  "PT_LOAD = 1"

definition PF_X :: u32 where
  "PF_X = 1"

definition PF_W :: u32 where
  "PF_W = 2"

datatype elf_status = ELF_OK | ELF_BAD_MAGIC | ELF_BAD_CLASS | ELF_BAD_TYPE | ELF_BAD_MACHINE
  | ELF_BAD_HEADERS | ELF_NO_SEGMENTS

section \<open>Validation\<close>

text \<open>The loop over the program headers; \<open>loadable\<close> counts the loadable ones.\<close>

fun validate_loop :: "mem \<Rightarrow> u32 \<Rightarrow> u32 \<Rightarrow> nat \<Rightarrow> nat list \<Rightarrow> elf_status" where
  "validate_loop m img sz loadable [] = (if loadable = 0 then ELF_NO_SEGMENTS else ELF_OK)"
| "validate_loop m img sz loadable (i # is) =
     (let ph = phdr m img i
      in if p_type m ph \<noteq> PT_LOAD then validate_loop m img sz loadable is
         else if p_memsz m ph < p_filesz m ph then ELF_BAD_HEADERS
         else let seg_end = (ucast (p_offset m ph) :: u64) + ucast (p_filesz m ph)
              in if seg_end > ucast sz then ELF_BAD_HEADERS
                 else validate_loop m img sz (loadable + 1) is)"

definition elf_validate :: "mem \<Rightarrow> u32 \<Rightarrow> u32 \<Rightarrow> elf_status" where
  "elf_validate m img sz =
     (if img = 0 \<or> sz < EHDR_SIZE then ELF_BAD_MAGIC
      else if e_ident m img 0 \<noteq> 0x7F \<or> e_ident m img 1 \<noteq> 0x45 \<or> e_ident m img 2 \<noteq> 0x4C \<or> e_ident m img 3 \<noteq> 0x46
      then ELF_BAD_MAGIC
      else if e_ident m img 4 \<noteq> 1 \<or> e_ident m img 5 \<noteq> 1 then ELF_BAD_CLASS
      else if e_type m img \<noteq> 2 then ELF_BAD_TYPE
      else if e_machine m img \<noteq> 3 then ELF_BAD_MACHINE
      else if e_phnum m img = 0 \<or> ucast (e_phentsize m img) \<noteq> PHDR_SIZE then ELF_NO_SEGMENTS
      else let ph_end = (ucast (e_phoff m img) :: u64) + ucast (e_phnum m img) * ucast (e_phentsize m img)
           in if ph_end > ucast sz then ELF_BAD_HEADERS
              else validate_loop m img sz 0 [0..<unat (e_phnum m img)])"

fun elf_status_name :: "elf_status \<Rightarrow> string" where
  "elf_status_name ELF_OK = ''ok''"
| "elf_status_name ELF_BAD_MAGIC = ''not an ELF file''"
| "elf_status_name ELF_BAD_CLASS = ''not 32-bit little-endian''"
| "elf_status_name ELF_BAD_TYPE = ''not an executable''"
| "elf_status_name ELF_BAD_MACHINE = ''wrong architecture''"
| "elf_status_name ELF_BAD_HEADERS = ''headers point outside the file''"
| "elf_status_name ELF_NO_SEGMENTS = ''nothing to load''"

definition dump_header :: "mem \<Rightarrow> u32 \<Rightarrow> console \<Rightarrow> console" where
  "dump_header m ph c =
     (if p_type m ph \<noteq> PT_LOAD then c
      else let c = kprint_hex (p_vaddr m ph) (kprint_lit ''  load '' c);
               c = kprint_dec (p_filesz m ph) (kprint_lit '' file '' c);
               c = kprint_dec (p_memsz m ph) (kprint_lit '' mem '' c);
               c = kprint_lit (if p_flags m ph AND PF_W \<noteq> 0 then '' rw'' else '' r-'') c;
               c = kprint_lit (if p_flags m ph AND PF_X \<noteq> 0 then ''x'' else ''-'') c;
               c = (if p_memsz m ph > p_filesz m ph
                    then kprint_lit '' bytes)'' (kprint_dec (p_memsz m ph - p_filesz m ph) (kprint_lit ''  (bss '' c))
                    else c)
           in kprint_char 0x0A c)"

definition elf_dump :: "mem \<Rightarrow> u32 \<Rightarrow> u32 \<Rightarrow> console \<Rightarrow> console" where
  "elf_dump m img sz c =
     (let st = elf_validate m img sz;
          c = kprint_char 0x0A (kprint_lit (elf_status_name st) (kprint_lit ''  validation: '' c))
      in if st \<noteq> ELF_OK then c
         else let c = kprint_hex (e_entry m img) (kprint_lit ''  entry point: '' c);
                  c = kprint_dec (ucast (e_phnum m img)) (kprint_lit '', '' c);
                  c = kprint_lit '' program headers\<newline>'' c
              in fold (\<lambda>i. dump_header m (phdr m img i)) [0..<unat (e_phnum m img)] c)"

section \<open>Loading\<close>

text \<open>A segment the loader has to place, and whether it lies inside the window.\<close>

definition loads :: "mem \<Rightarrow> u32 \<Rightarrow> bool" where
  "loads m ph \<longleftrightarrow> \<not> (p_type m ph \<noteq> PT_LOAD \<or> p_memsz m ph = 0)"

fun window_loop :: "mem \<Rightarrow> u32 \<Rightarrow> u32 \<Rightarrow> u32 \<Rightarrow> nat list \<Rightarrow> bool" where
  "window_loop m img lo hi [] \<longleftrightarrow> True"
| "window_loop m img lo hi (i # is) \<longleftrightarrow>
     (let ph = phdr m img i
      in if \<not> loads m ph then window_loop m img lo hi is
         else let start = ucast (p_vaddr m ph) :: u64; seg_end = start + ucast (p_memsz m ph)
              in if start < ucast lo \<or> seg_end > ucast hi then False
                 else window_loop m img lo hi is)"

definition load_segment :: "u32 \<Rightarrow> nat \<Rightarrow> mem \<Rightarrow> mem" where
  "load_segment img i m =
     (let ph = phdr m img i
      in if \<not> loads m ph then m
         else let dst = p_vaddr m ph; src = img + p_offset m ph;
                  m1 = memcpy m dst src (p_filesz m ph)
              in memset m1 (dst + p_filesz m1 ph) 0 (p_memsz m1 ph - p_filesz m1 ph))"

text \<open>The copying loop; \<open>e_phnum\<close> is read again in every round.\<close>

function load_loop :: "u32 \<Rightarrow> nat \<Rightarrow> mem \<Rightarrow> mem" where
  "load_loop img i m = (if i < unat (e_phnum m img) then load_loop img (i + 1) (load_segment img i m) else m)"
  by pat_completeness auto
termination
proof (relation "measure (\<lambda>(img, i, m). 65536 - i)")
  fix img i m
  assume "i < unat (e_phnum m img)"
  then show "((img, i + 1, load_segment img i m), (img, i, m)) \<in> measure (\<lambda>(img, i, m). 65536 - i)"
    using unsigned_less [of "e_phnum m img", where ?'a = nat] by simp
qed simp

text \<open>The result code, memory and, on success, the entry point.\<close>

definition elf_load :: "mem \<Rightarrow> u32 \<Rightarrow> u32 \<Rightarrow> u32 \<Rightarrow> u32 \<Rightarrow> int \<times> mem \<times> u32 option" where
  "elf_load m img sz lo hi =
     (if elf_validate m img sz \<noteq> ELF_OK then (- 1, m, None)
      else if \<not> window_loop m img lo hi [0..<unat (e_phnum m img)] then (- 2, m, None)
      else if e_entry m img < lo \<or> e_entry m img \<ge> hi then (- 3, m, None)
      else let m' = load_loop img 0 m
           in (0, m', Some (e_entry m' img)))"

definition protect_segment :: "u32 \<Rightarrow> nat \<Rightarrow> vm \<Rightarrow> vm" where
  "protect_segment img i s =
     (let ph = phdr (ram s) img i
      in if \<not> loads (ram s) ph then s
         else if p_flags (ram s) ph AND PF_W = 0
         then paging_set_user_writable (p_vaddr (ram s) ph) (p_memsz (ram s) ph) False s
         else s)"

function protect_loop :: "u32 \<Rightarrow> nat \<Rightarrow> vm \<Rightarrow> vm" where
  "protect_loop img i s =
     (if i < unat (e_phnum (ram s) img) then protect_loop img (i + 1) (protect_segment img i s) else s)"
  by pat_completeness auto
termination
proof (relation "measure (\<lambda>(img, i, s). 65536 - i)")
  fix img i and s :: vm
  assume "i < unat (e_phnum (ram s) img)"
  then show "((img, i + 1, protect_segment img i s), (img, i, s)) \<in> measure (\<lambda>(img, i, s). 65536 - i)"
    using unsigned_less [of "e_phnum (ram s) img", where ?'a = nat] by simp
qed simp

definition elf_protect :: "u32 \<Rightarrow> vm \<Rightarrow> vm" where
  "elf_protect img s = protect_loop img 0 s"

section \<open>Validation reads nothing outside the image\<close>

definition same_image :: "u32 \<Rightarrow> nat \<Rightarrow> mem \<Rightarrow> mem \<Rightarrow> bool" where
  "same_image img n m m' \<longleftrightarrow> (\<forall>x \<in> footprint img n. m' x = m x)"

lemma footprint_nat: "k + n \<le> sz \<Longrightarrow> sz \<le> 4294967296 \<Longrightarrow> footprint (a + of_nat k) n \<subseteq> footprint a sz"
proof (cases "n = 0")
  case False
  assume "k + n \<le> sz" "sz \<le> 4294967296"
  then show ?thesis
    using False by (intro footprint_sub) (simp add: unat_of_nat_u32)
qed (simp add: footprint_def)

lemma image_load32:
  assumes "same_image img sz m m'" "k + 4 \<le> sz" "sz \<le> 4294967296"
  shows "load32 m' (img + of_nat k) = load32 m (img + of_nat k)"
  by (rule load32_cong) (use assms footprint_nat [OF assms(2,3), of img] in \<open>auto simp: same_image_def\<close>)

lemma image_byte:
  assumes "same_image img sz m m'" "k < sz" "sz \<le> 4294967296"
  shows "m' (img + of_nat k) = m (img + of_nat k)"
proof -
  have "img + of_nat k \<in> footprint (img + of_nat k) 1"
    by (simp add: footprint_def)
  then show ?thesis
    using assms footprint_nat [of k 1 sz img] by (auto simp: same_image_def)
qed

lemma image_load16:
  assumes "same_image img sz m m'" "k + 2 \<le> sz" "sz \<le> 4294967296"
  shows "load16 m' (img + of_nat k) = load16 m (img + of_nat k)"
  using image_byte [OF assms(1) _ assms(3), of k] image_byte [OF assms(1) _ assms(3), of "k + 1"] assms(2)
  by (simp add: load16_def ac_simps)

lemma image_header:
  assumes "same_image img sz m m'" "52 \<le> sz" "sz \<le> 4294967296"
  shows "e_type m' img = e_type m img" "e_machine m' img = e_machine m img" "e_entry m' img = e_entry m img"
    "e_phoff m' img = e_phoff m img" "e_phentsize m' img = e_phentsize m img" "e_phnum m' img = e_phnum m img"
  using image_load16 [OF assms(1) _ assms(3), of 16] image_load16 [OF assms(1) _ assms(3), of 18]
    image_load32 [OF assms(1) _ assms(3), of 24] image_load32 [OF assms(1) _ assms(3), of 28]
    image_load16 [OF assms(1) _ assms(3), of 42] image_load16 [OF assms(1) _ assms(3), of 44] assms(2)
  by (simp_all add: e_type_def e_machine_def e_entry_def e_phoff_def e_phentsize_def e_phnum_def)

lemma image_ident:
  assumes "same_image img sz m m'" "52 \<le> sz" "sz \<le> 4294967296" "k < 16"
  shows "e_ident m' img (of_nat k) = e_ident m img (of_nat k)"
  using image_byte [OF assms(1) _ assms(3), of k] assms(2,4) by (simp add: e_ident_def)

text \<open>The program header table of a validated image lies inside it.\<close>

definition table_inside :: "mem \<Rightarrow> u32 \<Rightarrow> nat \<Rightarrow> bool" where
  "table_inside m img sz \<longleftrightarrow> unat (e_phoff m img) + 32 * unat (e_phnum m img) \<le> sz"

lemma phdr_of_nat: "phdr m img i + of_nat k = img + of_nat (unat (e_phoff m img) + 32 * i + k)"
  by (simp add: phdr_def)

lemma image_phdr:
  assumes s: "same_image img sz m m'" "52 \<le> sz" "sz \<le> 4294967296" and t: "table_inside m img sz" "i < unat (e_phnum m img)"
  shows "phdr m' img i = phdr m img i"
    "k + 4 \<le> 32 \<Longrightarrow> load32 m' (phdr m img i + of_nat k) = load32 m (phdr m img i + of_nat k)"
proof -
  show "phdr m' img i = phdr m img i"
    by (simp add: phdr_def image_header [OF s])
  assume "k + 4 \<le> 32"
  then have "unat (e_phoff m img) + 32 * i + k + 4 \<le> sz"
    using t by (simp add: table_inside_def)
  then show "load32 m' (phdr m img i + of_nat k) = load32 m (phdr m img i + of_nat k)"
    unfolding phdr_of_nat by (intro image_load32 [OF s(1) _ s(3)]) simp
qed

lemma image_segment:
  assumes "same_image img sz m m'" "52 \<le> sz" "sz \<le> 4294967296" "table_inside m img sz" "i < unat (e_phnum m img)"
  shows "p_type m' (phdr m img i) = p_type m (phdr m img i)" "p_offset m' (phdr m img i) = p_offset m (phdr m img i)"
    "p_vaddr m' (phdr m img i) = p_vaddr m (phdr m img i)" "p_filesz m' (phdr m img i) = p_filesz m (phdr m img i)"
    "p_memsz m' (phdr m img i) = p_memsz m (phdr m img i)" "p_flags m' (phdr m img i) = p_flags m (phdr m img i)"
    "loads m' (phdr m img i) = loads m (phdr m img i)"
  using image_phdr(2) [OF assms, of 0] image_phdr(2) [OF assms, of 4] image_phdr(2) [OF assms, of 8]
    image_phdr(2) [OF assms, of 16] image_phdr(2) [OF assms, of 20] image_phdr(2) [OF assms, of 24]
  by (simp_all add: p_type_def p_offset_def p_vaddr_def p_filesz_def p_memsz_def p_flags_def loads_def)

text \<open>The sums the source computes in 64 bits do not wrap.\<close>

lemma unat_ucast_u64:
  "unat (ucast (a :: u32) :: u64) = unat a" "unat (ucast (n :: u16) :: u64) = unat n"
  using unat_u32_less [of a] unsigned_less [of n, where ?'a = nat]
  by (simp_all add: unsigned_ucast_eq take_bit_nat_eq_self)

lemma unat_u64_add: "unat (ucast (a :: u32) + ucast (b :: u32) :: u64) = unat a + unat b"
  using unat_u32_less [of a] unat_u32_less [of b] by (simp add: unat_word_ariths unat_ucast_u64)

lemma u64_add_le: "(ucast (a :: u32) + ucast (b :: u32) :: u64) > ucast (c :: u32) \<longleftrightarrow> unat a + unat b > unat c"
  by (simp add: word_less_nat_alt unat_u64_add unat_ucast_u64)

lemma u64_table:
  "(ucast (a :: u32) + ucast (n :: u16) * ucast (k :: u16) :: u64) > ucast (c :: u32) \<longleftrightarrow> unat a + unat n * unat k > unat c"
proof -
  have "unat n * unat k < 65536 * 65536"
    using unsigned_less [of n, where ?'a = nat] unsigned_less [of k, where ?'a = nat] by (intro mult_strict_mono) auto
  then show ?thesis
    using unat_u32_less [of a] by (simp add: word_less_nat_alt unat_word_ariths unat_ucast_u64)
qed

lemma validate_loop_image:
  assumes "same_image img sz' m m'" "52 \<le> sz'" "sz' \<le> 4294967296" "table_inside m img sz'" "\<forall>i \<in> set is. i < unat (e_phnum m img)"
  shows "validate_loop m' img sz k is = validate_loop m img sz k is"
  using assms(5)
proof (induction "is" arbitrary: k)
  case (Cons i "is")
  then have i: "i < unat (e_phnum m img)"
    by simp
  show ?case
    using Cons by (simp add: Let_def image_phdr(1) [OF assms(1-4) i] image_segment [OF assms(1-4) i])
qed simp

lemma elf_validate_image:
  assumes "\<forall>x \<in> footprint img (unat sz). m' x = m x"
  shows "elf_validate m' img sz = elf_validate m img sz"
proof (cases "sz < EHDR_SIZE")
  case False
  then have sz: "52 \<le> unat sz" "unat sz \<le> 4294967296"
    using unat_u32_less [of sz] by (simp_all add: EHDR_SIZE_def word_less_nat_alt)
  have s: "same_image img (unat sz) m m'"
    using assms by (simp add: same_image_def)
  have id: "e_ident m' img 0 = e_ident m img 0" "e_ident m' img 1 = e_ident m img 1" "e_ident m' img 2 = e_ident m img 2"
    "e_ident m' img 3 = e_ident m img 3" "e_ident m' img 4 = e_ident m img 4" "e_ident m' img 5 = e_ident m img 5"
    using image_ident [OF s sz, of 0] image_ident [OF s sz, of 1] image_ident [OF s sz, of 2]
      image_ident [OF s sz, of 3] image_ident [OF s sz, of 4] image_ident [OF s sz, of 5] by simp_all
  have v: "validate_loop m' img sz 0 [0..<unat (e_phnum m img)] = validate_loop m img sz 0 [0..<unat (e_phnum m img)]"
    if "table_inside m img (unat sz)"
    using validate_loop_image [OF s sz that] by simp
  have t: "table_inside m img (unat sz)" if "\<not> (ucast (e_phoff m img) + ucast (e_phnum m img) * ucast (e_phentsize m img) :: u64) > ucast sz"
    "\<not> ucast (e_phentsize m img) \<noteq> PHDR_SIZE"
  proof -
    have "unat (e_phentsize m img) = 32"
      using that(2) unsigned_less [of "e_phentsize m img", where ?'a = nat]
      by (auto simp: PHDR_SIZE_def word_unat_eq_iff unsigned_ucast_eq take_bit_nat_eq_self)
    then show ?thesis
      using that(1) unfolding u64_table by (simp add: table_inside_def)
  qed
  show ?thesis
    unfolding elf_validate_def Let_def image_header [OF s sz] id using t v by simp
qed (simp add: elf_validate_def)

section \<open>What a valid image is\<close>

definition segment_ok :: "mem \<Rightarrow> u32 \<Rightarrow> nat \<Rightarrow> bool" where
  "segment_ok m ph n \<longleftrightarrow> (p_type m ph = PT_LOAD \<longrightarrow>
     unat (p_filesz m ph) \<le> unat (p_memsz m ph) \<and> unat (p_offset m ph) + unat (p_filesz m ph) \<le> n)"

lemma validate_loop_ok:
  "validate_loop m img sz k is = ELF_OK \<longleftrightarrow>
     (\<forall>i \<in> set is. segment_ok m (phdr m img i) (unat sz)) \<and> (0 < k \<or> (\<exists>i \<in> set is. p_type m (phdr m img i) = PT_LOAD))"
  by (induction m img sz k "is" rule: validate_loop.induct)
    (auto simp: Let_def segment_ok_def unat_u64_add unat_ucast_u64 word_less_nat_alt)

definition elf_valid :: "mem \<Rightarrow> u32 \<Rightarrow> nat \<Rightarrow> bool" where
  "elf_valid m img n \<longleftrightarrow> img \<noteq> 0 \<and> 52 \<le> n \<and>
     map (e_ident m img) [0, 1, 2, 3, 4, 5] = [0x7F, 0x45, 0x4C, 0x46, 1, 1] \<and> e_type m img = 2 \<and> e_machine m img = 3 \<and>
     e_phentsize m img = 32 \<and> table_inside m img n \<and>
     (\<forall>i < unat (e_phnum m img). segment_ok m (phdr m img i) n) \<and>
     (\<exists>i < unat (e_phnum m img). p_type m (phdr m img i) = PT_LOAD)"

lemma phentsize_32: "ucast (e_phentsize m img) = PHDR_SIZE \<longleftrightarrow> e_phentsize m img = 32"
  using unsigned_less [of "e_phentsize m img", where ?'a = nat]
  by (auto simp: PHDR_SIZE_def word_unat_eq_iff unsigned_ucast_eq take_bit_nat_eq_self)

lemma elf_validate_ok: "elf_validate m img sz = ELF_OK \<longleftrightarrow> elf_valid m img (unat sz)"
proof -
  have sz: "sz < EHDR_SIZE \<longleftrightarrow> \<not> 52 \<le> unat sz"
    by (auto simp: EHDR_SIZE_def word_less_nat_alt)
  have t: "\<not> unat sz < unat (e_phoff m img) + unat (e_phnum m img) * unat (e_phentsize m img) \<longleftrightarrow> table_inside m img (unat sz)"
    if "e_phentsize m img = 32"
    using that by (auto simp: table_inside_def)
  have z: "e_phnum m img = 0 \<Longrightarrow> \<not> (\<exists>i < unat (e_phnum m img). p_type m (phdr m img i) = PT_LOAD)"
    by simp
  show ?thesis
  proof (cases "e_phentsize m img = 32")
    case True
    note t = t [OF True]
    show ?thesis
      unfolding elf_validate_def elf_valid_def Let_def u64_table sz phentsize_32
      using z t True by (cases "e_phnum m img = 0"; cases "table_inside m img (unat sz)") (auto simp: validate_loop_ok)
  next
    case False
    then show ?thesis
      unfolding elf_validate_def elf_valid_def Let_def phentsize_32 by simp
  qed
qed

text \<open>
  C35.  Validation accepts exactly the well-formed images: an ELF file of the right class, byte order, type and
  machine whose program headers lie inside the image and have the right size, with at least one loadable segment, each
  of which lies inside the image and is no larger in the file than in memory.  And it never reads past the
  image: its verdict is the same in any two memories that agree on the \<open>size\<close> bytes of the image, whatever
  the headers claim.
\<close>

theorem elf_validate_in_bounds:
  assumes "\<forall>x \<in> footprint img (unat sz). m' x = m x"
  shows "(elf_validate m img sz = ELF_OK \<longleftrightarrow> elf_valid m img (unat sz)) \<and> elf_validate m' img sz = elf_validate m img sz"
  using elf_validate_ok elf_validate_image [OF assms] by simp

section \<open>What the loader writes\<close>

text \<open>The addresses of segment \<open>i\<close>, and the byte the loader puts at one of them.\<close>

definition covers_seg :: "mem \<Rightarrow> u32 \<Rightarrow> nat \<Rightarrow> u32 \<Rightarrow> bool" where
  "covers_seg m img i x \<longleftrightarrow> (let ph = phdr m img i in
     loads m ph \<and> unat (p_vaddr m ph) \<le> unat x \<and> unat x < unat (p_vaddr m ph) + unat (p_memsz m ph))"

definition seg_byte :: "mem \<Rightarrow> u32 \<Rightarrow> nat \<Rightarrow> u32 \<Rightarrow> u8" where
  "seg_byte m img i x = (let ph = phdr m img i; k = x - p_vaddr m ph in
     if k < p_filesz m ph then m (img + p_offset m ph + k) else 0)"

definition in_window :: "mem \<Rightarrow> u32 \<Rightarrow> nat \<Rightarrow> nat \<Rightarrow> bool" where
  "in_window m img lo hi \<longleftrightarrow> (\<forall>i < unat (e_phnum m img). let ph = phdr m img i in
     loads m ph \<longrightarrow> lo \<le> unat (p_vaddr m ph) \<and> unat (p_vaddr m ph) + unat (p_memsz m ph) \<le> hi)"

lemma window_loop_ok:
  "window_loop m img lo hi is \<longleftrightarrow> (\<forall>i \<in> set is. let ph = phdr m img i in
     loads m ph \<longrightarrow> unat lo \<le> unat (p_vaddr m ph) \<and> unat (p_vaddr m ph) + unat (p_memsz m ph) \<le> unat hi)"
proof (induction m img lo hi "is" rule: window_loop.induct)
  case (2 m img lo hi i "is")
  let ?ph = "phdr m img i"
  have "(ucast (p_vaddr m ?ph) :: u64) < ucast lo \<or> (ucast (p_vaddr m ?ph) + ucast (p_memsz m ?ph) :: u64) > ucast hi \<longleftrightarrow>
      \<not> (unat lo \<le> unat (p_vaddr m ?ph) \<and> unat (p_vaddr m ?ph) + unat (p_memsz m ?ph) \<le> unat hi)"
    unfolding u64_add_le by (auto simp: word_less_nat_alt unat_ucast_u64)
  then show ?case
    using 2 by (auto simp: Let_def)
qed simp

text \<open>The loader's situation: a valid image outside the window its segments go to.\<close>

definition loadable :: "mem \<Rightarrow> u32 \<Rightarrow> nat \<Rightarrow> nat \<Rightarrow> nat \<Rightarrow> bool" where
  "loadable m img sz lo hi \<longleftrightarrow> elf_valid m img sz \<and> sz \<le> 4294967296 \<and> hi \<le> 4294967296 \<and> in_window m img lo hi \<and>
     (\<forall>x \<in> footprint img sz. unat x < lo \<or> hi \<le> unat x)"

lemma loadable_segment:
  assumes "loadable m img sz lo hi" "i < unat (e_phnum m img)" "loads m (phdr m img i)"
  defines "ph \<equiv> phdr m img i"
  shows "lo \<le> unat (p_vaddr m ph)" "unat (p_vaddr m ph) + unat (p_memsz m ph) \<le> hi" "hi \<le> 4294967296"
    "unat (p_filesz m ph) \<le> unat (p_memsz m ph)" "unat (p_offset m ph) + unat (p_filesz m ph) \<le> sz" "sz \<le> 4294967296"
  using assms by (auto simp: loadable_def elf_valid_def in_window_def segment_ok_def loads_def Let_def)

lemma same_imageI: "loadable m img sz lo hi \<Longrightarrow> (\<And>x. unat x < lo \<or> hi \<le> unat x \<Longrightarrow> m' x = m x) \<Longrightarrow> same_image img sz m m'"
  by (auto simp: loadable_def same_image_def)

lemma loadable_table: "loadable m img sz lo hi \<Longrightarrow> 52 \<le> sz \<and> sz \<le> 4294967296 \<and> table_inside m img sz"
  by (simp add: loadable_def elf_valid_def)

lemma load_segment_bytes:
  assumes ld: "loadable m img sz lo hi" and i: "i < unat (e_phnum m img)"
  shows "load_segment img i m x = (if covers_seg m img i x then seg_byte m img i x else m x)"
proof (cases "loads m (phdr m img i)")
  case True
  let ?ph = "phdr m img i"
  let ?v = "p_vaddr m ?ph" and ?src = "img + p_offset m ?ph" and ?f = "p_filesz m ?ph"
  let ?m1 = "memcpy m ?v ?src ?f"
  note b = loadable_segment [OF ld i True]
  have v: "x \<in> footprint ?v n \<longleftrightarrow> unat ?v \<le> unat x \<and> unat x < unat ?v + n" if "n \<le> unat (p_memsz m ?ph)" for x n
    using b(2,3) that by (intro unat_footprint) simp
  have src: "footprint ?src (unat ?f) \<subseteq> footprint img sz"
    using footprint_nat [OF b(5,6), of img] by simp
  have dj: "footprint ?v (unat ?f) \<inter> footprint ?src (unat ?f) = {}"
    using src ld b(1-4) v [OF b(4)] by (fastforce simp: loadable_def)
  have m1: "?m1 x = (if x \<in> footprint ?v (unat ?f) then m (?src + (x - ?v)) else m x)" for x
    by (rule memcpy_apply [OF dj])
  have "same_image img sz m ?m1"
    by (rule same_imageI [OF ld]) (use m1 v [OF b(4)] b(1,2,4) in auto)
  then have f1: "p_filesz ?m1 ?ph = ?f" "p_memsz ?m1 ?ph = p_memsz m ?ph"
    using image_segment [of img sz m ?m1 i] loadable_table [OF ld] i by auto
  have "load_segment img i m x = memset ?m1 (?v + ?f) 0 (p_memsz m ?ph - ?f) x"
    using True by (simp add: load_segment_def Let_def f1)
  also have "\<dots> = (if x \<in> footprint (?v + ?f) (unat (p_memsz m ?ph - ?f)) then 0 else ?m1 x)"
    by (rule memset_apply)
  also have "x \<in> footprint (?v + ?f) (unat (p_memsz m ?ph - ?f)) \<longleftrightarrow> unat ?v + unat ?f \<le> unat x \<and> unat x < unat ?v + unat (p_memsz m ?ph)"
  proof (cases "?f = p_memsz m ?ph")
    case False
    then have lt: "unat ?f < unat (p_memsz m ?ph)"
      using b(4) by (simp add: word_unat_eq_iff)
    have "unat (?v + ?f) = unat ?v + unat ?f"
      using b(2,3) lt by (simp add: unat_add_u32)
    moreover have "unat (p_memsz m ?ph - ?f) = unat (p_memsz m ?ph) - unat ?f"
      using b(4) by (simp add: unat_sub word_le_nat_alt)
    ultimately show ?thesis
      using b(2-4) by (simp add: unat_footprint)
  qed (simp add: footprint_def)
  also have "(if unat ?v + unat ?f \<le> unat x \<and> unat x < unat ?v + unat (p_memsz m ?ph) then 0 else ?m1 x) =
      (if covers_seg m img i x then seg_byte m img i x else m x)"
  proof -
    have "x - ?v < ?f \<longleftrightarrow> x \<in> footprint ?v (unat ?f)"
      by (simp add: footprint_def word_less_nat_alt)
    then show ?thesis
      using True b(4) by (auto simp: m1 v [OF b(4)] covers_seg_def seg_byte_def Let_def)
  qed
  finally show ?thesis .
next
  case False
  then show ?thesis
    by (simp add: load_segment_def covers_seg_def Let_def)
qed

fun loaded :: "mem \<Rightarrow> u32 \<Rightarrow> nat \<Rightarrow> mem" where
  "loaded m img 0 = m"
| "loaded m img (Suc i) = (\<lambda>x. if covers_seg m img i x then seg_byte m img i x else loaded m img i x)"

lemma covers_window:
  assumes "loadable m img sz lo hi" "i < unat (e_phnum m img)" "covers_seg m img i x"
  shows "lo \<le> unat x \<and> unat x < hi"
  using assms loadable_segment [OF assms(1,2)] by (auto simp: covers_seg_def Let_def)

lemma loaded_outside:
  assumes "loadable m img sz lo hi" "k \<le> unat (e_phnum m img)" "unat x < lo \<or> hi \<le> unat x"
  shows "loaded m img k x = m x"
  using assms(2)
proof (induction k)
  case (Suc k)
  then show ?case
    using covers_window [OF assms(1), of k x] assms(3) by auto
qed simp

lemma loaded_image: "loadable m img sz lo hi \<Longrightarrow> k \<le> unat (e_phnum m img) \<Longrightarrow> same_image img sz m (loaded m img k)"
  by (rule same_imageI) (auto intro: loaded_outside)

text \<open>An image that agrees on its bytes describes the same segments.\<close>

lemma image_same:
  assumes "loadable m img sz lo hi" "same_image img sz m m'"
  shows "e_phnum m' img = e_phnum m img" "e_entry m' img = e_entry m img"
    "i < unat (e_phnum m img) \<Longrightarrow> covers_seg m' img i = covers_seg m img i"
    "i < unat (e_phnum m img) \<Longrightarrow> covers_seg m img i x \<Longrightarrow> seg_byte m' img i x = seg_byte m img i x"
    "elf_valid m' img sz = elf_valid m img sz" "in_window m' img lo hi = in_window m img lo hi"
proof -
  note t = loadable_table [OF assms(1)]
  note sz = conjunct1 [OF t] conjunct1 [OF conjunct2 [OF t]] conjunct2 [OF conjunct2 [OF t]]
  note h = image_header [OF assms(2) sz(1,2)]
  note p = image_phdr(1) [OF assms(2) sz] and q = image_segment [OF assms(2) sz]
  show "e_phnum m' img = e_phnum m img" "e_entry m' img = e_entry m img"
    by (rule h)+
  show "covers_seg m' img i = covers_seg m img i" if "i < unat (e_phnum m img)"
    by (rule ext) (simp add: covers_seg_def p [OF that] q [OF that])
  show "seg_byte m' img i x = seg_byte m img i x" if i: "i < unat (e_phnum m img)" and c: "covers_seg m img i x"
  proof -
    let ?ph = "phdr m img i"
    have ld: "loads m ?ph"
      using c by (simp add: covers_seg_def Let_def)
    note b = loadable_segment [OF assms(1) i ld]
    have "m' (img + p_offset m ?ph + k) = m (img + p_offset m ?ph + k)" if "k < p_filesz m ?ph" for k
    proof -
      have "unat (p_offset m ?ph) + unat k < sz"
        using that b(5) by (simp add: word_less_nat_alt)
      from image_byte [OF assms(2) this sz(2)] show ?thesis
        by (simp add: add.assoc)
    qed
    then show ?thesis
      by (simp add: seg_byte_def p [OF i] q [OF i] Let_def)
  qed
  show "in_window m' img lo hi = in_window m img lo hi"
    unfolding in_window_def h using p q by simp
  have id: "e_ident m' img (of_nat k) = e_ident m img (of_nat k)" if "k < 16" for k
    by (rule image_ident [OF assms(2) sz(1,2) that])
  have id6: "map (e_ident m' img) [0, 1, 2, 3, 4, 5] = map (e_ident m img) [0, 1, 2, 3, 4, 5]"
    using id [of 0] id [of 1] id [of 2] id [of 3] id [of 4] id [of 5] by simp
  have "table_inside m' img sz = table_inside m img sz"
    by (simp add: table_inside_def h)
  moreover have "segment_ok m' (phdr m' img i) sz = segment_ok m (phdr m img i) sz"
    "p_type m' (phdr m' img i) = p_type m (phdr m img i)" if "i < unat (e_phnum m img)" for i
    using p [OF that] q [OF that] by (simp_all add: segment_ok_def)
  ultimately show "elf_valid m' img sz = elf_valid m img sz"
    unfolding elf_valid_def h id6 by (metis (no_types, lifting))
qed

lemma loadable_same: "loadable m img sz lo hi \<Longrightarrow> same_image img sz m m' \<Longrightarrow> loadable m' img sz lo hi"
  using image_same(5,6) [of m img sz lo hi m'] by (simp add: loadable_def)

declare load_loop.simps [simp del]

lemma load_loop_loaded:
  "loadable m img sz lo hi \<Longrightarrow> i \<le> unat (e_phnum m img) \<Longrightarrow> load_loop img i (loaded m img i) = loaded m img (unat (e_phnum m img))"
proof (induction "unat (e_phnum m img) - i" arbitrary: i)
  case 0
  note s = image_same [OF 0(2) loaded_image [OF 0(2,3)]]
  show ?case
    using 0 s(1) by (subst load_loop.simps) simp
next
  case (Suc d)
  then have i: "i < unat (e_phnum m img)"
    by simp
  note im = loaded_image [OF Suc(3,4)]
  note s = image_same [OF Suc(3) im]
  have "load_segment img i (loaded m img i) = loaded m img (Suc i)"
  proof
    fix x
    have "load_segment img i (loaded m img i) x =
        (if covers_seg (loaded m img i) img i x then seg_byte (loaded m img i) img i x else loaded m img i x)"
      by (rule load_segment_bytes [OF loadable_same [OF Suc(3) im]]) (simp add: s(1) i)
    then show "load_segment img i (loaded m img i) x = loaded m img (Suc i) x"
      using s(3) [OF i] s(4) [OF i] by simp
  qed
  then show ?case
    using Suc(1) [of "Suc i"] Suc(2,3) i s(1) by (simp add: load_loop.simps [of img i])
qed

lemma loaded_none: "(\<And>i. i < k \<Longrightarrow> \<not> covers_seg m img i x) \<Longrightarrow> loaded m img k x = m x"
  by (induction k) auto

lemma loaded_last:
  "i < k \<Longrightarrow> covers_seg m img i x \<Longrightarrow> (\<And>j. i < j \<Longrightarrow> j < k \<Longrightarrow> \<not> covers_seg m img j x) \<Longrightarrow> loaded m img k x = seg_byte m img i x"
  by (induction k) (auto simp: less_Suc_eq)

text \<open>
  C10.  \<open>elf_load\<close>, for an image that lies outside the window \<open>[lo, hi)\<close>.  The result is \<open>-1\<close> exactly for
  an invalid image, \<open>-2\<close> if a segment leaves the window, \<open>-3\<close> if the entry point does; then memory is
  untouched.  Otherwise every byte of a segment holds the byte of the file, or 0 beyond the file's part
  (where segments overlap, the last one counts), every other byte is unchanged, nothing outside the
  window is written, and the entry point returned is that of the header, inside the window.
\<close>

theorem elf_load_correct:
  assumes "\<forall>x \<in> footprint img (unat sz). unat x < unat lo \<or> unat hi \<le> unat x" "elf_load m img sz lo hi = (rc, m', e)"
  shows "rc = (if \<not> elf_valid m img (unat sz) then - 1
      else if \<not> in_window m img (unat lo) (unat hi) then - 2
      else if e_entry m img < lo \<or> hi \<le> e_entry m img then - 3 else 0) \<and>
    (if rc = 0
     then e = Some (e_entry m img) \<and>
       (\<forall>i x. i < unat (e_phnum m img) \<and> covers_seg m img i x \<and> (\<forall>j < unat (e_phnum m img). i < j \<longrightarrow> \<not> covers_seg m img j x) \<longrightarrow>
         unat lo \<le> unat x \<and> unat x < unat hi \<and> m' x = seg_byte m img i x) \<and>
       (\<forall>x. (\<forall>i < unat (e_phnum m img). \<not> covers_seg m img i x) \<longrightarrow> m' x = m x)
     else m' = m \<and> e = None)"
proof -
  let ?n = "unat (e_phnum m img)"
  have w: "window_loop m img lo hi [0..<?n] = in_window m img (unat lo) (unat hi)"
    by (auto simp: window_loop_ok in_window_def)
  show ?thesis
  proof (cases "elf_valid m img (unat sz) \<and> in_window m img (unat lo) (unat hi) \<and> \<not> (e_entry m img < lo \<or> hi \<le> e_entry m img)")
    case True
    then have ld: "loadable m img (unat sz) (unat lo) (unat hi)"
      using assms(1) unat_u32_less [of sz] unat_u32_less [of hi] by (simp add: loadable_def)
    have m': "load_loop img 0 m = loaded m img ?n"
      using load_loop_loaded [OF ld, of 0] by simp
    have ent: "e_entry (loaded m img ?n) img = e_entry m img"
      by (rule image_same(2) [OF ld loaded_image [OF ld order_refl]])
    have r: "rc = 0" "m' = loaded m img ?n" "e = Some (e_entry m img)"
      using assms(2) True by (auto simp: elf_load_def elf_validate_ok w m' ent)
    have "unat lo \<le> unat x \<and> unat x < unat hi \<and> m' x = seg_byte m img i x"
      if "i < ?n" "covers_seg m img i x" "\<forall>j < ?n. i < j \<longrightarrow> \<not> covers_seg m img j x" for i x
      using covers_window [OF ld that(1,2)] loaded_last [OF that(1,2)] that(3) r(2) by auto
    then show ?thesis
      using True r loaded_none [of ?n m img] by auto
  next
    case False
    then show ?thesis
      using assms(2) by (auto simp: elf_load_def elf_validate_ok w split: if_splits)
  qed
qed

text \<open>A small program: one segment, three bytes in the file and two of \<open>.bss\<close>.\<close>

definition tiny_mem :: mem where
  "tiny_mem = (\<lambda>_. 0)(0x20000 := 0x7F, 0x20001 := 0x45, 0x20002 := 0x4C, 0x20003 := 0x46, 0x20004 := 0x01, 0x20005 :=
     0x01, 0x20010 := 0x02, 0x20012 := 0x03, 0x20014 := 0x01, 0x20019 := 0x10, 0x2001A := 0x08, 0x2001C
     := 0x34, 0x2002A := 0x20, 0x2002C := 0x01, 0x20034 := 0x01, 0x20038 := 0x54, 0x2003D := 0x10,
     0x2003E := 0x08, 0x20044 := 0x03, 0x20048 := 0x05, 0x2004C := 0x05, 0x20054 := 0xAA, 0x20055 :=
     0xBB, 0x20056 := 0xCC,
     0x81004 := 0x77, 0x81005 := 0x77)"

lemmas elf_fields = e_ident_def e_type_def e_machine_def e_entry_def e_phoff_def e_phentsize_def e_phnum_def phdr_def
  p_type_def p_offset_def p_vaddr_def p_filesz_def p_memsz_def p_flags_def load16_def load32_def

lemma tiny_headers:
  "e_entry tiny_mem 0x20000 = 0x81000" "e_phnum tiny_mem 0x20000 = 1" "e_phoff tiny_mem 0x20000 = 52"
  "e_phentsize tiny_mem 0x20000 = 32" "e_type tiny_mem 0x20000 = 2" "e_machine tiny_mem 0x20000 = 3"
  "p_type tiny_mem 0x20034 = 1" "p_offset tiny_mem 0x20034 = 84" "p_vaddr tiny_mem 0x20034 = 0x81000"
  "p_filesz tiny_mem 0x20034 = 3" "p_memsz tiny_mem 0x20034 = 5" "p_flags tiny_mem 0x20034 = 5"
  "map (e_ident tiny_mem 0x20000) [0, 1, 2, 3, 4, 5] = [0x7F, 0x45, 0x4C, 0x46, 1, 1]"
  by (simp_all add: elf_fields tiny_mem_def)

lemma tiny_phdr: "phdr tiny_mem 0x20000 0 = 0x20034"
  by (simp add: phdr_def tiny_headers)

lemma tiny_loads: "loads tiny_mem 0x20034"
  by (simp add: loads_def PT_LOAD_def tiny_headers)

lemma tiny_valid:
  "elf_valid tiny_mem 0x20000 87" "in_window tiny_mem 0x20000 0x80000 0xF0000"
  unfolding elf_valid_def tiny_headers(13)
  by (simp_all add: table_inside_def segment_ok_def PT_LOAD_def in_window_def tiny_headers tiny_phdr)

lemma tiny_bytes:
  "covers_seg tiny_mem 0x20000 0 0x81001" "seg_byte tiny_mem 0x20000 0 0x81001 = 0xBB"
  "covers_seg tiny_mem 0x20000 0 0x81004" "seg_byte tiny_mem 0x20000 0 0x81004 = 0"
  "\<not> covers_seg tiny_mem 0x20000 0 0x81005"
  by (simp_all add: covers_seg_def seg_byte_def tiny_phdr tiny_loads tiny_headers) (simp add: tiny_mem_def)

theorem elf_load_correct_witness:
  "case elf_load tiny_mem 0x20000 87 0x80000 0xF0000 of (rc, m, e) \<Rightarrow>
     rc = 0 \<and> e = Some 0x81000 \<and> m 0x81001 = 0xBB \<and> m 0x81004 = 0 \<and> m 0x81005 = tiny_mem 0x81005"
proof -
  obtain rc m e where r: "elf_load tiny_mem 0x20000 87 0x80000 0xF0000 = (rc, m, e)"
    by (cases "elf_load tiny_mem 0x20000 87 0x80000 0xF0000")
  have "unat x < unat (0x80000 :: u32)" if "x \<in> footprint 0x20000 (unat (87 :: u32))" for x :: u32
    using that by (simp add: unat_footprint)
  then have c: "\<forall>x \<in> footprint 0x20000 (unat (87 :: u32)). unat x < unat (0x80000 :: u32) \<or> unat (0xF0000 :: u32) \<le> unat x"
    by blast
  show ?thesis
    using elf_load_correct [OF c r] tiny_valid tiny_bytes unfolding r by (simp add: tiny_headers)
qed

theorem elf_validate_in_bounds_witness:
  "elf_validate (tiny_mem(0x30000 := 1)) 0x20000 87 = ELF_OK"
proof -
  have "\<forall>x \<in> footprint 0x20000 (unat (87 :: u32)). (tiny_mem(0x30000 := 1)) x = tiny_mem x"
    by (auto simp: unat_footprint)
  from elf_validate_in_bounds [OF this] show ?thesis
    using tiny_valid(1) by (simp add: fun_upd_def)
qed

section \<open>Read-only segments\<close>

lemma set_writable_loop_ram:
  assumes "page_aligned (first_page_table s)" "x \<notin> footprint (first_page_table s) 4096"
  shows "ram (set_writable_loop a e w s) x = ram s x"
  using assms
proof (induction a e w s rule: set_writable_loop.induct)
  case (1 a e w s)
  show ?case
  proof (cases "a < e \<and> e \<le> USER_ZONE_END")
    case True
    let ?t = "\<lambda>y. set_entry (first_page_table s) (drop_bit 12 a) y s"
    have "unat a < 1048576"
      using True by (simp add: word_less_nat_alt word_le_nat_alt)
    then have "drop_bit 12 a < 1024"
      by (simp add: word_less_nat_alt unat_drop_bit_eq drop_bit_eq_div unat_div)
    then have "x \<notin> footprint (first_page_table s + 4 * drop_bit 12 a) 4"
      using entry_in_page [OF 1(2)] 1(3) by blast
    then have t: "ram (?t y) x = ram s x" for y
      by (simp add: set_entry_def store32_outside)
    have step: "set_writable_loop a e w s =
        set_writable_loop (a + 0x1000) e w (?t (with_rw w (get_entry s (first_page_table s) (drop_bit 12 a))))"
      using True by (subst set_writable_loop.simps) (simp add: Let_def with_rw_def)
    have "ram (set_writable_loop (a + 0x1000) e w (?t (with_rw w (get_entry s (first_page_table s) (drop_bit 12 a))))) x = ram s x"
      using 1(1) [OF True refl refl refl] 1(2,3) t by (simp add: with_rw_def)
    then show ?thesis
      by (simp only: step)
  next
    case False
    then have "set_writable_loop a e w s = s"
      by (subst set_writable_loop.simps) auto
    then show ?thesis
      by simp
  qed
qed

lemma set_user_writable_frame:
  "first_page_table (paging_set_user_writable a l w s) = first_page_table s"
  "page_aligned (first_page_table s) \<Longrightarrow> x \<notin> footprint (first_page_table s) 4096 \<Longrightarrow>
   ram (paging_set_user_writable a l w s) x = ram s x"
  by (simp_all add: paging_set_user_writable_def Let_def set_writable_loop_ram)

text \<open>A read-only segment that touches page \<open>j\<close> of the user zone.\<close>

definition read_only_at :: "mem \<Rightarrow> u32 \<Rightarrow> nat \<Rightarrow> u32 \<Rightarrow> bool" where
  "read_only_at m img i j \<longleftrightarrow> (let ph = phdr m img i in
     loads m ph \<and> p_flags m ph AND PF_W = 0 \<and> touches (p_vaddr m ph) (p_memsz m ph) j)"

text \<open>A loaded image that the page table does not overlap.\<close>

definition protectable :: "u32 \<Rightarrow> nat \<Rightarrow> vm \<Rightarrow> bool" where
  "protectable img sz s \<longleftrightarrow> elf_valid (ram s) img sz \<and> sz \<le> 4294967296 \<and> in_window (ram s) img 0x80000 0xF0000 \<and>
     page_aligned (first_page_table s) \<and> footprint img sz \<inter> footprint (first_page_table s) 4096 = {}"

lemma bit_with_rw: "bit (with_rw w e) n \<longleftrightarrow> (if n = 1 then w else bit e n)"
proof -
  have "bit (PF_RW :: u32) n \<longleftrightarrow> n = 1"
    using bit_exp_iff [where 'a = "32 word", of 1 n] by auto
  moreover have "n < 32" if "bit e n"
    using bit_imp_le_length [OF that] by simp
  ultimately show ?thesis
    by (auto simp only: with_rw_def bit_or_iff bit_and_iff bit_not_iff split: if_splits) simp_all
qed

lemma protect_segment_entry:
  assumes "protectable img sz s" "i < unat (e_phnum (ram s) img)" "zone_page j"
  shows "bit (get_entry (protect_segment img i s) (first_page_table s) j) n \<longleftrightarrow>
    bit (get_entry s (first_page_table s) j) n \<and> \<not> (n = 1 \<and> read_only_at (ram s) img i j)"
proof -
  let ?ph = "phdr (ram s) img i"
  have j: "j < 1024"
    using assms(3) by (auto simp: zone_page_def word_less_nat_alt)
  have a: "page_aligned (first_page_table s)"
    using assms(1) by (simp add: protectable_def)
  have "FRAME_OF (p_vaddr (ram s) ?ph) \<le> j * 0x1000 \<and> j * 0x1000 < FRAME_OF (p_vaddr (ram s) ?ph + p_memsz (ram s) ?ph + 0xFFF) \<longleftrightarrow>
      touches (p_vaddr (ram s) ?ph) (p_memsz (ram s) ?ph) j" if "loads (ram s) ?ph"
    using assms(1,2) that by (intro touches_frames [OF _ j]) (auto simp: protectable_def in_window_def Let_def)
  then show ?thesis
    using assms(3) by (auto simp: protect_segment_def Let_def get_set_user_writable [OF a a j] bit_with_rw read_only_at_def)
qed

lemma image_protect:
  assumes "protectable img sz s" "same_image img sz (ram s) m'"
  shows "e_phnum m' img = e_phnum (ram s) img" "elf_valid m' img sz" "in_window m' img 0x80000 0xF0000"
    "i < unat (e_phnum (ram s) img) \<Longrightarrow> read_only_at m' img i j = read_only_at (ram s) img i j"
proof -
  have sz: "52 \<le> sz" "sz \<le> 4294967296" "table_inside (ram s) img sz"
    using assms(1) by (auto simp: protectable_def elf_valid_def)
  note h = image_header [OF assms(2) sz(1,2)]
  note p = image_phdr(1) [OF assms(2) sz] and q = image_segment [OF assms(2) sz]
  show "e_phnum m' img = e_phnum (ram s) img"
    by (rule h)
  show "i < unat (e_phnum (ram s) img) \<Longrightarrow> read_only_at m' img i j = read_only_at (ram s) img i j"
    by (simp add: read_only_at_def p q)
  show "in_window m' img 0x80000 0xF0000"
    using assms(1) p q unfolding in_window_def protectable_def h by simp
  have id: "e_ident m' img (of_nat k) = e_ident (ram s) img (of_nat k)" if "k < 16" for k
    by (rule image_ident [OF assms(2) sz(1,2) that])
  have id6: "map (e_ident m' img) [0, 1, 2, 3, 4, 5] = map (e_ident (ram s) img) [0, 1, 2, 3, 4, 5]"
    using id [of 0] id [of 1] id [of 2] id [of 3] id [of 4] id [of 5] by simp
  have "segment_ok m' (phdr m' img i) sz = segment_ok (ram s) (phdr (ram s) img i) sz"
    "p_type m' (phdr m' img i) = p_type (ram s) (phdr (ram s) img i)" if "i < unat (e_phnum (ram s) img)" for i
    using p [OF that] q [OF that] by (simp_all add: segment_ok_def)
  moreover have "table_inside m' img sz"
    using sz(3) by (simp add: table_inside_def h)
  ultimately show "elf_valid m' img sz"
    using assms(1) unfolding elf_valid_def protectable_def h id6 by metis
qed

lemma protect_segment_image:
  assumes "protectable img sz s"
  shows "first_page_table (protect_segment img i s) = first_page_table s" "same_image img sz (ram s) (ram (protect_segment img i s))"
proof -
  show "first_page_table (protect_segment img i s) = first_page_table s"
    by (simp add: protect_segment_def Let_def set_user_writable_frame)
  have "ram (protect_segment img i s) x = ram s x" if "x \<notin> footprint (first_page_table s) 4096" for x
    using that assms by (simp add: protect_segment_def Let_def set_user_writable_frame protectable_def)
  then show "same_image img sz (ram s) (ram (protect_segment img i s))"
    using assms by (auto simp: same_image_def protectable_def)
qed

lemma protectable_segment: "protectable img sz s \<Longrightarrow> protectable img sz (protect_segment img i s)"
  using image_protect(2,3) [of img sz s "ram (protect_segment img i s)"] protect_segment_image [of img sz s i]
  unfolding protectable_def by auto

declare protect_loop.simps [simp del]

lemma protect_loop_entry:
  "protectable img sz s \<Longrightarrow> zone_page j \<Longrightarrow>
   bit (get_entry (protect_loop img i s) (first_page_table s) j) n \<longleftrightarrow> bit (get_entry s (first_page_table s) j) n \<and>
     \<not> (n = 1 \<and> (\<exists>k. i \<le> k \<and> k < unat (e_phnum (ram s) img) \<and> read_only_at (ram s) img k j))"
proof (induction img i s rule: protect_loop.induct)
  case (1 img i s)
  show ?case
  proof (cases "i < unat (e_phnum (ram s) img)")
    case True
    let ?s = "protect_segment img i s"
    note fr = protect_segment_image [OF 1(2), of i]
    note im = image_protect [OF 1(2) fr(2)]
    have IH: "bit (get_entry (protect_loop img (i + 1) ?s) (first_page_table s) j) n \<longleftrightarrow> bit (get_entry ?s (first_page_table s) j) n \<and>
      \<not> (n = 1 \<and> (\<exists>k. i + 1 \<le> k \<and> k < unat (e_phnum (ram s) img) \<and> read_only_at (ram s) img k j))"
      using 1(1) [OF True protectable_segment [OF 1(2)] 1(3)] fr(1) im(1,4) by (auto simp: cong: conj_cong)
    have "(\<exists>k. i \<le> k \<and> k < unat (e_phnum (ram s) img) \<and> read_only_at (ram s) img k j) \<longleftrightarrow> read_only_at (ram s) img i j \<or>
        (\<exists>k. i + 1 \<le> k \<and> k < unat (e_phnum (ram s) img) \<and> read_only_at (ram s) img k j)"
    proof -
      have "i \<le> k \<longleftrightarrow> k = i \<or> i + 1 \<le> k" for k
        by auto
      then show ?thesis
        using True by metis
    qed
    then show ?thesis
      using True IH protect_segment_entry [OF 1(2) True 1(3), of n] by (subst protect_loop.simps) auto
  qed (subst protect_loop.simps, simp)
qed

text \<open>
  C36.  After \<open>elf_protect\<close> a page of the user zone is writable exactly if it was before and no segment
  without the write flag touches it; no other bit of its entry changes.
\<close>

theorem elf_protect_correct:
  assumes "protectable img sz s" "zone_page j"
  shows "bit (get_entry (elf_protect img s) (first_page_table s) j) n \<longleftrightarrow> bit (get_entry s (first_page_table s) j) n \<and>
    \<not> (n = 1 \<and> (\<exists>i < unat (e_phnum (ram s) img). read_only_at (ram s) img i j))"
  using protect_loop_entry [OF assms, of 0 n] by (auto simp: elf_protect_def)

definition tiny_vm :: vm where
  "tiny_vm = boot_vm\<lparr>ram := tiny_mem(0x11204 := 7, 0x11208 := 7)\<rparr>"

lemma tiny_protectable: "protectable 0x20000 87 tiny_vm"
proof -
  have ft: "first_page_table tiny_vm = 0x11000" "page_aligned (0x11000 :: u32)"
    by (simp_all add: tiny_vm_def boot_vm_def page_aligned_unat)
  have "same_image 0x20000 87 tiny_mem (ram tiny_vm)"
    by (auto simp: same_image_def tiny_vm_def unat_footprint)
  moreover have "loadable tiny_mem 0x20000 87 0x80000 0xF0000"
    using tiny_valid by (auto simp: loadable_def unat_footprint)
  ultimately have "elf_valid (ram tiny_vm) 0x20000 87" "in_window (ram tiny_vm) 0x20000 0x80000 0xF0000"
    using image_same(5,6) tiny_valid by blast+
  then show ?thesis
    by (auto simp: protectable_def ft unat_footprint)
qed

lemma tiny_vm_headers:
  "first_page_table tiny_vm = 0x11000" "e_phnum (ram tiny_vm) 0x20000 = 1" "phdr (ram tiny_vm) 0x20000 0 = 0x20034"
  "p_type (ram tiny_vm) 0x20034 = 1" "p_vaddr (ram tiny_vm) 0x20034 = 0x81000" "p_memsz (ram tiny_vm) 0x20034 = 5"
  "p_flags (ram tiny_vm) 0x20034 = 5" "get_entry tiny_vm 0x11000 0x81 = 7" "get_entry tiny_vm 0x11000 0x82 = 7"
  by (simp_all add: elf_fields tiny_vm_def boot_vm_def tiny_mem_def get_entry_def)

lemma tiny_read_only: "read_only_at (ram tiny_vm) 0x20000 0 0x81" "\<not> read_only_at (ram tiny_vm) 0x20000 0 0x82"
  by (simp_all add: read_only_at_def tiny_vm_headers loads_def PT_LOAD_def PF_W_def touches_def)

theorem elf_protect_correct_witness:
  "\<not> bit (get_entry (elf_protect 0x20000 tiny_vm) 0x11000 0x81) 1 \<and> bit (get_entry (elf_protect 0x20000 tiny_vm) 0x11000 0x82) 1"
  using elf_protect_correct [OF tiny_protectable, of "0x81" 1] elf_protect_correct [OF tiny_protectable, of "0x82" 1]
  by (simp add: zone_page_def tiny_vm_headers tiny_read_only)

end
