(* ===== verification/Descriptors.thy ===== *)
theory Descriptors
  imports Memory
begin

text \<open>
  The descriptor tables and the interrupt controllers: \<open>kernel/gdt.c\<close>, \<open>kernel/idt.c\<close>, and the
  set-up and dispatch parts of \<open>kernel/isr.c\<close>, \<open>kernel/timer.c\<close> and \<open>kernel/syscall.c\<close>.  The linker
  decides where the static tables and the assembly stubs are, so their addresses are fields of the state
  or arguments; what is written to the I/O ports is a log.
\<close>

section \<open>Segments\<close>

record gdt_entry =
  limit_low :: u16
  base_low :: u16
  base_mid :: u8
  access :: u8
  gran :: u8
  base_high :: u8

record table_ptr =
  ptr_limit :: u16
  ptr_base :: u32

record tss_entry =
  tss_prev_tss :: u32
  tss_esp0 :: u32
  tss_ss0 :: u32
  tss_esp1 :: u32
  tss_ss1 :: u32
  tss_esp2 :: u32
  tss_ss2 :: u32
  tss_cr3 :: u32
  tss_eip :: u32
  tss_eflags :: u32
  tss_gprs :: "u32 list"
  tss_segs :: "u32 list"
  tss_trap :: u16
  tss_iomap_base :: u16

definition zero_tss :: tss_entry where
  "zero_tss = \<lparr>tss_prev_tss = 0, tss_esp0 = 0, tss_ss0 = 0, tss_esp1 = 0, tss_ss1 = 0, tss_esp2 = 0, tss_ss2 = 0,
     tss_cr3 = 0, tss_eip = 0, tss_eflags = 0, tss_gprs = replicate 8 0, tss_segs = replicate 7 0, tss_trap = 0, tss_iomap_base = 0\<rparr>"

text \<open>\<open>sizeof(struct tss_entry)\<close>: 25 words and two half-words.\<close>

definition TSS_SIZE :: u32 where
  "TSS_SIZE = 104"

definition KERNEL_DATA :: u32 where
  "KERNEL_DATA = 0x10"

record segments =
  gdt :: "nat \<Rightarrow> gdt_entry"
  gp :: table_ptr
  tss :: tss_entry
  gdt_addr :: u32
  tss_addr :: u32
  kernel_stack :: u32
  gdtr :: table_ptr
  task_register :: u16

definition set_gate :: "nat \<Rightarrow> u32 \<Rightarrow> u32 \<Rightarrow> u8 \<Rightarrow> u8 \<Rightarrow> segments \<Rightarrow> segments" where
  "set_gate n base limit acc gr s =
     s\<lparr>gdt := (gdt s)(n :=
        \<lparr>limit_low = ucast (limit AND 0xFFFF), base_low = ucast (base AND 0xFFFF),
         base_mid = ucast (drop_bit 16 base AND 0xFF), access = acc,
         gran = ucast (drop_bit 16 limit AND 0x0F) OR (gr AND 0xF0),
         base_high = ucast (drop_bit 24 base AND 0xFF)\<rparr>)\<rparr>"

definition tss_set_stack :: "u32 \<Rightarrow> segments \<Rightarrow> segments" where
  "tss_set_stack esp0 s = s\<lparr>tss := tss s\<lparr>tss_esp0 := esp0\<rparr>\<rparr>"

text \<open>\<open>gdt_flush\<close> loads the table register, \<open>tss_flush\<close> the selector of the task state segment.\<close>

definition gdt_install :: "segments \<Rightarrow> segments" where
  "gdt_install s =
     (let s = set_gate 0 0 0 0 0 s;
          s = set_gate 1 0 0xFFFFF 0x9A 0xCF s;
          s = set_gate 2 0 0xFFFFF 0x92 0xCF s;
          s = set_gate 3 0 0xFFFFF 0xFA 0xCF s;
          s = set_gate 4 0 0xFFFFF 0xF2 0xCF s;
          s = set_gate 5 (tss_addr s) (TSS_SIZE - 1) 0x89 0x00 s;
          s = s\<lparr>tss := zero_tss\<lparr>tss_ss0 := KERNEL_DATA, tss_esp0 := kernel_stack s + 8192, tss_iomap_base := ucast TSS_SIZE\<rparr>\<rparr>;
          s = s\<lparr>gp := \<lparr>ptr_limit = 6 * 8 - 1, ptr_base = gdt_addr s\<rparr>\<rparr>
      in s\<lparr>gdtr := gp s, task_register := 0x28\<rparr>)"

text \<open>How the processor reads a descriptor.\<close>

definition seg_base :: "gdt_entry \<Rightarrow> u32" where
  "seg_base e = ucast (base_low e) OR push_bit 16 (ucast (base_mid e)) OR push_bit 24 (ucast (base_high e))"

definition seg_limit :: "gdt_entry \<Rightarrow> u32" where
  "seg_limit e =
     (let l = ucast (limit_low e) OR push_bit 16 (ucast (gran e AND 0x0F))
      in if bit (gran e) 7 then push_bit 12 l OR 0xFFF else l)"

definition seg_dpl :: "gdt_entry \<Rightarrow> nat" where
  "seg_dpl e = unat (drop_bit 5 (access e) AND 3)"

definition seg_present :: "gdt_entry \<Rightarrow> bool" where
  "seg_present e \<longleftrightarrow> bit (access e) 7"

text \<open>
  The type of a segment: code is conforming or not and readable or not, data grows down or not and is writable or not; a
  descriptor without the S bit is a system segment of one of sixteen types, of which 9 is an available 32-bit task state
  segment.
\<close>

datatype seg_type = Code_segment (conforming: bool) (readable: bool) | Data_segment (expand_down: bool) (writable: bool) | System_segment nat

definition seg_type :: "gdt_entry \<Rightarrow> seg_type" where
  "seg_type e =
     (if bit (access e) 4
      then if bit (access e) 3 then Code_segment (bit (access e) 2) (bit (access e) 1)
           else Data_segment (bit (access e) 2) (bit (access e) 1)
      else System_segment (unat (access e AND 0x0F)))"

definition seg_big :: "gdt_entry \<Rightarrow> bool" where
  "seg_big e \<longleftrightarrow> bit (gran e) 6"

definition seg_long :: "gdt_entry \<Rightarrow> bool" where
  "seg_long e \<longleftrightarrow> bit (gran e) 5"

lemma mask_bits:
  "bit (0xFFFF :: int) i \<longleftrightarrow> i < 16" "bit (0xFF :: int) i \<longleftrightarrow> i < 8" "bit (0xF :: int) i \<longleftrightarrow> i < 4"
  using bit_mask_iff [where 'a = int, of 16 i] bit_mask_iff [where 'a = int, of 8 i] bit_mask_iff [where 'a = int, of 4 i]
  by (auto simp: mask_eq_exp_minus_1)

lemma high_nibble: "bit (0xF0 :: int) i \<longleftrightarrow> 4 \<le> i \<and> i < 8"
proof -
  have p: "(0xF0 :: int) = push_bit 4 0xF"
    by (simp add: push_bit_eq_mult)
  show ?thesis
    unfolding p bit_push_bit_iff mask_bits by auto
qed

lemmas descriptor_bits = bit_or_iff bit_and_iff bit_push_bit_iff bit_drop_bit_eq bit_ucast_iff mask_bits high_nibble

lemma seg_base_set_gate: "seg_base (gdt (set_gate n base limit acc gr s) n) = base"
proof (rule bit_word_eqI)
  fix i :: nat
  assume "i < LENGTH(32)"
  then consider "i < 16" | "16 \<le> i" "i < 24" | "24 \<le> i" "i < 32"
    by fastforce
  then show "bit (seg_base (gdt (set_gate n base limit acc gr s) n)) i = bit base i"
    by cases (auto simp: seg_base_def set_gate_def descriptor_bits)
qed

lemma seg_limit_set_gate:
  assumes "limit < 0x100000"
  shows "seg_limit (gdt (set_gate n base limit acc gr s) n) = (if bit gr 7 then push_bit 12 limit OR 0xFFF else limit)"
proof -
  let ?e = "gdt (set_gate n base limit acc gr s) n"
  have hi: "\<not> bit limit i" if "20 \<le> i" for i
  proof -
    have "take_bit 20 limit = limit"
      using assms by (simp add: take_bit_eq_mod word_unat_eq_iff unat_mod word_less_nat_alt)
    then show ?thesis
      using that by (metis bit_take_bit_iff not_less)
  qed
  have "ucast (limit_low ?e) OR push_bit 16 (ucast (gran ?e AND 0x0F)) = limit"
  proof (rule bit_word_eqI)
    fix i :: nat
    assume "i < LENGTH(32)"
    then consider "i < 16" | "16 \<le> i" "i < 20" | "20 \<le> i" "i < 32"
      by fastforce
    then show "bit (ucast (limit_low ?e) OR push_bit 16 (ucast (gran ?e AND 0x0F)) :: u32) i = bit limit i"
      using hi by cases (auto simp: set_gate_def descriptor_bits)
  qed
  moreover have "bit (gran ?e) 7 = bit gr 7"
    by (simp add: set_gate_def descriptor_bits)
  ultimately show ?thesis
    by (simp add: seg_limit_def Let_def)
qed

text \<open>
  C37.  The segments the kernel installs, as the processor reads them: four flat 32-bit segments over all 4 GB,
  readable code and writable data at privilege level 0 for the kernel and at level 3 for user programs; an available task
  state segment at privilege level 0, which is the one in memory with exactly its size; a null descriptor; and a
  table register that covers the six of them.  The task state segment holds the kernel data segment and the top
  of the kernel stack for entries into ring 0 and no I/O permission map.
\<close>

theorem gdt_install_correct:
  "let s' = gdt_install s; g = gdt s' in
     map (\<lambda>i. (seg_present (g i), seg_base (g i), seg_limit (g i), seg_dpl (g i))) [1, 2, 3, 4, 5] =
       [(True, 0, 0xFFFFFFFF, 0), (True, 0, 0xFFFFFFFF, 0), (True, 0, 0xFFFFFFFF, 3), (True, 0, 0xFFFFFFFF, 3), (True, tss_addr s, 103, 0)] \<and>
     map (\<lambda>i. seg_type (g i)) [1, 2, 3, 4, 5] =
       [Code_segment False True, Data_segment False True, Code_segment False True, Data_segment False True, System_segment 9] \<and>
     map (\<lambda>i. (seg_big (g i), seg_long (g i))) [1, 2, 3, 4, 5] =
       [(True, False), (True, False), (True, False), (True, False), (False, False)] \<and>
     g 0 = \<lparr>limit_low = 0, base_low = 0, base_mid = 0, access = 0, gran = 0, base_high = 0\<rparr> \<and>
     gdtr s' = \<lparr>ptr_limit = 47, ptr_base = gdt_addr s\<rparr> \<and> task_register s' = 5 * 8 \<and>
     tss s' = zero_tss\<lparr>tss_ss0 := 2 * 8, tss_esp0 := kernel_stack s + 8192, tss_iomap_base := 104\<rparr>"
proof -
  have keep: "m \<noteq> n \<Longrightarrow> gdt (set_gate n b l a g s) m = gdt s m"
    "tss_addr (set_gate n b l a g s) = tss_addr s" "gdt_addr (set_gate n b l a g s) = gdt_addr s"
    "kernel_stack (set_gate n b l a g s) = kernel_stack s"
    "access (gdt (set_gate n b l a g s) n) = a" for n b l a g m s
    by (simp_all add: set_gate_def)
  have gran: "5 \<le> i \<Longrightarrow> i < 8 \<Longrightarrow> bit (gran (gdt (set_gate n b l a g s) n)) i = bit g i" for n b l a g s i
    by (simp add: set_gate_def descriptor_bits)
  have null: "gdt (set_gate n 0 0 0 0 s) n =
      \<lparr>limit_low = 0, base_low = 0, base_mid = 0, access = 0, gran = 0, base_high = 0\<rparr>" for n s
    by (simp add: set_gate_def)
  show ?thesis
    unfolding gdt_install_def Let_def
    by (simp add: keep gran null seg_base_set_gate seg_limit_set_gate seg_present_def seg_dpl_def seg_type_def seg_big_def seg_long_def
      TSS_SIZE_def KERNEL_DATA_def push_bit_eq_mult)
qed

section \<open>Interrupt gates\<close>

record idt_entry =
  gate_base_low :: u16
  gate_sel :: u16
  gate_always0 :: u8
  gate_flags :: u8
  gate_base_high :: u16

text \<open>The C handlers that drivers register.\<close>

datatype irq_routine = Timer_callback | Keyboard_callback

record interrupts =
  idt :: "nat \<Rightarrow> idt_entry"
  idtp :: table_ptr
  idt_addr :: u32
  idtr :: table_ptr
  handlers :: "nat \<Rightarrow> irq_routine option"
  port_log :: "(u16 \<times> u8) list"

definition outb :: "u16 \<Rightarrow> u8 \<Rightarrow> interrupts \<Rightarrow> interrupts" where
  "outb port value s = s\<lparr>port_log := port_log s @ [(port, value)]\<rparr>"

definition idt_set_gate :: "u8 \<Rightarrow> u32 \<Rightarrow> u16 \<Rightarrow> u8 \<Rightarrow> interrupts \<Rightarrow> interrupts" where
  "idt_set_gate num base sel flags s =
     s\<lparr>idt := (idt s)(unat num :=
        \<lparr>gate_base_low = ucast (base AND 0xFFFF), gate_sel = sel, gate_always0 = 0, gate_flags = flags,
         gate_base_high = ucast (drop_bit 16 base AND 0xFFFF)\<rparr>)\<rparr>"

definition pic_remap :: "interrupts \<Rightarrow> interrupts" where
  "pic_remap s =
     (let s = outb 0x20 0x11 s; s = outb 0xA0 0x11 s; s = outb 0x21 0x20 s; s = outb 0xA1 0x28 s;
          s = outb 0x21 0x04 s; s = outb 0xA1 0x02 s; s = outb 0x21 0x01 s; s = outb 0xA1 0x01 s;
          s = outb 0x21 0x00 s
      in outb 0xA1 0x00 s)"

text \<open>
  \<open>isr n\<close> and \<open>irq n\<close> are the addresses of the assembly stubs; the calls of \<open>isr_install\<close> go through
  the vectors in ascending order.
\<close>

definition isr_install :: "(nat \<Rightarrow> u32) \<Rightarrow> (nat \<Rightarrow> u32) \<Rightarrow> interrupts \<Rightarrow> interrupts" where
  "isr_install isr irq s =
     (let s = fold (\<lambda>n. idt_set_gate (of_nat n) (isr n) 0x08 0x8E) [0..<32] s;
          s = pic_remap s
      in fold (\<lambda>n. idt_set_gate (of_nat (32 + n)) (irq n) 0x08 0x8E) [0..<16] s)"

definition idt_install :: "(nat \<Rightarrow> u32) \<Rightarrow> (nat \<Rightarrow> u32) \<Rightarrow> interrupts \<Rightarrow> interrupts" where
  "idt_install isr irq s =
     (let s = s\<lparr>idtp := \<lparr>ptr_limit = 8 * 256 - 1, ptr_base = idt_addr s\<rparr>\<rparr>;
          s = fold (\<lambda>i. idt_set_gate (of_nat i) 0 0 0) [0..<256] s;
          s = isr_install isr irq s
      in s\<lparr>idtr := idtp s\<rparr>)"

definition syscall_install :: "u32 \<Rightarrow> interrupts \<Rightarrow> interrupts" where
  "syscall_install isr128 s = idt_set_gate 0x80 isr128 0x08 0xEE s"

definition register_interrupt_handler :: "u8 \<Rightarrow> irq_routine \<Rightarrow> interrupts \<Rightarrow> interrupts" where
  "register_interrupt_handler n h s = s\<lparr>handlers := (handlers s)(unat n := Some h)\<rparr>"

definition timer_install :: "u32 \<Rightarrow> interrupts \<Rightarrow> interrupts" where
  "timer_install frequency_hz s =
     (let s = register_interrupt_handler 32 Timer_callback s;
          divisor = 1193180 div frequency_hz;
          s = outb 0x43 0x36 s;
          s = outb 0x40 (ucast (divisor AND 0xFF)) s
      in outb 0x40 (ucast (drop_bit 8 divisor AND 0xFF)) s)"

definition keyboard_install :: "interrupts \<Rightarrow> interrupts" where
  "keyboard_install s = register_interrupt_handler 33 Keyboard_callback s"

text \<open>\<open>irq_handler\<close>: acknowledge, then the routine it goes on to call, if one is registered.\<close>

definition irq_handler :: "u32 \<Rightarrow> interrupts \<Rightarrow> irq_routine option \<times> interrupts" where
  "irq_handler int_no s =
     (let s = (if int_no \<ge> 40 then outb 0xA0 0x20 s else s);
          s = outb 0x20 0x20 s
      in (handlers s (unat int_no), s))"

text \<open>How the processor reads a gate.\<close>

definition gate_offset :: "idt_entry \<Rightarrow> u32" where
  "gate_offset e = ucast (gate_base_low e) OR push_bit 16 (ucast (gate_base_high e))"

definition gate_present :: "idt_entry \<Rightarrow> bool" where
  "gate_present e \<longleftrightarrow> bit (gate_flags e) 7"

definition gate_dpl :: "idt_entry \<Rightarrow> nat" where
  "gate_dpl e = unat (drop_bit 5 (gate_flags e) AND 3)"

lemma gate_offset_set: "gate_offset (idt (idt_set_gate num base sel flags s) (unat num)) = base"
proof (rule bit_word_eqI)
  fix i :: nat
  assume "i < LENGTH(32)"
  then consider "i < 16" | "16 \<le> i" "i < 32"
    by fastforce
  then show "bit (gate_offset (idt (idt_set_gate num base sel flags s) (unat num))) i = bit base i"
    by cases (auto simp: gate_offset_def idt_set_gate_def descriptor_bits)
qed

definition gate :: "u32 \<Rightarrow> u16 \<Rightarrow> u8 \<Rightarrow> idt_entry" where
  "gate base sel flags = \<lparr>gate_base_low = ucast (base AND 0xFFFF), gate_sel = sel, gate_always0 = 0, gate_flags = flags,
     gate_base_high = ucast (drop_bit 16 base AND 0xFFFF)\<rparr>"

lemma idt_set_gate_eq: "idt_set_gate num base sel flags s = s\<lparr>idt := (idt s)(unat num := gate base sel flags)\<rparr>"
  by (simp add: idt_set_gate_def gate_def)

lemma gate_fields: "gate_offset (gate base sel flags) = base" "gate_sel (gate base sel flags) = sel" "gate_flags (gate base sel flags) = flags"
  using gate_offset_set [of 0 base sel flags undefined] by (simp_all add: idt_set_gate_eq) (simp_all add: gate_def)

lemma fold_gates:
  assumes "\<And>n. n \<in> set ns \<Longrightarrow> k + n < 256"
  shows "fold (\<lambda>n. idt_set_gate (of_nat (k + n)) (f n) sel flags) ns s =
    s\<lparr>idt := \<lambda>v. if k \<le> v \<and> v - k \<in> set ns then gate (f (v - k)) sel flags else idt s v\<rparr>"
  using assms
proof (induction ns arbitrary: s)
  case (Cons n ns)
  have u: "unat (of_nat (k + n) :: u8) = k + n"
    using Cons.prems [of n] by (simp add: unat_of_nat del: of_nat_add)
  have "fold (\<lambda>n. idt_set_gate (of_nat (k + n)) (f n) sel flags) (n # ns) s =
      fold (\<lambda>n. idt_set_gate (of_nat (k + n)) (f n) sel flags) ns (s\<lparr>idt := (idt s)(k + n := gate (f n) sel flags)\<rparr>)"
    unfolding fold.simps comp_apply idt_set_gate_eq u ..
  also have "\<dots> = s\<lparr>idt := \<lambda>v. if k \<le> v \<and> v - k \<in> set (n # ns) then gate (f (v - k)) sel flags else idt s v\<rparr>"
  proof -
    have "(\<lambda>v. if k \<le> v \<and> v - k \<in> set ns then gate (f (v - k)) sel flags
          else ((idt s)(k + n := gate (f n) sel flags)) v) =
        (\<lambda>v. if k \<le> v \<and> v - k \<in> set (n # ns) then gate (f (v - k)) sel flags else idt s v)"
      by (auto intro!: ext)
    then show ?thesis
      using Cons.prems by (subst Cons.IH) (simp_all cong: if_cong)
  qed
  finally show ?case .
qed simp

lemma pic_remap_idt [simp]: "idt (pic_remap s) = idt s" "idtp (pic_remap s) = idtp s" "handlers (pic_remap s) = handlers s"
  by (simp_all add: pic_remap_def outb_def Let_def)

lemma isr_install_idt:
  "idt (isr_install isr irq s) v =
     (if v < 32 then gate (isr v) 0x08 0x8E else if v < 48 then gate (irq (v - 32)) 0x08 0x8E else idt s v)"
  "idtp (isr_install isr irq s) = idtp s" "handlers (isr_install isr irq s) = handlers s"
  using fold_gates [of "[0..<32]" 0 isr "0x08" "0x8E"] fold_gates [of "[0..<16]" 32 irq "0x08" "0x8E"]
  by (auto simp: isr_install_def Let_def)

lemma idt_install_idt:
  "idt (idt_install isr irq s) v =
     (if v < 32 then gate (isr v) 0x08 0x8E else if v < 48 then gate (irq (v - 32)) 0x08 0x8E
      else if v < 256 then gate 0 0 0 else idt s v)"
  "idtr (idt_install isr irq s) = \<lparr>ptr_limit = 2047, ptr_base = idt_addr s\<rparr>"
  "handlers (idt_install isr irq s) = handlers s"
  using fold_gates [of "[0..<256]" 0 "\<lambda>_. 0" 0 0] by (auto simp: idt_install_def isr_install_idt Let_def)

text \<open>
  C38: the interrupt gates. After \<open>idt_install\<close> and \<open>syscall_install\<close> the processor finds, through the
  register loaded with the table's address and limit, the fault stub of each vector below 32, the request stub of
  each vector from 32 to 47 and the system-call stub at vector 128, all in the kernel's code segment; every other
  vector is not present. Vector 128 is the only one that user code may raise itself.
\<close>

theorem gates_correct:
  "let s' = syscall_install isr128 (idt_install isr irq s); g = idt s' in
     idtr s' = \<lparr>ptr_limit = 2047, ptr_base = idt_addr s\<rparr> \<and>
     map (\<lambda>v. (gate_present (g v), gate_dpl (g v), gate_sel (g v), gate_offset (g v))) [0..<256] =
       map (\<lambda>n. (True, 0, 1 * 8, isr n)) [0..<32] @ map (\<lambda>n. (True, 0, 1 * 8, irq n)) [0..<16] @
       replicate 80 (False, 0, 0, 0) @ [(True, 3, 1 * 8, isr128)] @ replicate 127 (False, 0, 0, 0)"
  unfolding Let_def
  by (rule conjI, simp add: syscall_install_def idt_set_gate_def idt_install_idt, rule nth_equalityI)
    (auto simp: syscall_install_def idt_set_gate_eq idt_install_idt nth_append gate_fields gate_present_def gate_dpl_def nth_Cons')

text \<open>
  Interrupt requests reach their driver. Once the timer and the keyboard are installed, handling request vector
  \<open>v\<close> acknowledges it at the first controller, and before that at the second one exactly for the
  vectors the second controller raises, and goes on to the routine registered for the vector.
\<close>

theorem irq_dispatch:
  fixes s :: interrupts and isr irq :: "nat \<Rightarrow> u32" and isr128 hz :: u32
  assumes "32 \<le> v" "v < 48" and fresh: "\<And>n. handlers s n = None"
  defines "s' \<equiv> keyboard_install (timer_install hz (syscall_install isr128 (idt_install isr irq s)))"
  shows "fst (irq_handler v s') =
      (if v = 32 then Some Timer_callback else if v = 33 then Some Keyboard_callback else None) \<and>
    port_log (snd (irq_handler v s')) =
      port_log s' @ (if 8 \<le> v - 32 then [(0xA0, 0x20)] else []) @ [(0x20, 0x20)] \<and>
    idt (snd (irq_handler v s')) = idt s'"
proof -
  have h: "handlers s' = (\<lambda>_. None)(32 := Some Timer_callback, 33 := Some Keyboard_callback)"
    using fresh by (auto simp: s'_def keyboard_install_def timer_install_def register_interrupt_handler_def Let_def
      outb_def syscall_install_def idt_set_gate_eq idt_install_idt fun_eq_iff)
  have "unat v = 32 \<longleftrightarrow> v = 32" "unat v = 33 \<longleftrightarrow> v = 33" "v \<ge> 40 \<longleftrightarrow> 8 \<le> v - 32"
    using assms(1,2) by (auto simp: word_le_nat_alt word_less_nat_alt unat_sub intro!: word_unat_eq_iff [THEN iffD2])
  then show ?thesis
    by (auto simp: irq_handler_def outb_def Let_def h)
qed

theorem irq_dispatch_witness:
  "let s = \<lparr>idt = \<lambda>_. gate 0 0 0, idtp = \<lparr>ptr_limit = 0, ptr_base = 0\<rparr>, idt_addr = 0x20000, idtr = \<lparr>ptr_limit = 0, ptr_base = 0\<rparr>,
       handlers = \<lambda>_. None, port_log = []\<rparr>;
     s' = keyboard_install (timer_install 50 (syscall_install 0x11000 (idt_install (\<lambda>n. 0x10000 + of_nat n) (\<lambda>n. 0x10800 + of_nat n) s)))
   in fst (irq_handler 33 s') = Some Keyboard_callback \<and> port_log (snd (irq_handler 33 s')) = port_log s' @ [(0x20, 0x20)]"
  unfolding Let_def
  by (intro conjI; subst irq_dispatch [THEN conjunct1] irq_dispatch [THEN conjunct2, THEN conjunct1]; simp add: word_le_nat_alt)

end
