(* ===== verification/Vmm.thy ===== *)
theory Vmm
  imports Paging "HOL-Library.Multiset"
begin

text \<open>
  The virtual memory manager, \<open>kernel/vmm.c\<close>: address spaces are page directories made of frames
  of the pool, edited in physical memory.  Pointers are 32-bit addresses and the null pointer
  is 0.  \<open>vmm_flush\<close> and the TLB effect of reloading CR3 are not modelled.
\<close>

definition DIR_INDEX :: "u32 \<Rightarrow> u32" where
  "DIR_INDEX v = drop_bit 22 v AND 0x3FF"

definition TAB_INDEX :: "u32 \<Rightarrow> u32" where
  "TAB_INDEX v = drop_bit 12 v AND 0x3FF"

text \<open>The calls into the frame allocator and the block operations, on the whole machine state.\<close>

definition alloc_frame :: "vm \<Rightarrow> u32 \<times> vm" where
  "alloc_frame s = (case pmm_alloc (pmm_st s) of (p, q) \<Rightarrow> (p, s\<lparr>pmm_st := q\<rparr>))"

definition free_frame :: "u32 \<Rightarrow> vm \<Rightarrow> vm" where
  "free_frame p s = s\<lparr>pmm_st := pmm_free p (pmm_st s)\<rparr>"

definition incref_frame :: "u32 \<Rightarrow> vm \<Rightarrow> vm" where
  "incref_frame p s = s\<lparr>pmm_st := pmm_incref p (pmm_st s)\<rparr>"

definition zero_frame :: "u32 \<Rightarrow> vm \<Rightarrow> vm" where
  "zero_frame p s = s\<lparr>ram := memset (ram s) p 0 PAGE_SIZE\<rparr>"

definition copy_frame :: "u32 \<Rightarrow> u32 \<Rightarrow> vm \<Rightarrow> vm" where
  "copy_frame dst src s = s\<lparr>ram := memcpy (ram s) dst src PAGE_SIZE\<rparr>"

definition vmm_install :: "vm \<Rightarrow> vm" where
  "vmm_install s = s\<lparr>kernel_dir := page_directory s\<rparr>"

definition vmm_switch :: "u32 \<Rightarrow> vm \<Rightarrow> vm" where
  "vmm_switch dir s = s\<lparr>cr3 := dir\<rparr>"

definition vmm_create_dir :: "vm \<Rightarrow> u32 \<times> vm" where
  "vmm_create_dir s =
     (let (phys, s) = alloc_frame s
      in if phys = 0 then (0, s)
      else let s = zero_frame phys s;
               s = set_entry phys 0 (get_entry s (kernel_dir s) 0) s;
               s = set_entry phys 1 (get_entry s (kernel_dir s) 1) s
      in (phys, s))"

definition table_for :: "u32 \<Rightarrow> u32 \<Rightarrow> bool \<Rightarrow> u32 \<Rightarrow> vm \<Rightarrow> u32 \<times> vm" where
  "table_for dir virt create flags s =
     (let di = DIR_INDEX virt
      in if get_entry s dir di AND PF_PRESENT = 0
      then if \<not> create then (0, s)
      else let (phys, s) = alloc_frame s
      in if phys = 0 then (0, s)
      else let s = zero_frame phys s;
               s = set_entry dir di (phys OR PF_PRESENT OR PF_RW OR (flags AND PF_USER)) s
      in (FRAME_OF (get_entry s dir di), s)
      else (FRAME_OF (get_entry s dir di), s))"

text \<open>The C functions return 0 for success and -1 for failure; here that is a boolean.\<close>

definition vmm_map :: "u32 \<Rightarrow> u32 \<Rightarrow> u32 \<Rightarrow> u32 \<Rightarrow> vm \<Rightarrow> bool \<times> vm" where
  "vmm_map dir virt phys flags s =
     (let (tab, s) = table_for dir virt True flags s
      in if tab = 0 then (False, s)
      else (True, set_entry tab (TAB_INDEX virt)
             (FRAME_OF phys OR (flags AND 0xFFF) OR PF_PRESENT) s))"

definition vmm_map_alloc :: "u32 \<Rightarrow> u32 \<Rightarrow> u32 \<Rightarrow> vm \<Rightarrow> bool \<times> vm" where
  "vmm_map_alloc dir virt flags s =
     (let (phys, s) = alloc_frame s
      in if phys = 0 then (False, s)
      else vmm_map dir virt phys flags (zero_frame phys s))"

definition vmm_translate :: "vm \<Rightarrow> u32 \<Rightarrow> u32 \<Rightarrow> u32" where
  "vmm_translate s dir virt =
     (let (tab, _) = table_for dir virt False 0 s
      in if tab = 0 then 0
      else let e = get_entry s tab (TAB_INDEX virt)
      in if e AND PF_PRESENT = 0 then 0
      else FRAME_OF e OR (virt AND 0xFFF))"

definition vmm_unmap :: "u32 \<Rightarrow> u32 \<Rightarrow> vm \<Rightarrow> vm" where
  "vmm_unmap dir virt s =
     (let (tab, s) = table_for dir virt False 0 s
      in if tab = 0 then s
      else let e = get_entry s tab (TAB_INDEX virt)
      in if e AND PF_PRESENT \<noteq> 0
         then set_entry tab (TAB_INDEX virt) 0 (free_frame (FRAME_OF e) s) else s)"

text \<open>The loops of \<open>vmm_destroy_dir\<close>: the pages of one table, then one directory slot.\<close>

definition destroy_page :: "u32 \<Rightarrow> u32 \<Rightarrow> vm \<Rightarrow> vm" where
  "destroy_page tab ti s =
     (if get_entry s tab ti AND PF_PRESENT \<noteq> 0
      then free_frame (FRAME_OF (get_entry s tab ti)) s else s)"

definition destroy_slot :: "u32 \<Rightarrow> u32 \<Rightarrow> vm \<Rightarrow> vm" where
  "destroy_slot dir di s =
     (if get_entry s dir di AND PF_PRESENT = 0 then s
      else let tab = FRAME_OF (get_entry s dir di);
               s = fold (destroy_page tab) (idx 0 1024) s;
               s = free_frame (FRAME_OF (get_entry s dir di)) s
      in set_entry dir di 0 s)"

definition vmm_destroy_dir :: "u32 \<Rightarrow> vm \<Rightarrow> vm" where
  "vmm_destroy_dir dir s =
     (if dir = 0 \<or> dir = kernel_dir s then s
      else free_frame dir (fold (destroy_slot dir) (idx 2 1024) s))"

text \<open>
  The loops of \<open>vmm_clone_dir\<close>.  They stop with \<open>False\<close> at the first failed allocation, where the
  source destroys the half-built directory and returns the null pointer.
\<close>

fun clone_pages :: "u32 list \<Rightarrow> u32 \<Rightarrow> u32 \<Rightarrow> vm \<Rightarrow> bool \<times> vm" where
  "clone_pages [] src_tab dst_tab s = (True, s)"
| "clone_pages (ti # tis) src_tab dst_tab s =
     (let e = get_entry s src_tab ti
      in if e AND PF_PRESENT = 0 then clone_pages tis src_tab dst_tab s
      else let (frame, s) = alloc_frame s
      in if frame = 0 then (False, s)
      else clone_pages tis src_tab dst_tab
             (set_entry dst_tab ti (frame OR (e AND 0xFFF)) (copy_frame frame (FRAME_OF e) s)))"

fun clone_slots :: "u32 list \<Rightarrow> u32 \<Rightarrow> u32 \<Rightarrow> vm \<Rightarrow> bool \<times> vm" where
  "clone_slots [] src dst s = (True, s)"
| "clone_slots (di # dis) src dst s =
     (if get_entry s src di AND PF_PRESENT = 0 then clone_slots dis src dst s
      else let (tab_phys, s) = alloc_frame s
      in if tab_phys = 0 then (False, s)
      else let src_tab = FRAME_OF (get_entry s src di);
               s = zero_frame tab_phys s;
               s = set_entry dst di (tab_phys OR (get_entry s src di AND 0xFFF)) s;
               (ok, s) = clone_pages (idx 0 1024) src_tab tab_phys s
      in if ok then clone_slots dis src dst s else (False, s))"

definition vmm_clone_dir :: "u32 \<Rightarrow> vm \<Rightarrow> u32 \<times> vm" where
  "vmm_clone_dir src s =
     (if src = 0 then (0, s)
      else let (dst, s) = vmm_create_dir s
      in if dst = 0 then (0, s)
      else let (ok, s) = clone_slots (idx 2 1024) src dst s
      in if ok then (dst, s) else (0, vmm_destroy_dir dst s))"

definition vmm_dir_frames :: "vm \<Rightarrow> u32 \<Rightarrow> u32" where
  "vmm_dir_frames s dir =
     (if dir = 0 then 0
      else fold (\<lambda>di n. if get_entry s dir di AND PF_PRESENT = 0 then n
             else fold (\<lambda>ti n. if get_entry s (FRAME_OF (get_entry s dir di)) ti AND PF_PRESENT \<noteq> 0
                               then n + 1 else n) (idx 0 1024) (n + 1))
           (idx 2 1024) 1)"

definition cow_page :: "u32 \<Rightarrow> u32 \<Rightarrow> u32 \<Rightarrow> vm \<Rightarrow> vm" where
  "cow_page src_tab dst_tab ti s =
     (let e = get_entry s src_tab ti
      in if e AND PF_PRESENT = 0 then s
      else let frame = FRAME_OF e;
               shared = (e AND NOT PF_RW) OR (if e AND PF_RW \<noteq> 0 then PF_COW else 0)
      in incref_frame frame (set_entry dst_tab ti shared (set_entry src_tab ti shared s)))"

fun cow_slots :: "u32 list \<Rightarrow> u32 \<Rightarrow> u32 \<Rightarrow> vm \<Rightarrow> bool \<times> vm" where
  "cow_slots [] src dst s = (True, s)"
| "cow_slots (di # dis) src dst s =
     (if get_entry s src di AND PF_PRESENT = 0 then cow_slots dis src dst s
      else let (tab_phys, s) = alloc_frame s
      in if tab_phys = 0 then (False, s)
      else let src_tab = FRAME_OF (get_entry s src di);
               s = zero_frame tab_phys s;
               s = set_entry dst di (tab_phys OR (get_entry s src di AND 0xFFF)) s
      in cow_slots dis src dst (fold (cow_page src_tab tab_phys) (idx 0 1024) s))"

definition vmm_clone_cow :: "u32 \<Rightarrow> vm \<Rightarrow> u32 \<times> vm" where
  "vmm_clone_cow src s =
     (if src = 0 then (0, s)
      else let (dst, s) = vmm_create_dir s
      in if dst = 0 then (0, s)
      else let (ok, s) = cow_slots (idx 2 1024) src dst s
      in if ok then (dst, s) else (0, vmm_destroy_dir dst s))"

definition active_dir :: "vm \<Rightarrow> u32" where
  "active_dir s = FRAME_OF (cr3 s)"

definition vmm_cow_handle :: "u32 \<Rightarrow> u32 \<Rightarrow> vm \<Rightarrow> bool \<times> vm" where
  "vmm_cow_handle fault_addr err_code s =
     (if err_code AND 2 = 0 then (False, s)
      else let dir = active_dir s;
               di = DIR_INDEX fault_addr
      in if get_entry s dir di AND PF_PRESENT = 0 then (False, s)
      else let tab = FRAME_OF (get_entry s dir di);
               ti = TAB_INDEX fault_addr;
               e = get_entry s tab ti
      in if e AND PF_PRESENT = 0 \<or> e AND PF_COW = 0 then (False, s)
      else let frame = FRAME_OF e;
               flags = (e AND 0xFFF AND NOT PF_COW) OR PF_RW
      in if pmm_refcount (pmm_st s) frame \<le> 1
         then (True, set_entry tab ti (frame OR flags) s)
         else let (fresh, s) = alloc_frame s
         in if fresh = 0 then (False, s)
         else (True, set_entry tab ti (fresh OR flags)
                 (free_frame frame (copy_frame fresh frame s))))"

end
