(* ===== verification/Ledger.thy ===== *)
theory Ledger
  imports Vmm
begin

text \<open>
  The global invariant of the virtual memory manager and its rules.  Every address space \<open>d\<close>
  holds a multiset of frames: its directory, its page tables and the pages they map.  The
  invariant \<open>vm_inv s D L\<close> says that the owner count of every frame of the pool is exactly the
  number of times the address spaces \<open>D\<close> hold it, plus the owners \<open>L\<close> outside any address space;
  and that directories, tables and writable pages have a single owner.  The rules move frames
  between \<open>L\<close> and the address spaces, one memory access or allocator call at a time.
\<close>

section \<open>What an address space holds\<close>

definition page_ms :: "u32 \<Rightarrow> u32 multiset" where
  "page_ms e = (if bit e 0 then {#FRAME_OF e#} else {#})"

definition tab_ms :: "vm \<Rightarrow> u32 \<Rightarrow> u32 multiset" where
  "tab_ms s t = (\<Sum>j\<in>{..<1024}. page_ms (get_entry s t j))"

definition slot_ms :: "vm \<Rightarrow> u32 \<Rightarrow> u32 \<Rightarrow> u32 multiset" where
  "slot_ms s d i =
     (let e = get_entry s d i in if bit e 0 then add_mset (FRAME_OF e) (tab_ms s (FRAME_OF e)) else {#})"

definition held :: "vm \<Rightarrow> u32 \<Rightarrow> u32 multiset" where
  "held s d = add_mset d (\<Sum>i\<in>{2..<1024}. slot_ms s d i)"

definition tables :: "vm \<Rightarrow> u32 \<Rightarrow> u32 set" where
  "tables s d = {FRAME_OF (get_entry s d i) | i. i \<in> {2..<1024} \<and> bit (get_entry s d i) 0}"

definition writable_frames :: "vm \<Rightarrow> u32 \<Rightarrow> u32 set" where
  "writable_frames s d =
     {FRAME_OF (get_entry s t j) | t j. t \<in> tables s d \<and> j < 1024 \<and>
        bit (get_entry s t j) 0 \<and> bit (get_entry s t j) 1}"

definition struct_frames :: "vm \<Rightarrow> u32 set \<Rightarrow> u32 set" where
  "struct_frames s D = D \<union> (\<Union>d\<in>D. tables s d)"

definition exclusive :: "vm \<Rightarrow> u32 set \<Rightarrow> u32 set" where
  "exclusive s D = struct_frames s D \<union> (\<Union>d\<in>D. writable_frames s d)"

definition all_held :: "vm \<Rightarrow> u32 set \<Rightarrow> u32 multiset" where
  "all_held s D = (\<Sum>d\<in>D. held s d)"

definition vm_inv :: "vm \<Rightarrow> u32 set \<Rightarrow> u32 multiset \<Rightarrow> bool" where
  "vm_inv s D L \<longleftrightarrow>
     pmm_inv (pmm_st s) \<and> page_aligned (kernel_dir s) \<and> kernel_dir s \<notin> pool (pmm_st s) \<and>
     (\<forall>d\<in>D. \<forall>i<2. get_entry s d i = get_entry s (kernel_dir s) i) \<and>
     (\<forall>d\<in>D. \<forall>f. count (held s d) f \<le> 1) \<and>
     set_mset (all_held s D + L) \<subseteq> pool (pmm_st s) \<and>
     (\<forall>f\<in>pool (pmm_st s). owners (pmm_st s) f = count (all_held s D + L) f) \<and>
     (\<forall>f\<in>exclusive s D. owners (pmm_st s) f = 1)"

lemma finite_words [simp]: "finite (A :: u32 set)"
  by simp

lemma held_self [simp]: "d \<in># held s d"
  by (simp add: held_def)

lemma table_in_held: "t \<in> tables s d \<Longrightarrow> t \<in># held s d"
  by (auto simp: tables_def held_def slot_ms_def Let_def set_mset_sum intro!: bexI)

lemma in_tab_ms: "f \<in># tab_ms s t \<longleftrightarrow> (\<exists>j<1024. bit (get_entry s t j) 0 \<and> f = FRAME_OF (get_entry s t j))"
  by (auto simp: tab_ms_def set_mset_sum page_ms_def split: if_splits)

lemma page_in_held:
  "t \<in> tables s d \<Longrightarrow> j < 1024 \<Longrightarrow> bit (get_entry s t j) 0 \<Longrightarrow> FRAME_OF (get_entry s t j) \<in># held s d"
  by (auto simp: tables_def held_def slot_ms_def Let_def set_mset_sum in_tab_ms intro!: bexI)

lemma held_cases:
  assumes "f \<in># held s d"
  obtains (dir) "f = d" | (table) "f \<in> tables s d"
    | (page) t j where "t \<in> tables s d" "j < 1024" "bit (get_entry s t j) 0"
        "f = FRAME_OF (get_entry s t j)"
proof -
  consider "f = d" | i where "i \<in> {2..<1024}" "f \<in># slot_ms s d i"
    using assms by (auto simp: held_def set_mset_sum)
  then show ?thesis
  proof cases
    case (2 i)
    let ?t = "FRAME_OF (get_entry s d i)"
    have "bit (get_entry s d i) 0" "f = ?t \<or> f \<in># tab_ms s ?t"
      using 2(2) by (auto simp: slot_ms_def Let_def split: if_splits)
    moreover from this(1) have "?t \<in> tables s d"
      using 2(1) by (auto simp: tables_def)
    ultimately show ?thesis
      using table page by (auto simp: in_tab_ms)
  qed (rule dir)
qed

lemma writable_in_held: "f \<in> writable_frames s d \<Longrightarrow> f \<in># held s d"
  by (auto simp: writable_frames_def page_in_held)

lemma in_total: "f \<in># all_held s D \<longleftrightarrow> (\<exists>d\<in>D. f \<in># held s d)"
  by (auto simp: all_held_def set_mset_sum)

lemma count_total_ge: "d \<in> D \<Longrightarrow> count (held s d) f \<le> count (all_held s D) f"
  unfolding all_held_def count_sum by (rule member_le_sum) simp_all

lemma total_split: "d \<in> D \<Longrightarrow> all_held s D = held s d + all_held s (D - {d})"
  by (simp add: all_held_def sum.remove)

lemma total_insert: "d \<notin> D \<Longrightarrow> all_held s (insert d D) = held s d + all_held s D"
  by (simp add: all_held_def)

lemma exclusive_in_held:
  "f \<in> exclusive s D \<Longrightarrow> \<exists>d\<in>D. f \<in># held s d"
  by (auto simp: exclusive_def struct_frames_def intro: table_in_held writable_in_held held_self)

section \<open>What a step leaves alone\<close>

text \<open>\<open>modifies W s s'\<close>: going from \<open>s\<close> to \<open>s'\<close> wrote memory only inside the frames \<open>W\<close>.\<close>

definition modifies :: "u32 set \<Rightarrow> vm \<Rightarrow> vm \<Rightarrow> bool" where
  "modifies W s s' \<longleftrightarrow> kernel_dir s' = kernel_dir s \<and> cr3 s' = cr3 s \<and>
     (\<forall>x. FRAME_OF x \<notin> W \<longrightarrow> ram s' x = ram s x)"

lemma modifies_refl [simp]: "modifies W s s"
  by (simp add: modifies_def)

lemma modifies_trans: "modifies W s s' \<Longrightarrow> modifies V s' s'' \<Longrightarrow> modifies (W \<union> V) s s''"
  by (simp add: modifies_def)

lemma modifies_mono: "modifies W s s' \<Longrightarrow> W \<subseteq> V \<Longrightarrow> modifies V s s'"
  by (auto simp: modifies_def)

lemma modifies_set_entry:
  "page_aligned t \<Longrightarrow> i < 1024 \<Longrightarrow> modifies {t} s (set_entry t i e s)"
  unfolding modifies_def set_entry_def
  by simp (metis entry_in_page footprint_page_iff store32_outside)

lemma modifies_pmm [simp]:
  "modifies W s (s'\<lparr>pmm_st := p\<rparr>) \<longleftrightarrow> modifies W s s'"
  "modifies W s (free_frame f s') \<longleftrightarrow> modifies W s s'"
  "modifies W s (incref_frame f s') \<longleftrightarrow> modifies W s s'"
  by (simp_all add: modifies_def free_frame_def incref_frame_def)

lemma unat_PAGE_SIZE [simp]: "unat PAGE_SIZE = 4096"
  by (simp add: PAGE_SIZE_def)

lemma modifies_zero_frame: "page_aligned p \<Longrightarrow> modifies {p} s (zero_frame p s)"
  by (auto simp: modifies_def zero_frame_def memset_apply footprint_page_iff)

lemma page_frames_disjoint:
  "page_aligned p \<Longrightarrow> page_aligned q \<Longrightarrow> p \<noteq> q \<Longrightarrow> footprint p 4096 \<inter> footprint q 4096 = {}"
  by (auto simp: footprint_page_iff)

lemma modifies_copy_frame:
  "page_aligned p \<Longrightarrow> page_aligned q \<Longrightarrow> p \<noteq> q \<Longrightarrow> modifies {p} s (copy_frame p q s)"
  using page_frames_disjoint [of p q]
  by (auto simp: modifies_def copy_frame_def memcpy_apply footprint_page_iff)

lemma modifies_get_entry:
  assumes "modifies W s s'" "page_aligned t" "t \<notin> W" "j < 1024"
  shows "get_entry s' t j = get_entry s t j"
  unfolding get_entry_def
proof (rule load32_cong)
  fix x
  assume "x \<in> footprint (t + 4 * j) 4"
  then have "FRAME_OF x = t"
    using assms(2,4) by (simp add: entry_in_page footprint_page_iff [symmetric])
  then show "ram s' x = ram s x"
    using assms(1,3) by (auto simp: modifies_def)
qed

lemma get_entry_pmm [simp]:
  "get_entry (free_frame f s) = get_entry s" "get_entry (incref_frame f s) = get_entry s"
  by (simp_all add: free_frame_def incref_frame_def)

lemma get_zero_frame:
  "page_aligned p \<Longrightarrow> page_aligned t \<Longrightarrow> j < 1024 \<Longrightarrow>
   get_entry (zero_frame p s) t j = (if p = t then 0 else get_entry s t j)"
  by (simp add: get_entry_def zero_frame_def PAGE_SIZE_def load_memset_entry)

lemma tables_aligned: "t \<in> tables s d \<Longrightarrow> page_aligned t"
  by (auto simp: tables_def)

text \<open>An address space only depends on its own directory and tables.\<close>

lemma space_cong:
  assumes "\<And>i. i \<in> {2..<1024} \<Longrightarrow> get_entry s' d i = get_entry s d i"
    and "\<And>t j. t \<in> tables s d \<Longrightarrow> j < 1024 \<Longrightarrow> get_entry s' t j = get_entry s t j"
  shows "held s' d = held s d" "tables s' d = tables s d" "writable_frames s' d = writable_frames s d"
proof -
  show t: "tables s' d = tables s d"
    using assms(1) by (force simp: tables_def)
  have "slot_ms s' d i = slot_ms s d i" if "i \<in> {2..<1024}" for i
  proof (cases "bit (get_entry s d i) 0")
    case True
    then have "FRAME_OF (get_entry s d i) \<in> tables s d"
      using that by (auto simp: tables_def)
    then have "tab_ms s' (FRAME_OF (get_entry s d i)) = tab_ms s (FRAME_OF (get_entry s d i))"
      unfolding tab_ms_def by (intro sum.cong) (simp_all add: assms(2))
    then show ?thesis
      using that by (simp add: slot_ms_def Let_def assms(1))
  qed (use that in \<open>simp add: slot_ms_def Let_def assms(1)\<close>)
  then show "held s' d = held s d"
    by (simp add: held_def)
  show "writable_frames s' d = writable_frames s d"
    unfolding writable_frames_def t using assms(2) by force
qed

lemma modifies_space:
  assumes "modifies W s s'" "page_aligned d" "d \<notin> W" "tables s d \<inter> W = {}"
  shows "held s' d = held s d" "tables s' d = tables s d" "writable_frames s' d = writable_frames s d"
  using assms by (auto intro!: space_cong modifies_get_entry [OF assms(1)] simp: tables_aligned)

section \<open>Frames held once\<close>

lemma sum_count_le_one:
  assumes "count (\<Sum>i\<in>I. A i) f \<le> 1" "finite I" "i \<in> I" "k \<in> I" "f \<in># A i" "f \<in># A k"
  shows "i = k"
proof (rule ccontr)
  assume "i \<noteq> k"
  then have "count (A i) f + count (A k) f = (\<Sum>l\<in>{i, k}. count (A l) f)"
    by simp
  also have "\<dots> \<le> (\<Sum>l\<in>I. count (A l) f)"
    using assms(2-4) by (intro sum_mono2) auto
  also have "\<dots> \<le> 1"
    using assms(1) by (simp add: count_sum)
  finally show False
    using assms(5,6) by (simp flip: count_greater_zero_iff)
qed

lemma slots_count: "count (\<Sum>i\<in>{2..<1024}. slot_ms s d i) f \<le> count (held s d) f"
  by (simp add: held_def)

lemma slot_count: "i \<in> {2..<1024} \<Longrightarrow> count (slot_ms s d i) f \<le> count (held s d) f"
proof -
  assume "i \<in> {2..<1024}"
  then have "count (slot_ms s d i) f \<le> (\<Sum>k\<in>{2..<1024}. count (slot_ms s d k) f)"
    by (intro member_le_sum) simp_all
  then show ?thesis
    using slots_count [of s d f] by (simp add: count_sum)
qed

lemma table_slot:
  "t \<in> tables s d \<longleftrightarrow> (\<exists>i\<in>{2..<1024}. bit (get_entry s d i) 0 \<and> t = FRAME_OF (get_entry s d i))"
  by (auto simp: tables_def)

lemma slot_ms_present:
  "bit (get_entry s d i) 0 \<Longrightarrow>
   slot_ms s d i = add_mset (FRAME_OF (get_entry s d i)) (tab_ms s (FRAME_OF (get_entry s d i)))"
  by (simp add: slot_ms_def Let_def)

lemma slot_ms_absent: "\<not> bit (get_entry s d i) 0 \<Longrightarrow> slot_ms s d i = {#}"
  by (simp add: slot_ms_def Let_def)

text \<open>
  When a directory holds no frame twice, its directory, tables and pages are all different frames,
  and a table or page is reached by one index only.
\<close>

lemma held_once:
  assumes once: "\<And>f. count (held s d) f \<le> 1"
  shows dir_not_table: "d \<notin> tables s d"
    and slot_unique: "\<And>i k. i \<in> {2..<1024} \<Longrightarrow> k \<in> {2..<1024} \<Longrightarrow>
      bit (get_entry s d i) 0 \<Longrightarrow> bit (get_entry s d k) 0 \<Longrightarrow>
      FRAME_OF (get_entry s d i) = FRAME_OF (get_entry s d k) \<Longrightarrow> i = k"
    and page_not_dir: "\<And>t j. t \<in> tables s d \<Longrightarrow> j < 1024 \<Longrightarrow> bit (get_entry s t j) 0 \<Longrightarrow>
      FRAME_OF (get_entry s t j) \<noteq> d"
    and page_not_table: "\<And>t j u. t \<in> tables s d \<Longrightarrow> j < 1024 \<Longrightarrow> bit (get_entry s t j) 0 \<Longrightarrow>
      u \<in> tables s d \<Longrightarrow> FRAME_OF (get_entry s t j) \<noteq> u"
    and page_unique: "\<And>t j u k. t \<in> tables s d \<Longrightarrow> j < 1024 \<Longrightarrow> bit (get_entry s t j) 0 \<Longrightarrow>
      u \<in> tables s d \<Longrightarrow> k < 1024 \<Longrightarrow> bit (get_entry s u k) 0 \<Longrightarrow>
      FRAME_OF (get_entry s t j) = FRAME_OF (get_entry s u k) \<Longrightarrow> t = u \<and> j = k"
proof -
  have slots: "count (\<Sum>i\<in>{2..<1024}. slot_ms s d i) f \<le> 1" for f
    using slots_count [of s d f] once [of f] by simp
  have same: "i = k" if "i \<in> {2..<1024}" "k \<in> {2..<1024}" "f \<in># slot_ms s d i" "f \<in># slot_ms s d k"
    for i k f
    using sum_count_le_one [OF slots _ that] by simp
  have "count (\<Sum>i\<in>{2..<1024}. slot_ms s d i) d = 0"
    using once [of d] by (simp add: held_def)
  then have dir: "d \<notin># slot_ms s d i" if "i \<in> {2..<1024}" for i
    using that unfolding count_sum by (simp add: not_in_iff)
  have table: "FRAME_OF (get_entry s d i) \<in># slot_ms s d i" if "bit (get_entry s d i) 0" for i
    using that by (simp add: slot_ms_present)
  have page: "f \<in># slot_ms s d i"
    if "bit (get_entry s d i) 0" "f \<in># tab_ms s (FRAME_OF (get_entry s d i))" for i f
    using that by (simp add: slot_ms_present)
  show "d \<notin> tables s d"
    using dir table unfolding table_slot by metis
  show "i = k" if "i \<in> {2..<1024}" "k \<in> {2..<1024}" "bit (get_entry s d i) 0"
    "bit (get_entry s d k) 0" "FRAME_OF (get_entry s d i) = FRAME_OF (get_entry s d k)" for i k
    using same table that by metis
  fix t j
  assume t: "t \<in> tables s d" and j: "j < 1024" "bit (get_entry s t j) 0"
  obtain i where i: "i \<in> {2..<1024}" "bit (get_entry s d i) 0" "t = FRAME_OF (get_entry s d i)"
    using t by (auto simp: table_slot)
  have f: "FRAME_OF (get_entry s t j) \<in># tab_ms s t"
    using j by (auto simp: in_tab_ms)
  then have fi: "FRAME_OF (get_entry s t j) \<in># slot_ms s d i"
    using i page by simp
  show "FRAME_OF (get_entry s t j) \<noteq> d"
    using dir [OF i(1)] fi by metis
  have once_i: "count (slot_ms s d i) f \<le> 1" for f
    using slot_count [OF i(1), of s d f] once [of f] by simp
  have nt: "FRAME_OF (get_entry s t j) \<noteq> t"
  proof
    assume "FRAME_OF (get_entry s t j) = t"
    then have "t \<in># tab_ms s t"
      using f by simp
    moreover have "count (slot_ms s d i) t = Suc (count (tab_ms s t) t)"
      using i by (simp add: slot_ms_present)
    ultimately show False
      using once_i [of t] by (simp flip: count_greater_zero_iff)
  qed
  show "FRAME_OF (get_entry s t j) \<noteq> u" if "u \<in> tables s d" for u
    using that same [OF i(1) _ fi] table i(3) nt unfolding table_slot by metis
  fix u k
  assume u: "u \<in> tables s d" and k: "k < 1024" "bit (get_entry s u k) 0"
    and eq: "FRAME_OF (get_entry s t j) = FRAME_OF (get_entry s u k)"
  obtain l where l: "l \<in> {2..<1024}" "bit (get_entry s d l) 0" "u = FRAME_OF (get_entry s d l)"
    using u by (auto simp: table_slot)
  have "FRAME_OF (get_entry s t j) \<in># slot_ms s d l"
    using k eq l by (auto intro!: page simp: in_tab_ms)
  then have "t = u"
    using same [OF i(1) l(1) fi] i(3) l(3) by simp
  moreover have "count (tab_ms s t) f \<le> 1" for f
    using once_i [of f] i by (simp add: slot_ms_present split: if_splits)
  then have "j = k"
    using j k eq \<open>t = u\<close> unfolding tab_ms_def
    by (intro sum_count_le_one [of "\<lambda>j. page_ms (get_entry s t j)" "{..<1024}" "FRAME_OF (get_entry s t j)"])
      (simp_all add: page_ms_def)
  ultimately show "t = u \<and> j = k" ..
qed

section \<open>Consequences of the invariant\<close>

lemma vm_invD:
  assumes "vm_inv s D L"
  shows vm_inv_pmm: "pmm_inv (pmm_st s)"
    and vm_inv_kernel: "page_aligned (kernel_dir s)" "kernel_dir s \<notin> pool (pmm_st s)"
    and vm_inv_low: "\<And>d i. d \<in> D \<Longrightarrow> i < 2 \<Longrightarrow> get_entry s d i = get_entry s (kernel_dir s) i"
    and vm_inv_once: "\<And>d f. d \<in> D \<Longrightarrow> count (held s d) f \<le> 1"
    and vm_inv_ledger: "\<And>f. f \<in> pool (pmm_st s) \<Longrightarrow>
      owners (pmm_st s) f = count (all_held s D) f + count L f"
    and vm_inv_exclusive: "\<And>f. f \<in> exclusive s D \<Longrightarrow> owners (pmm_st s) f = 1"
  using assms by (auto simp: vm_inv_def)

lemma vm_inv_pool:
  assumes "vm_inv s D L"
  shows "f \<in># L \<Longrightarrow> f \<in> pool (pmm_st s)" "d \<in> D \<Longrightarrow> f \<in># held s d \<Longrightarrow> f \<in> pool (pmm_st s)"
  using assms in_total [of f s D] by (auto simp: vm_inv_def)

lemma vm_inv_aligned:
  assumes "vm_inv s D L"
  shows "f \<in># L \<Longrightarrow> page_aligned f" "d \<in> D \<Longrightarrow> f \<in># held s d \<Longrightarrow> page_aligned f" "d \<in> D \<Longrightarrow> page_aligned d"
  using vm_inv_pool [OF assms] pool_aligned [OF vm_inv_pmm [OF assms]] held_self by blast+

text \<open>A frame with a single owner is held by one address space, or by none and once in \<open>L\<close>.\<close>

lemma single_owner:
  assumes "vm_inv s D L" "d \<in> D" "f \<in># held s d" "owners (pmm_st s) f = 1"
  shows "f \<notin># L" "\<And>e. e \<in> D \<Longrightarrow> f \<in># held s e \<Longrightarrow> e = d"
proof -
  have "count (all_held s D) f + count L f = 1"
    using vm_inv_ledger [OF assms(1)] vm_inv_pool(2) [OF assms(1-3)] assms(4) by simp
  moreover have "0 < count (held s d) f"
    using assms(3) by simp
  ultimately show "f \<notin># L"
    using count_total_ge [OF assms(2), of s f] unfolding not_in_iff by linarith
  fix e
  assume e: "e \<in> D" "f \<in># held s e"
  have "count (\<Sum>d\<in>D. held s d) f \<le> 1"
    using \<open>count (all_held s D) f + count L f = 1\<close> by (simp add: all_held_def)
  then show "e = d"
    by (rule sum_count_le_one [OF _ finite_words e(1) assms(2) e(2) assms(3)])
qed

lemma exclusive_not_external: "vm_inv s D L \<Longrightarrow> f \<in># L \<Longrightarrow> f \<notin> exclusive s D"
  using exclusive_in_held single_owner(1) vm_inv_exclusive by blast

lemma free_not_held:
  assumes "vm_inv s D L" "f \<in> pool (pmm_st s)" "owners (pmm_st s) f = 0"
  shows "f \<notin># L" "d \<in> D \<Longrightarrow> f \<notin># held s d"
  using vm_inv_ledger [OF assms(1,2)] assms(3) count_total_ge [of d D s f]
  by (auto simp: not_in_iff)

lemma struct_in_exclusive: "f \<in> struct_frames s D \<Longrightarrow> f \<in> exclusive s D"
  by (simp add: exclusive_def)

lemma struct_simps:
  "d \<in> D \<Longrightarrow> d \<in> struct_frames s D" "d \<in> D \<Longrightarrow> t \<in> tables s d \<Longrightarrow> t \<in> struct_frames s D"
  by (auto simp: struct_frames_def)

lemma other_space:
  assumes "vm_inv s D L" "d \<in> D" "f = d \<or> f \<in> tables s d" "e \<in> D" "e \<noteq> d"
  shows "f \<notin># held s e"
proof -
  have "f \<in> exclusive s D" "f \<in># held s d"
    using assms(2,3) by (auto intro: struct_in_exclusive struct_simps table_in_held)
  then show ?thesis
    using single_owner(2) [OF assms(1,2)] vm_inv_exclusive [OF assms(1)] assms(4,5) by blast
qed

section \<open>Rules of the ledger\<close>

text \<open>Writing frames that are neither directories nor tables keeps the invariant.\<close>

lemma vm_inv_modifies:
  assumes "vm_inv s D L" "modifies W s s'" "W \<inter> struct_frames s D = {}" "kernel_dir s \<notin> W"
    "pmm_st s' = pmm_st s"
  shows "vm_inv s' D L"
proof -
  have k: "kernel_dir s' = kernel_dir s"
    using assms(2) by (simp add: modifies_def)
  have al: "page_aligned d" "d \<notin> W" "tables s d \<inter> W = {}" if "d \<in> D" for d
    using that assms(3) vm_inv_aligned(3) [OF assms(1)] by (auto simp: struct_frames_def)
  have sp: "held s' d = held s d" "tables s' d = tables s d"
    "writable_frames s' d = writable_frames s d" if "d \<in> D" for d
    using modifies_space [OF assms(2) al [OF that]] .
  have "get_entry s' d i = get_entry s' (kernel_dir s') i" if "d \<in> D" "i < 2" for d i
  proof -
    have "i < 1024"
      using \<open>i < 2\<close> by (simp add: word_less_nat_alt)
    then show ?thesis
      using modifies_get_entry [OF assms(2)] al [OF that(1)] vm_inv_low [OF assms(1) that]
        vm_inv_kernel(1) [OF assms(1)] assms(4) k by simp
  qed
  moreover have "all_held s' D = all_held s D"
    using sp by (simp add: all_held_def)
  moreover have "exclusive s' D = exclusive s D"
    using sp by (simp add: exclusive_def struct_frames_def)
  ultimately show ?thesis
    using assms(1,5) k sp by (simp add: vm_inv_def)
qed

text \<open>Allocator calls: the frame enters or leaves \<open>L\<close>.\<close>

lemma space_pmm [simp]:
  "held (s\<lparr>pmm_st := q\<rparr>) = held s" "exclusive (s\<lparr>pmm_st := q\<rparr>) = exclusive s"
  "tables (s\<lparr>pmm_st := q\<rparr>) = tables s" "all_held (s\<lparr>pmm_st := q\<rparr>) = all_held s"
proof -
  have "tab_ms (s\<lparr>pmm_st := q\<rparr>) = tab_ms s"
    by (rule ext) (simp add: tab_ms_def)
  then show h: "held (s\<lparr>pmm_st := q\<rparr>) = held s"
    by (intro ext) (simp add: held_def slot_ms_def Let_def cong: if_cong)
  show t: "tables (s\<lparr>pmm_st := q\<rparr>) = tables s"
    by (simp add: tables_def fun_eq_iff)
  show "exclusive (s\<lparr>pmm_st := q\<rparr>) = exclusive s"
    by (simp add: exclusive_def struct_frames_def writable_frames_def t fun_eq_iff)
  show "all_held (s\<lparr>pmm_st := q\<rparr>) = all_held s"
    by (simp add: all_held_def h fun_eq_iff)
qed

lemma vm_inv_pmm_step:
  assumes "vm_inv s D L" "pmm_inv q" "pool q = pool (pmm_st s)" "set_mset L' \<subseteq> pool (pmm_st s)"
    and "\<And>f. f \<in> pool (pmm_st s) \<Longrightarrow> owners q f = count (all_held s D) f + count L' f"
    and "\<And>f. f \<in> pool (pmm_st s) \<Longrightarrow> f \<in> exclusive s D \<Longrightarrow> owners q f = 1"
  shows "vm_inv (s\<lparr>pmm_st := q\<rparr>) D L'"
proof -
  have "f \<in> pool (pmm_st s)" if "f \<in> exclusive s D" for f
    using exclusive_in_held [OF that] vm_inv_pool(2) [OF assms(1)] by blast
  then show ?thesis
    using assms unfolding vm_inv_def by auto
qed

lemma alloc_frame_cases:
  assumes "vm_inv s D L" "alloc_frame s = (p, s')"
  obtains (full) "p = 0" "s' = s" "pmm_free_frames (pmm_st s) = 0"
  | (frame) "p \<noteq> 0" "vm_inv s' D (add_mset p L)" "page_aligned p" "p \<in> pool (pmm_st s)"
      "owners (pmm_st s) p = 0" "ram s' = ram s" "modifies {} s s'"
proof -
  obtain q where q: "pmm_alloc (pmm_st s) = (p, q)" "s' = s\<lparr>pmm_st := q\<rparr>"
    using assms(2) by (auto simp: alloc_frame_def split: prod.splits)
  have inv: "pmm_inv (pmm_st s)"
    using assms(1) by (rule vm_inv_pmm)
  show ?thesis
  proof (cases "p = 0")
    case True
    have q': "pmm_alloc (pmm_st s) = (0, q)"
      using q(1) True by simp
    have "fp.free_frames (pmm_st s) = {}"
      using pmm_alloc_none [OF inv q'] by (auto simp: fp.free_frames_def)
    then have "pmm_free_frames (pmm_st s) = 0"
      using pmm_free_frames_card [OF inv] by (simp add: unat_eq_0)
    then show ?thesis
      using full True q(2) pmm_alloc_none [OF inv q'] by simp
  next
    case False
    note fresh = pmm_alloc_fresh [OF inv q(1) False]
    have q_inv: "pmm_inv q" "pool q = pool (pmm_st s)"
      using fp.alloc_keeps [OF inv] q(1) by simp_all
    have "vm_inv s' D (add_mset p L)"
      unfolding q(2)
    proof (rule vm_inv_pmm_step [OF assms(1) q_inv])
      fix f
      assume f: "f \<in> pool (pmm_st s)"
      then show "owners q f = count (all_held s D) f + count (add_mset p L) f"
        using fresh(2,3) vm_inv_ledger [OF assms(1) f] by (cases "f = p") simp_all
      show "owners q f = 1" if "f \<in> exclusive s D"
        using f fresh(3) vm_inv_exclusive [OF assms(1) that] by simp
    qed (use fresh(1) vm_inv_pool(1) [OF assms(1)] in auto)
    then show ?thesis
      using frame False fresh(1,2) q(2) pool_aligned [OF inv fresh(1)] by simp
  qed
qed

lemma vm_inv_free:
  assumes "vm_inv s D (add_mset f L)"
  shows "vm_inv (free_frame f s) D L"
  unfolding free_frame_def
proof (rule vm_inv_pmm_step [OF assms])
  have inv: "pmm_inv (pmm_st s)"
    using assms by (rule vm_inv_pmm)
  have f: "f \<in> pool (pmm_st s)"
    using vm_inv_pool(1) [OF assms] by simp
  show "pmm_inv (pmm_free f (pmm_st s))" "pool (pmm_free f (pmm_st s)) = pool (pmm_st s)"
    using fp.release_keeps [OF inv] by simp_all
  show "set_mset L \<subseteq> pool (pmm_st s)"
    using vm_inv_pool(1) [OF assms] by auto
  fix g
  assume g: "g \<in> pool (pmm_st s)"
  show "owners (pmm_free f (pmm_st s)) g = count (all_held s D) g + count L g"
    using vm_inv_ledger [OF assms g] pmm_free_owners [OF inv f g] by auto
  show "owners (pmm_free f (pmm_st s)) g = 1" if "g \<in> exclusive s D"
    using vm_inv_exclusive [OF assms that] exclusive_not_external [OF assms, of f] that
      pmm_free_owners [OF inv f g] by auto
qed

lemma vm_inv_incref:
  assumes "vm_inv s D L" "f \<in> pool (pmm_st s)" "0 < owners (pmm_st s) f" "owners (pmm_st s) f < 255"
    "f \<notin> exclusive s D"
  shows "vm_inv (incref_frame f s) D (add_mset f L)"
  unfolding incref_frame_def
proof (rule vm_inv_pmm_step [OF assms(1)])
  have inv: "pmm_inv (pmm_st s)"
    using assms(1) by (rule vm_inv_pmm)
  show "pmm_inv (pmm_incref f (pmm_st s))" "pool (pmm_incref f (pmm_st s)) = pool (pmm_st s)"
    using fp.share_keeps [OF inv] by simp_all
  show "set_mset (add_mset f L) \<subseteq> pool (pmm_st s)"
    using vm_inv_pool(1) [OF assms(1)] assms(2) by auto
  fix g
  assume g: "g \<in> pool (pmm_st s)"
  note inc = fp.share_owned [OF inv assms(2) g assms(3,4)]
  show "owners (pmm_incref f (pmm_st s)) g = count (all_held s D) g + count (add_mset f L) g"
    using vm_inv_ledger [OF assms(1) g] inc by (cases "g = f") simp_all
  show "owners (pmm_incref f (pmm_st s)) g = 1" if "g \<in> exclusive s D"
    using vm_inv_exclusive [OF assms(1) that] assms(5) that inc by auto
qed

lemma add_exchange: "a + p = b + q \<Longrightarrow> a + c + p = b + c + (q :: 'a :: comm_monoid_add)"
  by (metis add.assoc add.commute)

text \<open>Storing a page-table entry moves a frame between \<open>L\<close> and the address space.\<close>

lemma tab_ms_set_entry:
  assumes "page_aligned t" "page_aligned u" "j < 1024"
  shows "u \<noteq> t \<Longrightarrow> tab_ms (set_entry t j e s) u = tab_ms s u"
    and "tab_ms (set_entry t j e s) t + page_ms (get_entry s t j) = tab_ms s t + page_ms e"
proof -
  show "tab_ms (set_entry t j e s) u = tab_ms s u" if "u \<noteq> t"
    unfolding tab_ms_def using assms that by (intro sum.cong) (simp_all add: get_set_entry)
  have "tab_ms (set_entry t j e s) t =
      page_ms e + (\<Sum>k\<in>{..<1024} - {j}. page_ms (get_entry (set_entry t j e s) t k))"
    unfolding tab_ms_def using assms by (subst sum.remove [of _ j]) (simp_all add: get_set_entry)
  also have "(\<Sum>k\<in>{..<1024} - {j}. page_ms (get_entry (set_entry t j e s) t k)) =
      (\<Sum>k\<in>{..<1024} - {j}. page_ms (get_entry s t k))"
    using assms by (intro sum.cong) (auto simp: get_set_entry)
  finally show "tab_ms (set_entry t j e s) t + page_ms (get_entry s t j) = tab_ms s t + page_ms e"
    unfolding tab_ms_def using assms(3) by (subst (2) sum.remove [of _ j]) (simp_all add: ac_simps)
qed

lemma held_set_page:
  assumes "\<And>f. count (held s d) f \<le> 1" "page_aligned d" "t \<in> tables s d" "j < 1024"
  shows "held (set_entry t j e s) d + page_ms (get_entry s t j) = held s d + page_ms e"
    and "tables (set_entry t j e s) d = tables s d"
proof -
  let ?s = "set_entry t j e s"
  have t: "page_aligned t" "t \<noteq> d"
    using assms(3) tables_aligned dir_not_table [OF assms(1)] by auto
  then have dir: "get_entry ?s d i = get_entry s d i" if "i \<in> {2..<1024}" for i
    using that assms(2,4) by (simp add: get_set_entry)
  then show "tables ?s d = tables s d"
    by (auto simp: table_slot)
  obtain i where i: "i \<in> {2..<1024}" "bit (get_entry s d i) 0" "t = FRAME_OF (get_entry s d i)"
    using assms(3) by (auto simp: table_slot)
  have same: "slot_ms ?s d k = slot_ms s d k" if k: "k \<in> {2..<1024} - {i}" for k
  proof (cases "bit (get_entry s d k) 0")
    case True
    then have "FRAME_OF (get_entry s d k) \<noteq> t"
      using slot_unique [OF assms(1), of k i] k i by auto
    then show ?thesis
      using k dir tab_ms_set_entry(1) [OF t(1) _ assms(4)] by (simp add: slot_ms_def Let_def)
  qed (use k dir in \<open>simp add: slot_ms_def Let_def\<close>)
  have slot: "slot_ms ?s d i + page_ms (get_entry s t j) = slot_ms s d i + page_ms e"
    using dir [OF i(1)] i tab_ms_set_entry(2) [OF t(1) t(1) assms(4), of e s]
    by (simp add: slot_ms_present)
  define R where "R = (\<Sum>k\<in>{2..<1024} - {i}. slot_ms s d k)"
  have "(\<Sum>k\<in>{2..<1024} - {i}. slot_ms ?s d k) = R"
    unfolding R_def using same by (rule sum.cong [OF refl])
  then have "(\<Sum>k\<in>{2..<1024}. slot_ms ?s d k) = slot_ms ?s d i + R"
    "(\<Sum>k\<in>{2..<1024}. slot_ms s d k) = slot_ms s d i + R"
    using sum.remove [OF finite_words i(1), of "slot_ms ?s d"]
      sum.remove [OF finite_words i(1), of "slot_ms s d"] by (simp_all only: R_def)
  then have "(\<Sum>k\<in>{2..<1024}. slot_ms ?s d k) + page_ms (get_entry s t j) =
      (\<Sum>k\<in>{2..<1024}. slot_ms s d k) + page_ms e"
    using add_exchange [OF slot] by simp
  then show "held ?s d + page_ms (get_entry s t j) = held s d + page_ms e"
    by (simp add: held_def)
qed

lemma vm_inv_set_page:
  assumes inv: "vm_inv s D L" and d: "d \<in> D" and t: "t \<in> tables s d" and j: "j < 1024"
    and move: "L' + page_ms e = L + page_ms (get_entry s t j)"
    and once: "\<And>f. count (held s d) f + count (page_ms e) f \<le> count (page_ms (get_entry s t j)) f + 1"
    and rw: "bit e 0 \<Longrightarrow> bit e 1 \<Longrightarrow> owners (pmm_st s) (FRAME_OF e) = 1"
  shows "vm_inv (set_entry t j e s) D L'"
proof -
  let ?s = "set_entry t j e s" and ?o = "get_entry s t j"
  have al: "page_aligned t" "page_aligned d"
    using t tables_aligned vm_inv_aligned(3) [OF inv d] by auto
  have m: "modifies {t} s ?s"
    using al j by (intro modifies_set_entry)
  have other: "held ?s c = held s c" "tables ?s c = tables s c"
    "writable_frames ?s c = writable_frames s c" if c: "c \<in> D - {d}" for c
  proof -
    have "t \<notin># held s c"
      using other_space [OF inv d] t c by blast
    then have "c \<notin> {t}" "tables s c \<inter> {t} = {}" "page_aligned c"
      using table_in_held vm_inv_aligned(3) [OF inv] c by auto
    then show "held ?s c = held s c" "tables ?s c = tables s c"
      "writable_frames ?s c = writable_frames s c"
      using modifies_space [OF m] by blast+
  qed
  note here = held_set_page [OF vm_inv_once [OF inv d] al(2) t j, of e]
  have not_dir: "c \<noteq> t" if "c \<in> D" for c
    using that other_space [OF inv d _ that] t dir_not_table [OF vm_inv_once [OF inv d]] by fastforce
  have "all_held ?s (D - {d}) = all_held s (D - {d})"
    unfolding all_held_def using other by (intro sum.cong) simp_all
  then have ex: "all_held ?s D + page_ms ?o = all_held s D + page_ms e"
    using add_exchange [OF here(1), of "all_held s (D - {d})"]
      total_split [OF d, of s] total_split [OF d, of ?s] by simp
  have "(all_held ?s D + L') + page_ms ?o = (all_held ?s D + page_ms ?o) + L'"
    by (simp add: ac_simps)
  also have "\<dots> = all_held s D + (L' + page_ms e)"
    unfolding ex by (simp add: ac_simps)
  also have "\<dots> = (all_held s D + L) + page_ms ?o"
    unfolding move by (simp add: ac_simps)
  finally have same: "all_held ?s D + L' = all_held s D + L"
    by simp
  have "count (held ?s c) f \<le> 1" if "c \<in> D" for c f
  proof (cases "c = d")
    case True
    have "count (held ?s d) f + count (page_ms ?o) f = count (held s d) f + count (page_ms e) f"
      using arg_cong [OF here(1), of "\<lambda>m. count m f"] by simp
    then show ?thesis
      using True once [of f] by simp
  qed (use that other vm_inv_once [OF inv] in simp)
  moreover have "get_entry ?s c i = get_entry ?s (kernel_dir ?s) i" if c: "c \<in> D" and i: "i < 2" for c i
  proof -
    have "i < 1024" "kernel_dir s \<noteq> t"
      using i vm_inv_kernel(2) [OF inv] vm_inv_pool(2) [OF inv d table_in_held [OF t]]
      by (auto simp: word_less_nat_alt)
    then show ?thesis
      using vm_inv_low [OF inv c i] not_dir [OF c] al j vm_inv_kernel(1) [OF inv]
        vm_inv_aligned(3) [OF inv c] by (simp add: get_set_entry)
  qed
  moreover have "owners (pmm_st s) f = 1" if fx: "f \<in> exclusive ?s D" for f
  proof -
    have tb: "tables ?s c = tables s c" if "c \<in> D" for c
      using that here(2) other(2) by (cases "c = d") auto
    have wr: "g \<in> writable_frames s d \<or> bit e 0 \<and> bit e 1 \<and> g = FRAME_OF e"
      if "g \<in> writable_frames ?s d" for g
      using that j al(1) tables_aligned unfolding writable_frames_def here(2)
      by (auto simp: get_set_entry split: if_splits)
    consider "f \<in> struct_frames ?s D" | c where "c \<in> D" "f \<in> writable_frames ?s c"
      using fx by (auto simp: exclusive_def)
    then have "f \<in> exclusive s D \<or> bit e 0 \<and> bit e 1 \<and> f = FRAME_OF e"
    proof cases
      case 1
      then show ?thesis
        using tb by (simp add: exclusive_def struct_frames_def)
    next
      case (2 c)
      then show ?thesis
        using other(3) [of c] wr [of f] by (cases "c = d") (auto simp: exclusive_def)
    qed
    then show ?thesis
      using vm_inv_exclusive [OF inv] rw by auto
  qed
  ultimately show ?thesis
    using inv same unfolding vm_inv_def by auto
qed

text \<open>A frame of \<open>L\<close> with a single owner is in no address space.\<close>

lemma external_not_held:
  assumes "vm_inv s D (add_mset p L)" "owners (pmm_st s) p = 1"
  shows "d \<in> D \<Longrightarrow> p \<notin># held s d"
  using single_owner(1) [OF assms(1) _ _ assms(2), of d] by auto

lemma empty_tab_ms: "(\<And>j. j < 1024 \<Longrightarrow> \<not> bit (get_entry s t j) 0) \<Longrightarrow> tab_ms s t = {#}"
  by (simp add: tab_ms_def page_ms_def)

text \<open>Hooking an empty table into a directory.\<close>

lemma held_set_slot:
  assumes "page_aligned d" "d \<notin> tables s d" "i \<in> {2..<1024}" "\<not> bit (get_entry s d i) 0" "bit e 0"
    "FRAME_OF e \<noteq> d" "\<And>j. j < 1024 \<Longrightarrow> \<not> bit (get_entry s (FRAME_OF e) j) 0"
  shows "held (set_entry d i e s) d = add_mset (FRAME_OF e) (held s d)"
    and "tables (set_entry d i e s) d = insert (FRAME_OF e) (tables s d)"
proof -
  let ?s = "set_entry d i e s"
  have i: "i < 1024"
    using assms(3) by simp
  have dir: "get_entry ?s d k = (if k = i then e else get_entry s d k)" if "k \<in> {2..<1024}" for k
    using that assms(1) i by (auto simp: get_set_entry)
  have tab: "tab_ms ?s t = tab_ms s t" if "t \<noteq> d" "page_aligned t" for t
    using tab_ms_set_entry(1) [OF assms(1) that(2) i] that(1) by blast
  have "slot_ms ?s d k = slot_ms s d k" if k: "k \<in> {2..<1024} - {i}" for k
  proof (cases "bit (get_entry s d k) 0")
    case True
    then have "FRAME_OF (get_entry s d k) \<noteq> d"
      using assms(2) k by (auto simp: table_slot)
    then show ?thesis
      using dir k tab by (simp add: slot_ms_def Let_def)
  qed (use dir k in \<open>simp add: slot_ms_def Let_def\<close>)
  then have rest: "(\<Sum>k\<in>{2..<1024} - {i}. slot_ms ?s d k) = (\<Sum>k\<in>{2..<1024} - {i}. slot_ms s d k)"
    by (rule sum.cong [OF refl])
  have "slot_ms ?s d i = {#FRAME_OF e#}" "slot_ms s d i = {#}"
    using dir [OF assms(3)] assms(4-7) tab by (simp_all add: slot_ms_def Let_def empty_tab_ms)
  then show "held ?s d = add_mset (FRAME_OF e) (held s d)"
    using sum.remove [OF finite_words assms(3), of "slot_ms ?s d"]
      sum.remove [OF finite_words assms(3), of "slot_ms s d"] rest by (simp add: held_def)
  show "tables ?s d = insert (FRAME_OF e) (tables s d)"
  proof (intro equalityI subsetI)
    fix t
    assume "t \<in> tables ?s d"
    then obtain k where k: "k \<in> {2..<1024}" "bit (get_entry ?s d k) 0" "t = FRAME_OF (get_entry ?s d k)"
      by (auto simp: table_slot)
    then show "t \<in> insert (FRAME_OF e) (tables s d)"
      using dir [OF k(1)] by (cases "k = i") (auto simp: table_slot)
  next
    fix t
    assume "t \<in> insert (FRAME_OF e) (tables s d)"
    then show "t \<in> tables ?s d"
    proof
      assume "t = FRAME_OF e"
      then show ?thesis
        unfolding table_slot using dir [OF assms(3)] assms(3,5) by (intro bexI [of _ i]) simp_all
    next
      assume "t \<in> tables s d"
      then obtain k where k: "k \<in> {2..<1024}" "bit (get_entry s d k) 0" "t = FRAME_OF (get_entry s d k)"
        unfolding table_slot by blast
      then have "k \<noteq> i"
        using assms(4) by metis
      with k show ?thesis
        unfolding table_slot using dir [OF k(1)] by (intro bexI [of _ k]) simp_all
    qed
  qed
qed

lemma vm_inv_set_slot:
  assumes inv: "vm_inv s D (add_mset (FRAME_OF e) L)" and own: "owners (pmm_st s) (FRAME_OF e) = 1"
    and d: "d \<in> D" and i: "i \<in> {2..<1024}" "\<not> bit (get_entry s d i) 0" and e: "bit e 0"
    and empty: "\<And>j. j < 1024 \<Longrightarrow> \<not> bit (get_entry s (FRAME_OF e) j) 0"
  shows "vm_inv (set_entry d i e s) D L"
proof -
  let ?s = "set_entry d i e s" and ?p = "FRAME_OF e"
  note out = external_not_held [OF inv own]
  have al: "page_aligned d" "i < 1024"
    using vm_inv_aligned(3) [OF inv d] i by auto
  have nd: "d \<notin> tables s d" "?p \<noteq> d"
    using dir_not_table [OF vm_inv_once [OF inv d]] out [OF d] held_self [of d s] by metis+
  have here: "held ?s d = add_mset ?p (held s d)" "tables ?s d = insert ?p (tables s d)"
    using held_set_slot [OF al(1) nd(1) i e nd(2)] empty by blast+
  have m: "modifies {d} s ?s"
    using al by (intro modifies_set_entry)
  have other: "held ?s c = held s c" "tables ?s c = tables s c"
    "writable_frames ?s c = writable_frames s c" if c: "c \<in> D - {d}" for c
  proof -
    have "d \<notin># held s c"
      using other_space [OF inv d] c by blast
    then have "c \<notin> {d}" "tables s c \<inter> {d} = {}" "page_aligned c"
      using table_in_held vm_inv_aligned(3) [OF inv] c by auto
    then show "held ?s c = held s c" "tables ?s c = tables s c"
      "writable_frames ?s c = writable_frames s c"
      using modifies_space [OF m] by blast+
  qed
  have "all_held ?s (D - {d}) = all_held s (D - {d})"
    unfolding all_held_def using other by (intro sum.cong) simp_all
  then have all: "all_held ?s D + L = all_held s D + add_mset ?p L"
    using here(1) total_split [OF d, of s] total_split [OF d, of ?s] by simp
  have "count (held ?s c) f \<le> 1" if "c \<in> D" for c f
    using that other(1) [of c] here(1) vm_inv_once [OF inv that, of f] out [OF d]
    by (cases "c = d") (auto simp: not_in_iff)
  moreover have "get_entry ?s c k = get_entry ?s (kernel_dir ?s) k" if c: "c \<in> D" and k: "k < 2" for c k
  proof -
    have "kernel_dir s \<noteq> d" "i \<noteq> k"
      using k i(1) vm_inv_kernel(2) [OF inv] vm_inv_pool(2) [OF inv d held_self] by auto
    moreover have "k < 1024"
      using k by (simp add: word_less_nat_alt)
    ultimately show ?thesis
      using vm_inv_low [OF inv c k] al vm_inv_kernel(1) [OF inv]
        vm_inv_aligned(3) [OF inv c] by (simp add: get_set_entry)
  qed
  moreover have "owners (pmm_st s) f = 1" if fx: "f \<in> exclusive ?s D" for f
  proof -
    have wr: "g \<in> writable_frames s d" if "g \<in> writable_frames ?s d" for g
      using that nd al empty tables_aligned unfolding writable_frames_def here(2)
      by (auto simp: get_set_entry) blast+
    have tb: "tables ?s c \<subseteq> insert ?p (tables s c)" if "c \<in> D" for c
      using that here(2) other(2) by (cases "c = d") auto
    consider "f \<in> struct_frames ?s D" | c where "c \<in> D" "f \<in> writable_frames ?s c"
      using fx by (auto simp: exclusive_def)
    then have "f \<in> exclusive s D \<or> f = ?p"
    proof cases
      case 1
      then show ?thesis
        using tb by (fastforce simp: exclusive_def struct_frames_def)
    next
      case (2 c)
      then show ?thesis
        using other(3) [of c] wr [of f] by (cases "c = d") (auto simp: exclusive_def)
    qed
    then show ?thesis
      using vm_inv_exclusive [OF inv] own by auto
  qed
  ultimately show ?thesis
    using inv all unfolding vm_inv_def by auto
qed

text \<open>An external frame becomes an empty address space; an address space is given up.\<close>

lemma held_empty_dir:
  assumes "\<And>i. i \<in> {2..<1024} \<Longrightarrow> \<not> bit (get_entry s p i) 0"
  shows "held s p = {#p#}" "tables s p = {}" "writable_frames s p = {}"
proof -
  have "slot_ms s p i = {#}" if "i \<in> {2..<1024}" for i
    using assms [OF that] by (rule slot_ms_absent)
  then show "held s p = {#p#}"
    by (simp add: held_def)
  show "tables s p = {}"
    using assms unfolding table_slot by (auto simp: tables_def)
  then show "writable_frames s p = {}"
    by (simp add: writable_frames_def)
qed

lemma vm_inv_new_dir:
  assumes inv: "vm_inv s D (add_mset p L)" and own: "owners (pmm_st s) p = 1"
    and empty: "\<And>i. i \<in> {2..<1024} \<Longrightarrow> \<not> bit (get_entry s p i) 0"
    and low: "\<And>i. i < 2 \<Longrightarrow> get_entry s p i = get_entry s (kernel_dir s) i"
  shows "vm_inv s (insert p D) L" "p \<notin> D"
proof -
  show new: "p \<notin> D"
    using external_not_held [OF inv own] held_self by blast
  have h: "held s p = {#p#}" "tables s p = {}" "writable_frames s p = {}"
    using held_empty_dir empty by blast+
  then have "all_held s (insert p D) + L = all_held s D + add_mset p L"
    using total_insert [OF new, of s] by simp
  moreover have "exclusive s (insert p D) = insert p (exclusive s D)"
    using h by (auto simp: exclusive_def struct_frames_def)
  ultimately show "vm_inv s (insert p D) L"
    using inv own h low unfolding vm_inv_def by auto
qed

lemma vm_inv_drop_dir:
  assumes inv: "vm_inv s D L" and d: "d \<in> D"
  shows "vm_inv s (D - {d}) (held s d + L)"
proof -
  have eq: "all_held s (D - {d}) + (held s d + L) = all_held s D + L"
    using total_split [OF d, of s] by (simp add: ac_simps)
  have "exclusive s (D - {d}) \<subseteq> exclusive s D"
    by (auto simp: exclusive_def struct_frames_def)
  then show ?thesis
    using inv unfolding vm_inv_def eq by blast
qed

section \<open>Tearing an address space down\<close>

lemma pages_idx: "(\<Sum>j\<in>{..<1024}. f j) = (\<Sum>j\<in>set (idx 0 1024). f j)"
  by (rule sum.cong) (auto simp: set_idx)

lemma slots_idx: "(\<Sum>i\<in>{2..<1024}. f i) = (\<Sum>i\<in>set (idx 2 1024). f i)"
  by (rule sum.cong) (auto simp: set_idx)

lemma destroy_pages:
  assumes "distinct js" "vm_inv s D ((\<Sum>j\<in>set js. page_ms (get_entry s t j)) + L)"
  shows "vm_inv (fold (destroy_page t) js s) D L \<and> ram (fold (destroy_page t) js s) = ram s \<and>
    kernel_dir (fold (destroy_page t) js s) = kernel_dir s \<and> cr3 (fold (destroy_page t) js s) = cr3 s"
  using assms
proof (induction js arbitrary: s)
  case (Cons j js)
  let ?e = "get_entry s t j"
  have inv: "vm_inv s D (page_ms ?e + ((\<Sum>j\<in>set js. page_ms (get_entry s t j)) + L))"
    using Cons.prems by (simp add: ac_simps)
  show ?case
  proof (cases "bit ?e 0")
    case True
    then have step: "destroy_page t j s = free_frame (FRAME_OF ?e) s"
      by (simp add: destroy_page_def flag_simps)
    have "vm_inv (free_frame (FRAME_OF ?e) s) D ((\<Sum>j\<in>set js. page_ms (get_entry s t j)) + L)"
      using inv True by (intro vm_inv_free) (simp add: page_ms_def)
    then show ?thesis
      using Cons.IH [of "free_frame (FRAME_OF ?e) s"] Cons.prems(1) step
      by (simp add: free_frame_def)
  next
    case False
    then show ?thesis
      using Cons.IH [of s] Cons.prems(1) inv by (simp add: destroy_page_def flag_simps page_ms_def)
  qed
qed simp

lemma struct_modifies:
  assumes "modifies W s s'" "W \<inter> struct_frames s D = {}" "\<And>c. c \<in> D \<Longrightarrow> page_aligned c"
  shows "struct_frames s' D = struct_frames s D"
proof -
  have "tables s' c = tables s c" if "c \<in> D" for c
    using modifies_space(2) [OF assms(1) assms(3) [OF that]] assms(2) that
    by (auto simp: struct_frames_def)
  then show ?thesis
    by (simp add: struct_frames_def)
qed

lemma same_ram:
  assumes "ram s' = ram s"
  shows "get_entry s' = get_entry s" "struct_frames s' = struct_frames s"
proof -
  show e: "get_entry s' = get_entry s"
    using assms by (intro ext) (simp add: get_entry_def)
  show "struct_frames s' = struct_frames s"
    by (intro ext) (simp add: struct_frames_def tables_def e)
qed

lemma destroy_slot_ok:
  assumes inv: "vm_inv s D (slot_ms s d i + L)" and d: "page_aligned d" "d \<notin> struct_frames s D"
    "d \<noteq> kernel_dir s" and i: "i < 1024"
  shows "vm_inv (destroy_slot d i s) D L \<and> modifies {d} s (destroy_slot d i s) \<and>
    (\<forall>k<1024. k \<noteq> i \<longrightarrow> get_entry (destroy_slot d i s) d k = get_entry s d k)"
proof (cases "bit (get_entry s d i) 0")
  case True
  let ?t = "FRAME_OF (get_entry s d i)"
  let ?s1 = "fold (destroy_page ?t) (idx 0 1024) s"
  have "vm_inv s D ((\<Sum>j\<in>set (idx 0 1024). page_ms (get_entry s ?t j)) + add_mset ?t L)"
    using inv True by (simp add: slot_ms_present tab_ms_def pages_idx)
  from destroy_pages [OF distinct_idx this]
  have s1: "vm_inv ?s1 D (add_mset ?t L)" "ram ?s1 = ram s" "kernel_dir ?s1 = kernel_dir s"
    "cr3 ?s1 = cr3 s"
    by simp_all
  let ?s2 = "free_frame ?t ?s1"
  have s2: "vm_inv ?s2 D L" "ram ?s2 = ram s" "kernel_dir ?s2 = kernel_dir s" "cr3 ?s2 = cr3 s"
    using vm_inv_free [OF s1(1)] s1(2-4) by (simp_all add: free_frame_def)
  have eq: "destroy_slot d i s = set_entry d i 0 ?s2"
    using True same_ram(1) [OF s1(2)] by (simp add: destroy_slot_def flag_simps Let_def)
  have "modifies {d} ?s2 (set_entry d i 0 ?s2)"
    using d(1) i by (rule modifies_set_entry)
  moreover from this have "vm_inv (set_entry d i 0 ?s2) D L"
    using d(2,3) same_ram(2) [OF s2(2)] s2(3) by (intro vm_inv_modifies [OF s2(1)]) auto
  ultimately show ?thesis
    using d(1) i same_ram(1) [OF s2(2)] s2 unfolding eq
    by (auto simp: modifies_def get_set_entry)
next
  case False
  then show ?thesis
    using inv by (simp add: destroy_slot_def flag_simps slot_ms_absent)
qed

lemma slot_modifies:
  assumes "modifies {d} s s'" "get_entry s' d k = get_entry s d k"
    "bit (get_entry s d k) 0 \<Longrightarrow> FRAME_OF (get_entry s d k) \<noteq> d"
  shows "slot_ms s' d k = slot_ms s d k"
proof (cases "bit (get_entry s d k) 0")
  case True
  then have "tab_ms s' (FRAME_OF (get_entry s d k)) = tab_ms s (FRAME_OF (get_entry s d k))"
    unfolding tab_ms_def using assms(3)
    by (intro sum.cong) (auto simp: modifies_get_entry [OF assms(1)])
  then show ?thesis
    using assms(2) by (simp add: slot_ms_def Let_def)
qed (simp add: slot_ms_absent assms(2))

lemma destroy_slots:
  assumes "distinct is" "set is \<subseteq> {2..<1024}"
    "vm_inv s D ((\<Sum>i\<in>set is. slot_ms s d i) + L)"
    "page_aligned d" "d \<notin> struct_frames s D" "d \<noteq> kernel_dir s"
    "\<And>i. i \<in> set is \<Longrightarrow> bit (get_entry s d i) 0 \<Longrightarrow> FRAME_OF (get_entry s d i) \<noteq> d"
  shows "vm_inv (fold (destroy_slot d) is s) D L \<and> modifies {d} s (fold (destroy_slot d) is s)"
  using assms
proof (induction "is" arbitrary: s)
  case (Cons i "is")
  let ?s = "destroy_slot d i s"
  have "vm_inv s D (slot_ms s d i + ((\<Sum>i\<in>set is. slot_ms s d i) + L))" "i < 1024"
    using Cons.prems(1-3) by (simp_all add: ac_simps)
  from destroy_slot_ok [OF this(1) Cons.prems(4-6) this(2)]
  have s1: "vm_inv ?s D ((\<Sum>i\<in>set is. slot_ms s d i) + L)" "modifies {d} s ?s"
    "\<And>k. k < 1024 \<Longrightarrow> k \<noteq> i \<Longrightarrow> get_entry ?s d k = get_entry s d k"
    by blast+
  have k: "get_entry ?s d k = get_entry s d k" if "k \<in> set is" for k
    using that Cons.prems(1,2) by (intro s1(3)) auto
  have "(\<Sum>i\<in>set is. slot_ms ?s d i) = (\<Sum>i\<in>set is. slot_ms s d i)"
    using k Cons.prems(7) by (intro sum.cong slot_modifies [OF s1(2)]) auto
  moreover have "struct_frames ?s D = struct_frames s D"
    using Cons.prems(5) vm_inv_aligned(3) [OF Cons.prems(3)]
    by (intro struct_modifies [OF s1(2)]) auto
  moreover have "kernel_dir ?s = kernel_dir s"
    using s1(2) by (simp add: modifies_def)
  ultimately have "vm_inv (fold (destroy_slot d) is ?s) D L"
    "modifies {d} ?s (fold (destroy_slot d) is ?s)"
    using Cons.IH [of ?s] Cons.prems(1,2,4-7) s1(1) k by auto
  then show ?case
    using modifies_trans [OF s1(2)] by fastforce
qed simp

lemma vmm_destroy_dir_inv:
  assumes inv: "vm_inv s D L" and d: "d \<in> D"
  shows "vm_inv (vmm_destroy_dir d s) (D - {d}) L" "modifies {d} s (vmm_destroy_dir d s)"
proof -
  have p: "d \<in> pool (pmm_st s)"
    using vm_inv_pool(2) [OF inv d] by simp
  have nz: "d \<noteq> 0" "d \<noteq> kernel_dir s"
    using p pool_nonzero [OF vm_inv_pmm [OF inv]] vm_inv_kernel(2) [OF inv] by auto
  have ext: "vm_inv s (D - {d}) ((\<Sum>i\<in>set (idx 2 1024). slot_ms s d i) + add_mset d L)"
    using vm_inv_drop_dir [OF inv d] by (simp add: held_def slots_idx ac_simps)
  have "d \<notin> struct_frames s (D - {d})"
    using exclusive_not_external [OF ext, of d] struct_in_exclusive [of d s "D - {d}"] by auto
  moreover have "FRAME_OF (get_entry s d i) \<noteq> d" if "i \<in> set (idx 2 1024)" "bit (get_entry s d i) 0" for i
    using that dir_not_table [OF vm_inv_once [OF inv d]] by (auto simp: table_slot set_idx)
  moreover have "set (idx 2 1024) \<subseteq> {2..<1024}"
    by (auto simp: set_idx)
  ultimately have "vm_inv (fold (destroy_slot d) (idx 2 1024) s) (D - {d}) (add_mset d L) \<and>
    modifies {d} s (fold (destroy_slot d) (idx 2 1024) s)"
    using nz(2) vm_inv_aligned(3) [OF inv d] by (intro destroy_slots [OF _ _ ext] distinct_idx) simp_all
  then show "vm_inv (vmm_destroy_dir d s) (D - {d}) L" "modifies {d} s (vmm_destroy_dir d s)"
    using nz vm_inv_free by (simp_all add: vmm_destroy_dir_def)
qed

end
