(* ===== verification/Spaces.thy ===== *)
theory Spaces
  imports Ledger
begin

text \<open>
  What the operations of \<open>kernel/vmm.c\<close> do to address spaces: creating them, mapping and unmapping
  pages, and tearing them down.  The view a process has of its memory is the page-table entry and
  the byte behind each virtual address above 8 MB; each theorem says which views an operation
  changes and how, and that the ledger invariant is kept.
\<close>

section \<open>Creating address spaces and pages\<close>

lemma alloc_owner:
  assumes "vm_inv s D L" "alloc_frame s = (p, s')" "p \<noteq> 0"
  shows "owners (pmm_st s') p = 1" "\<And>f. f \<in> pool (pmm_st s) \<Longrightarrow> f \<noteq> p \<Longrightarrow>
      owners (pmm_st s') f = owners (pmm_st s) f" "pool (pmm_st s') = pool (pmm_st s)"
    "unat (pmm_free_frames (pmm_st s)) = unat (pmm_free_frames (pmm_st s')) + 1"
proof -
  obtain q where q: "pmm_alloc (pmm_st s) = (p, q)" "s' = s\<lparr>pmm_st := q\<rparr>"
    using assms(2) by (auto simp: alloc_frame_def split: prod.splits)
  note fresh = pmm_alloc_fresh [OF vm_inv_pmm [OF assms(1)] q(1) assms(3)]
  show "owners (pmm_st s') p = 1" "\<And>f. f \<in> pool (pmm_st s) \<Longrightarrow> f \<noteq> p \<Longrightarrow>
      owners (pmm_st s') f = owners (pmm_st s) f"
    using fresh q(2) by simp_all
  show "pool (pmm_st s') = pool (pmm_st s)"
    using fp.alloc_keeps [OF vm_inv_pmm [OF assms(1)]] q by simp
  have "pmm_inv q"
    using fp.alloc_keeps [OF vm_inv_pmm [OF assms(1)]] q by simp
  then show "unat (pmm_free_frames (pmm_st s)) = unat (pmm_free_frames (pmm_st s')) + 1"
    using fp.alloc_card [OF vm_inv_pmm [OF assms(1)] q(1) assms(3)] q(2)
      pmm_free_frames_card [OF vm_inv_pmm [OF assms(1)]] pmm_free_frames_card by simp
qed

lemma zero_frame_fields [simp]:
  "pmm_st (zero_frame p s) = pmm_st s" "kernel_dir (zero_frame p s) = kernel_dir s"
  "cr3 (zero_frame p s) = cr3 s"
  by (simp_all add: zero_frame_def)

lemma copy_frame_fields [simp]:
  "pmm_st (copy_frame p q s) = pmm_st s" "kernel_dir (copy_frame p q s) = kernel_dir s"
  "cr3 (copy_frame p q s) = cr3 s"
  by (simp_all add: copy_frame_def)

text \<open>
  The three ways the source fills a new frame: all start from \<open>alloc_frame\<close>, and the frame is in
  nobody's address space until an entry points at it.
\<close>

lemma vm_inv_fill:
  assumes inv: "vm_inv s D (add_mset p L)" and own: "owners (pmm_st s) p = 1"
    and m: "modifies {p} s s'" "pmm_st s' = pmm_st s"
  shows "vm_inv s' D (add_mset p L)"
proof (rule vm_inv_modifies [OF inv m(1) _ _ m(2)])
  show "{p} \<inter> struct_frames s D = {}"
    using exclusive_not_external [OF inv, of p] struct_in_exclusive [of p s D] by auto
  show "kernel_dir s \<notin> {p}"
    using vm_inv_kernel(2) [OF inv] vm_inv_pool(1) [OF inv, of p] by auto
qed

lemma vmm_create_dir_cases:
  assumes inv: "vm_inv s D L" and eq: "vmm_create_dir s = (d, s')"
  obtains (full) "d = 0" "s' = s" "pmm_free_frames (pmm_st s) = 0"
  | (created) "d \<noteq> 0" "vm_inv s' (insert d D) L" "d \<notin> D" "modifies {d} s s'" "held s' d = {#d#}"
      "owners (pmm_st s) d = 0" "d \<in> pool (pmm_st s)"
      "\<And>i. i \<in> {2..<1024} \<Longrightarrow> get_entry s' d i = 0" "pool (pmm_st s') = pool (pmm_st s)"
      "\<And>f. f \<in> pool (pmm_st s) \<Longrightarrow> f \<noteq> d \<Longrightarrow> owners (pmm_st s') f = owners (pmm_st s) f"
      "unat (pmm_free_frames (pmm_st s)) = unat (pmm_free_frames (pmm_st s')) + 1"
proof -
  obtain p s1 where a: "alloc_frame s = (p, s1)"
    by (cases "alloc_frame s") auto
  from inv a show thesis
  proof (cases rule: alloc_frame_cases)
    case full
    then show ?thesis
      using eq a that(1) by (simp add: vmm_create_dir_def)
  next
    case frame
    note own = alloc_owner [OF inv a frame(1)]
    let ?z = "zero_frame p s1"
    let ?s2 = "set_entry p 0 (get_entry ?z (kernel_dir ?z) 0) ?z"
    let ?s3 = "set_entry p 1 (get_entry ?s2 (kernel_dir ?s2) 1) ?s2"
    have s': "d = p" "s' = ?s3"
      using eq a frame(1) by (auto simp: vmm_create_dir_def Let_def)
    have k: "kernel_dir s1 \<noteq> p" "page_aligned (kernel_dir s1)"
      using vm_inv_kernel [OF frame(2)] vm_inv_pool(1) [OF frame(2)] by auto
    have m: "modifies {p} s1 ?s3"
      using modifies_trans [OF modifies_trans [OF modifies_zero_frame modifies_set_entry] modifies_set_entry,
          of p p 0 p 1] frame(3) by simp
    have inv3: "vm_inv ?s3 D (add_mset p L)"
      using vm_inv_fill [OF frame(2) own(1) m] by simp
    have i: "i < 1024" if "i < 2" for i :: u32
      using that by (simp add: word_less_nat_alt)
    have low: "get_entry ?s3 p i = get_entry ?s3 (kernel_dir ?s3) i" if "i < 2" for i
    proof -
      have "i = 0 \<or> i = 1"
        using that by (auto simp: word_less_nat_alt word_unat_eq_iff)
      then show ?thesis
        using k frame(3) by (auto simp: get_set_entry get_zero_frame)
    qed
    have zero: "get_entry ?s3 p i = 0" if "i \<in> {2..<1024}" for i
      using that frame(3) by (auto simp: get_set_entry get_zero_frame word_less_nat_alt word_le_nat_alt)
    have "vm_inv ?s3 (insert p D) L" "p \<notin> D"
      using vm_inv_new_dir [OF inv3] own(1) low zero by auto
    moreover have "held ?s3 p = {#p#}"
      using held_empty_dir zero by simp
    moreover have "modifies {p} s ?s3"
      using modifies_trans [OF frame(7) m] by simp
    ultimately show ?thesis
      using that(2) s' frame(1,4,5) zero own(2-4) by auto
  qed
qed

section \<open>The view of an address space\<close>

definition user_addr :: "u32 \<Rightarrow> bool" where
  "user_addr v \<longleftrightarrow> 2 \<le> DIR_INDEX v"

definition pte :: "vm \<Rightarrow> u32 \<Rightarrow> u32 \<Rightarrow> u32" where
  "pte s d v =
     (let e = get_entry s d (DIR_INDEX v)
      in if bit e 0 then get_entry s (FRAME_OF e) (TAB_INDEX v) else 0)"

text \<open>Entry \<open>j\<close> of the table in slot \<open>i\<close>.\<close>

definition ent :: "vm \<Rightarrow> u32 \<Rightarrow> u32 \<Rightarrow> u32 \<Rightarrow> u32" where
  "ent s d i j = (if bit (get_entry s d i) 0 then get_entry s (FRAME_OF (get_entry s d i)) j else 0)"

lemma pte_ent: "pte s d v = ent s d (DIR_INDEX v) (TAB_INDEX v)"
  by (simp add: pte_def ent_def Let_def)

definition byte_at :: "vm \<Rightarrow> u32 \<Rightarrow> u32 \<Rightarrow> u8" where
  "byte_at s d v = ram s (FRAME_OF (pte s d v) OR (v AND 0xFFF))"

definition same_view :: "vm \<Rightarrow> vm \<Rightarrow> u32 \<Rightarrow> u32 \<Rightarrow> bool" where
  "same_view s s' d v \<longleftrightarrow> pte s' d v = pte s d v \<and> (bit (pte s d v) 0 \<longrightarrow> byte_at s' d v = byte_at s d v)"

definition unchanged :: "vm \<Rightarrow> vm \<Rightarrow> u32 \<Rightarrow> bool" where
  "unchanged s s' d \<longleftrightarrow> (\<forall>v. user_addr v \<longrightarrow> same_view s s' d v)"

lemma index_less [simp]: "DIR_INDEX v < 1024" "TAB_INDEX v < 1024"
proof -
  have "(drop_bit 22 v AND 0x3FF :: u32) \<le> 0x3FF"
    by (rule word_and_le1)
  then show "DIR_INDEX v < 1024"
    by (simp add: DIR_INDEX_def word_le_nat_alt word_less_nat_alt)
qed (simp add: TAB_INDEX_def tab_index_less)

lemma user_addr_range: "user_addr v \<Longrightarrow> DIR_INDEX v \<in> {2..<1024}"
  by (simp add: user_addr_def)

lemma unat_DIR_INDEX: "unat (DIR_INDEX v) = unat v div 4194304"
proof -
  have "DIR_INDEX v = take_bit 10 (drop_bit 22 v)"
    by (simp add: DIR_INDEX_def take_bit_eq_mask mask_eq_exp_minus_1)
  moreover have "drop_bit 22 v < 1024"
    by (rule dir_index_less)
  ultimately have "DIR_INDEX v = drop_bit 22 v"
    by (simp add: word_unat_eq_iff unsigned_take_bit_eq take_bit_eq_mod word_less_nat_alt unat_mod)
  then show ?thesis
    by (simp add: unat_dir_index)
qed

lemma user_addr_iff: "user_addr v \<longleftrightarrow> 0x800000 \<le> v"
  by (auto simp: user_addr_def word_le_nat_alt unat_DIR_INDEX)

lemma same_page_iff: "DIR_INDEX v = DIR_INDEX w \<and> TAB_INDEX v = TAB_INDEX w \<longleftrightarrow> FRAME_OF v = FRAME_OF w"
proof -
  have "x div 1024 = y div 1024 \<and> x mod 1024 = y mod 1024 \<longleftrightarrow> x = y" for x y :: nat
    by (metis div_mult_mod_eq)
  moreover have "unat v div 4194304 = unat v div 4096 div 1024" for v :: u32
    by (simp add: div_mult2_eq)
  ultimately show ?thesis
    by (simp add: word_unat_eq_iff unat_FRAME_OF unat_DIR_INDEX unat_tab_index TAB_INDEX_def)
qed

lemma FRAME_OF_phys: "page_aligned f \<Longrightarrow> FRAME_OF (f OR (v AND 0xFFF)) = f"
  by (rule FRAME_OF_or_flags)

lemma modifies_byte: "modifies W s s' \<Longrightarrow> pte s' d v = pte s d v \<Longrightarrow> FRAME_OF (pte s d v) \<notin> W \<Longrightarrow>
  byte_at s' d v = byte_at s d v"
  by (simp add: modifies_def byte_at_def FRAME_OF_phys)

lemma pte_held:
  assumes "user_addr v" "bit (pte s d v) 0"
  obtains t where "t \<in> tables s d" "bit (get_entry s d (DIR_INDEX v)) 0"
    "t = FRAME_OF (get_entry s d (DIR_INDEX v))" "pte s d v = get_entry s t (TAB_INDEX v)"
    "FRAME_OF (pte s d v) \<in># held s d"
proof -
  have e: "bit (get_entry s d (DIR_INDEX v)) 0"
    using assms(2) by (auto simp: pte_def Let_def split: if_splits)
  then have "FRAME_OF (get_entry s d (DIR_INDEX v)) \<in> tables s d"
    using user_addr_range [OF assms(1)] by (auto simp: table_slot)
  then show ?thesis
    using that e assms(2) page_in_held [of _ s d "TAB_INDEX v"] by (auto simp: pte_def Let_def)
qed

lemma pte_modifies:
  assumes "modifies W s s'" "page_aligned d" "d \<notin> W" "tables s d \<inter> W = {}" "user_addr v"
  shows "pte s' d v = pte s d v"
proof -
  have "get_entry s' d (DIR_INDEX v) = get_entry s d (DIR_INDEX v)"
    using assms by (simp add: modifies_get_entry)
  moreover have "get_entry s' (FRAME_OF (get_entry s d (DIR_INDEX v))) (TAB_INDEX v) =
      get_entry s (FRAME_OF (get_entry s d (DIR_INDEX v))) (TAB_INDEX v)"
    if "bit (get_entry s d (DIR_INDEX v)) 0"
  proof -
    have "FRAME_OF (get_entry s d (DIR_INDEX v)) \<in> tables s d"
      using that user_addr_range [OF assms(5)] by (auto simp: table_slot)
    then show ?thesis
      using assms(4) by (intro modifies_get_entry [OF assms(1)]) auto
  qed
  ultimately show ?thesis
    by (simp add: pte_def Let_def)
qed

lemma modifies_unchanged:
  assumes "vm_inv s D L" "d \<in> D" "modifies W s s'" "\<And>f. f \<in> W \<Longrightarrow> f \<notin># held s d"
  shows "unchanged s s' d"
  unfolding unchanged_def same_view_def
proof (intro allI impI conjI)
  fix v
  assume v: "user_addr v"
  show p: "pte s' d v = pte s d v"
    using assms(4) table_in_held held_self vm_inv_aligned(3) [OF assms(1,2)]
    by (intro pte_modifies [OF assms(3) _ _ _ v]) blast+
  assume "bit (pte s d v) 0"
  with v have "FRAME_OF (pte s d v) \<in># held s d"
    by (rule pte_held)
  with p show "byte_at s' d v = byte_at s d v"
    using assms(4) by (intro modifies_byte [OF assms(3)]) auto
qed

lemma same_view_trans: "same_view s s' d v \<Longrightarrow> same_view s' s'' d v \<Longrightarrow> same_view s s'' d v"
  by (simp add: same_view_def)

lemma unchanged_trans: "unchanged s s' d \<Longrightarrow> unchanged s' s'' d \<Longrightarrow> unchanged s s'' d"
  by (auto simp: unchanged_def intro: same_view_trans)

lemma unchanged_refl [simp]: "unchanged s s d"
  by (simp add: unchanged_def same_view_def)

section \<open>Mapping\<close>

text \<open>The frames a successful allocation may write: the directory itself and frames nobody owned.\<close>

definition fresh :: "vm \<Rightarrow> u32 set" where
  "fresh s = {f \<in> pool (pmm_st s). owners (pmm_st s) f = 0}"

lemma fresh_not_held: "vm_inv s D L \<Longrightarrow> f \<in> fresh s \<Longrightarrow> d \<in> D \<Longrightarrow> f \<notin># held s d"
  using free_not_held(2) by (auto simp: fresh_def)

lemma alloc_frameD:
  assumes "vm_inv s D L" "alloc_frame s = (p, s')" "p \<noteq> 0"
  shows "vm_inv s' D (add_mset p L)" "page_aligned p" "p \<in> fresh s" "modifies {} s s'" "ram s' = ram s"
  using alloc_frame_cases [OF assms(1,2)] assms(3) by (auto simp: fresh_def)

lemma new_slot_ent:
  assumes once: "\<And>f. count (held s d) f \<le> 1" and d: "page_aligned d" and i: "i \<in> {2..<1024}"
    "\<not> bit (get_entry s d i) 0" and e: "FRAME_OF e \<noteq> d"
    and empty: "\<And>j. j < 1024 \<Longrightarrow> get_entry s (FRAME_OF e) j = 0" and k: "k \<in> {2..<1024}" "l < 1024"
  shows "ent (set_entry d i e s) d k l = ent s d k l"
proof -
  have i': "i < 1024"
    using i by simp
  have dir: "get_entry (set_entry d i e s) d k = (if k = i then e else get_entry s d k)"
    using d i' k by (auto simp: get_set_entry)
  have tab: "get_entry (set_entry d i e s) t l = get_entry s t l" if "t \<noteq> d" "page_aligned t" for t
    using that d i' k by (auto simp: get_set_entry)
  show ?thesis
  proof (cases "k = i")
    case True
    then show ?thesis
      using dir tab [OF e] empty i(2) k(2) by (simp add: ent_def)
  next
    case False
    have "FRAME_OF (get_entry s d k) \<noteq> d" if "bit (get_entry s d k) 0"
      using that dir_not_table [OF once] k(1) by (force simp: table_slot)
    then show ?thesis
      using False dir tab by (simp add: ent_def)
  qed
qed

text \<open>A new, empty page table is hooked into a directory.\<close>

definition slot :: "vm \<Rightarrow> u32 \<Rightarrow> u32 \<Rightarrow> u32 \<Rightarrow> bool" where
  "slot s d i t \<longleftrightarrow> i \<in> {2..<1024} \<and> bit (get_entry s d i) 0 \<and> t = FRAME_OF (get_entry s d i)"

lemma slot_table: "slot s d i t \<Longrightarrow> t \<in> tables s d"
  by (auto simp: slot_def table_slot)

lemma ent_slot: "slot s d i t \<Longrightarrow> ent s d i j = get_entry s t j"
  by (simp add: slot_def ent_def)

lemma ent_modifies:
  assumes "modifies W s s'" "page_aligned d" "d \<notin> W" "tables s d \<inter> W = {}" "k \<in> {2..<1024}" "l < 1024"
  shows "ent s' d k l = ent s d k l"
proof -
  have dir: "get_entry s' d k = get_entry s d k"
    using assms by (simp add: modifies_get_entry)
  show ?thesis
  proof (cases "bit (get_entry s d k) 0")
    case True
    then have "FRAME_OF (get_entry s d k) \<in> tables s d"
      using assms(5) by (auto simp: table_slot)
    then have "get_entry s' (FRAME_OF (get_entry s d k)) l = get_entry s (FRAME_OF (get_entry s d k)) l"
      using assms(4,6) by (intro modifies_get_entry [OF assms(1)]) auto
    then show ?thesis
      using dir by (simp add: ent_def)
  qed (simp add: ent_def dir)
qed

lemma hook_table:
  assumes inv: "vm_inv s D L" and a: "alloc_frame s = (p, s1)" "p \<noteq> 0"
    and d: "d \<in> D" and i: "i \<in> {2..<1024}" "\<not> bit (get_entry s d i) 0" and e: "FRAME_OF e = p" "bit e 0"
  defines "s' \<equiv> set_entry d i e (zero_frame p s1)"
  shows "vm_inv s' D L" "modifies {p, d} s s'" "slot s' d i p" "p \<in> fresh s"
    and "\<And>j. j < 1024 \<Longrightarrow> get_entry s' p j = 0"
    and "\<And>k l. k \<in> {2..<1024} \<Longrightarrow> l < 1024 \<Longrightarrow> ent s' d k l = ent s d k l"
    and "\<And>k. k < 1024 \<Longrightarrow> k \<noteq> i \<Longrightarrow> get_entry s' d k = get_entry s d k"
    and "tables s' d = insert p (tables s d)"
proof -
  note frame = alloc_frameD [OF inv a] and own = alloc_owner [OF inv a]
  have i': "i < 1024" and al: "page_aligned d"
    using i vm_inv_aligned(3) [OF inv d] by simp_all
  show pf: "p \<in> fresh s"
    by (rule frame(3))
  have out: "p \<notin># held s d"
    using fresh_not_held [OF inv pf d] .
  then have pd: "p \<noteq> d" "p \<notin> tables s d"
    using table_in_held by auto
  let ?z = "zero_frame p s1"
  have z: "modifies {p} s ?z"
    using modifies_trans [OF frame(4) modifies_zero_frame [OF frame(2)]] by simp
  have invz: "vm_inv ?z D (add_mset p L)"
    using vm_inv_fill [OF frame(1) own(1) modifies_zero_frame [OF frame(2)]] by simp
  have empty: "get_entry ?z p j = 0" if "j < 1024" for j
    using that frame(2) by (simp add: get_zero_frame)
  have dirz: "get_entry ?z d k = get_entry s d k" if "k < 1024" for k
    using modifies_get_entry [OF z al] pd that by simp
  have absent: "\<not> bit (get_entry ?z d i) 0"
    using i dirz [OF i'] by simp
  have tz: "tables ?z d = tables s d"
    using modifies_space(2) [OF z al] pd by simp
  show "vm_inv s' D L"
    unfolding s'_def using vm_inv_set_slot [OF _ _ d i(1) absent e(2)] invz own(1) e(1) empty by simp
  show "modifies {p, d} s s'"
    unfolding s'_def using modifies_trans [OF z modifies_set_entry [OF al i']] by (simp add: insert_commute)
  show "slot s' d i p"
    unfolding s'_def slot_def using i(1) e al by (simp add: get_set_entry)
  show "get_entry s' p j = 0" if "j < 1024" for j
    unfolding s'_def using that empty frame(2) al i' pd by (simp add: get_set_entry)
  show "ent s' d k l = ent s d k l" if k: "k \<in> {2..<1024}" "l < 1024" for k l
  proof -
    have "ent s' d k l = ent ?z d k l"
      unfolding s'_def using new_slot_ent [OF vm_inv_once [OF invz d] al i(1) absent _ _ k] e(1) pd empty
      by simp
    also have "\<dots> = ent s d k l"
      using pd by (intro ent_modifies [OF z al _ _ k]) auto
    finally show ?thesis .
  qed
  show "get_entry s' d k = get_entry s d k" if "k < 1024" "k \<noteq> i" for k
    unfolding s'_def using that al i' dirz by (simp add: get_set_entry)
  show "tables s' d = insert p (tables s d)"
    unfolding s'_def using held_set_slot(2) [OF al _ i(1) absent e(2)] e(1) pd(1) empty tz
      dir_not_table [OF vm_inv_once [OF inv d]] by simp
qed

lemma table_entry_frame:
  assumes "page_aligned p"
  shows "FRAME_OF (p OR PF_PRESENT OR PF_RW OR (flags AND PF_USER)) = p"
    "bit (p OR PF_PRESENT OR PF_RW OR (flags AND PF_USER)) 0"
proof -
  have "(PF_PRESENT OR PF_RW OR (flags AND PF_USER)) AND 0xFFF = PF_PRESENT OR PF_RW OR (flags AND PF_USER)"
    by (simp add: bit.conj_disj_distrib2 and.assoc)
  from FRAME_OF_or_small [OF assms this]
  show "FRAME_OF (p OR PF_PRESENT OR PF_RW OR (flags AND PF_USER)) = p"
    by (simp add: or.assoc)
qed (simp add: bit_or_iff)

lemma table_for_cases:
  assumes inv: "vm_inv s D L" and d: "d \<in> D" and v: "user_addr v"
    and eq: "table_for d v True flags s = (t, s')"
  obtains (full) "t = 0" "s' = s" "pmm_free_frames (pmm_st s) = 0"
  | (table) W where "t \<noteq> 0" "vm_inv s' D L" "t \<in> tables s' d" "modifies (insert d W) s s'"
      "W \<subseteq> fresh s" "bit (get_entry s' d (DIR_INDEX v)) 0" "t = FRAME_OF (get_entry s' d (DIR_INDEX v))"
      "\<And>w. user_addr w \<Longrightarrow> pte s' d w = pte s d w" "pool (pmm_st s') = pool (pmm_st s)"
      "\<And>f. f \<in> pool (pmm_st s) \<Longrightarrow> owners (pmm_st s) f \<noteq> 0 \<Longrightarrow> owners (pmm_st s') f = owners (pmm_st s) f"
      "t \<in> tables s d \<union> W" "unat (pmm_free_frames (pmm_st s)) \<le> unat (pmm_free_frames (pmm_st s')) + 1"
      "tables s' d = insert t (tables s d)"
proof (cases "bit (get_entry s d (DIR_INDEX v)) 0")
  case True
  then have s': "t = FRAME_OF (get_entry s d (DIR_INDEX v))" "s' = s"
    using eq by (auto simp: table_for_def flag_simps Let_def)
  then have "t \<in> tables s d"
    using True user_addr_range [OF v] by (auto simp: table_slot)
  moreover from this have "t \<noteq> 0"
    using vm_inv_pool(2) [OF inv d table_in_held] pool_nonzero [OF vm_inv_pmm [OF inv]] by auto
  ultimately show ?thesis
    using table [of "{}"] s' True inv by auto
next
  case False
  note i = user_addr_range [OF v]
  obtain p s1 where a: "alloc_frame s = (p, s1)"
    by (cases "alloc_frame s") auto
  from inv a show ?thesis
  proof (cases rule: alloc_frame_cases)
    case full
    then show ?thesis
      using eq a False that(1) by (simp add: table_for_def flag_simps)
  next
    case frame
    note own = alloc_owner [OF inv a frame(1)]
    let ?e = "p OR PF_PRESENT OR PF_RW OR (flags AND PF_USER)"
    let ?s2 = "set_entry d (DIR_INDEX v) ?e (zero_frame p s1)"
    note e = table_entry_frame [OF frame(3), of flags]
    note hook = hook_table [OF inv a frame(1) d i False e]
    have s': "t = p" "s' = ?s2"
      using eq a frame(1) False hook(3) by (auto simp: table_for_def flag_simps Let_def slot_def)
    have "pte ?s2 d w = pte s d w" if "user_addr w" for w
      using hook(6) user_addr_range [OF that] by (simp add: pte_ent)
    moreover have "owners (pmm_st ?s2) f = owners (pmm_st s) f"
      if "f \<in> pool (pmm_st s)" "owners (pmm_st s) f \<noteq> 0" for f
      using own(2) [OF that(1)] that(2) frame(5) by (cases "f = p") auto
    ultimately show ?thesis
      using table [of "{p}"] s' frame(1) hook(1-4,8) slot_table [OF hook(3)] own(3,4)
      by (auto simp: slot_def insert_commute)
  qed
qed

lemma page_entry:
  assumes "page_aligned p"
  shows "FRAME_OF (FRAME_OF p OR (flags AND 0xFFF) OR PF_PRESENT) = p"
    "bit (FRAME_OF p OR (flags AND 0xFFF) OR PF_PRESENT) 0"
    "bit (FRAME_OF p OR (flags AND 0xFFF) OR PF_PRESENT) 1 \<longleftrightarrow> bit flags 1"
proof -
  have "((flags AND 0xFFF) OR PF_PRESENT) AND 0xFFF = (flags AND 0xFFF) OR PF_PRESENT"
    by (simp add: bit.conj_disj_distrib2 and.assoc)
  from FRAME_OF_or_small [OF assms this]
  show "FRAME_OF (FRAME_OF p OR (flags AND 0xFFF) OR PF_PRESENT) = p"
    using assms by (simp add: or.assoc FRAME_OF_aligned)
  show "bit (FRAME_OF p OR (flags AND 0xFFF) OR PF_PRESENT) 1 \<longleftrightarrow> bit flags 1"
    by (simp add: bit_or_iff FRAME_OF_bit bit_and_iff)
qed (simp add: bit_or_iff)

text \<open>Storing entry \<open>TAB_INDEX v\<close> of the table for \<open>v\<close> changes the view of the page of \<open>v\<close> only.\<close>

lemma pte_set_page:
  assumes once: "\<And>f. count (held s d) f \<le> 1" and d: "page_aligned d"
    and t: "bit (get_entry s d (DIR_INDEX v)) 0" "t = FRAME_OF (get_entry s d (DIR_INDEX v))"
    and v: "user_addr v" and w: "user_addr w"
  shows "pte (set_entry t (TAB_INDEX v) e s) d w = (if FRAME_OF w = FRAME_OF v then e else pte s d w)"
proof -
  let ?s = "set_entry t (TAB_INDEX v) e s"
  have tt: "t \<in> tables s d"
    using t user_addr_range [OF v] by (auto simp: table_slot)
  then have td: "t \<noteq> d" "page_aligned t"
    using dir_not_table [OF once] tables_aligned by auto
  have dir: "get_entry ?s d (DIR_INDEX w) = get_entry s d (DIR_INDEX w)"
    using d td by (simp add: get_set_entry)
  have tab: "get_entry ?s u (TAB_INDEX w) = (if t = u \<and> TAB_INDEX v = TAB_INDEX w then e
      else get_entry s u (TAB_INDEX w))" if "page_aligned u" for u
    using that td by (simp add: get_set_entry)
  show ?thesis
  proof (cases "bit (get_entry s d (DIR_INDEX w)) 0")
    case True
    have "FRAME_OF (get_entry s d (DIR_INDEX w)) = t \<longleftrightarrow> DIR_INDEX w = DIR_INDEX v"
      using slot_unique [OF once user_addr_range [OF w] user_addr_range [OF v] True t(1)] t(2) by auto
    then show ?thesis
      using True dir tab same_page_iff [of w v] by (auto simp: pte_def Let_def)
  next
    case False
    then have "FRAME_OF w \<noteq> FRAME_OF v"
      using t(1) same_page_iff [of w v] by auto
    with False dir show ?thesis
      by (simp add: pte_def Let_def)
  qed
qed

lemma page_ms_count: "count (page_ms e) f = (if bit e 0 \<and> f = FRAME_OF e then 1 else 0)"
  by (simp add: page_ms_def)

text \<open>The frames an operation on address space \<open>d\<close> may write without disturbing any page.\<close>

abbreviation scratch :: "vm \<Rightarrow> u32 \<Rightarrow> u32 set" where
  "scratch s d \<equiv> insert d (tables s d \<union> fresh s)"

lemma scratch_other: "vm_inv s D L \<Longrightarrow> d \<in> D \<Longrightarrow> c \<in> D \<Longrightarrow> c \<noteq> d \<Longrightarrow> f \<in> scratch s d \<Longrightarrow> f \<notin># held s c"
  using other_space [of s D L d f c] fresh_not_held [of s D L f c] by auto

lemma scratch_page:
  assumes "vm_inv s D L" "d \<in> D" "user_addr v" "bit (pte s d v) 0"
  shows "FRAME_OF (pte s d v) \<notin> scratch s d"
proof -
  obtain t where t: "t \<in> tables s d" "pte s d v = get_entry s t (TAB_INDEX v)"
    "FRAME_OF (pte s d v) \<in># held s d"
    using assms(3,4) by (rule pte_held)
  show ?thesis
    using t assms(4) fresh_not_held [OF assms(1) _ assms(2)]
      page_not_dir [OF vm_inv_once [OF assms(1,2)] t(1), of "TAB_INDEX v"]
      page_not_table [OF vm_inv_once [OF assms(1,2)] t(1), of "TAB_INDEX v"] by auto
qed

lemma vmm_map_alloc_cases:
  assumes inv: "vm_inv s D L" and d: "d \<in> D" and v: "user_addr v"
    and eq: "vmm_map_alloc d v flags s = (ok, s')"
  obtains (full) "\<not> ok" "s' = s" "pmm_free_frames (pmm_st s) = 0" "fst (alloc_frame s) = 0"
  | (leak) p where "\<not> ok" "vm_inv s' D (add_mset p L)" "modifies {p} s s'" "p \<in> fresh s"
      "unat (pmm_free_frames (pmm_st s)) = 1" "fst (alloc_frame s) = p" "p \<noteq> 0"
  | (mapped) p where "ok" "vm_inv s' D (page_ms (pte s d v) + L)" "p \<in> fresh s"
      "pte s' d v = p OR (flags AND 0xFFF) OR PF_PRESENT" "FRAME_OF (pte s' d v) = p"
      "\<And>w. user_addr w \<Longrightarrow> FRAME_OF w \<noteq> FRAME_OF v \<Longrightarrow> pte s' d w = pte s d w"
      "\<And>x. FRAME_OF x = p \<Longrightarrow> ram s' x = 0" "modifies (scratch s d) s s'"
      "unat (pmm_free_frames (pmm_st s)) \<le> unat (pmm_free_frames (pmm_st s')) + 2"
      "card (tables s' d) \<le> card (tables s d) + 1"
proof -
  obtain p s1 where a: "alloc_frame s = (p, s1)"
    by (cases "alloc_frame s") auto
  from inv a show thesis
  proof (cases rule: alloc_frame_cases)
    case full
    then show ?thesis
      using eq a that(1) by (simp add: vmm_map_alloc_def)
  next
    case frame
    note own = alloc_owner [OF inv a frame(1)]
    have pf: "p \<in> fresh s"
      using frame(4,5) by (simp add: fresh_def)
    let ?z = "zero_frame p s1"
    obtain t s2 where tf: "table_for d v True flags ?z = (t, s2)"
      by (cases "table_for d v True flags ?z") auto
    have z: "modifies {p} s ?z"
      using modifies_trans [OF frame(7) modifies_zero_frame [OF frame(3)]] by simp
    have invz: "vm_inv ?z D (add_mset p L)"
      using vm_inv_fill [OF frame(2) own(1) modifies_zero_frame [OF frame(3)]] by simp
    have same: "pte ?z d w = pte s d w" if "user_addr w" for w
      using modifies_unchanged [OF inv d z] fresh_not_held [OF inv pf d] that
      by (auto simp: unchanged_def same_view_def)
    from invz d v tf show ?thesis
    proof (cases rule: table_for_cases)
      case full
      then have "ok = False" "s' = ?z"
        using eq a frame(1) tf by (auto simp: vmm_map_alloc_def vmm_map_def)
      then show ?thesis
        using that(2) [of p] invz z pf full(3) own(4) a frame(1) by simp
    next
      case (table W)
      let ?e = "FRAME_OF p OR (flags AND 0xFFF) OR PF_PRESENT"
      have s': "ok" "s' = set_entry t (TAB_INDEX v) ?e s2"
        using eq a frame(1) tf table(1) by (auto simp: vmm_map_alloc_def vmm_map_def)
      have p2: "owners (pmm_st s2) p = 1"
        using table(10) [of p] own frame(4) by simp
      note out = external_not_held [OF table(2) p2 d]
      have Ws: "W \<subseteq> fresh s" "p \<notin> W"
        using table(5) own frame(5) by (force simp: fresh_def)+
      have pd: "p \<noteq> d" "p \<noteq> t"
        using out table_in_held [OF table(3)] by auto
      have tz: "tables ?z d = tables s d"
        using modifies_space(2) [OF z vm_inv_aligned(3) [OF inv d]] pd fresh_not_held [OF inv pf d]
          table_in_held by auto
      have tal: "page_aligned t"
        using table(3) by (rule tables_aligned)
      have old: "get_entry s2 t (TAB_INDEX v) = pte s d v"
        using table(6,7) table(8) [OF v] same [OF v] by (simp add: pte_def Let_def)
      note pe = page_entry [OF frame(3), of flags]
      have "vm_inv s' D (page_ms (pte s d v) + L)"
        unfolding s' using out vm_inv_once [OF table(2) d]
        by (intro vm_inv_set_page [OF table(2) d table(3)])
          (auto simp: old pe p2 page_ms_def not_in_iff intro: le_SucI)
      moreover have "pte s' d w = (if FRAME_OF w = FRAME_OF v then ?e else pte s d w)"
        if w: "user_addr w" for w
        unfolding s' pte_set_page [OF vm_inv_once [OF table(2) d] vm_inv_aligned(3) [OF table(2) d]
            table(6,7) v w] using table(8) [OF w] same [OF w] by simp
      moreover have m: "modifies {t} s2 s'"
        unfolding s' using tal by (intro modifies_set_entry) simp_all
      moreover have "ram s' x = 0" if "FRAME_OF x = p" for x
      proof -
        have "ram s' x = ram ?z x"
          using m table(4) that pd Ws by (simp add: modifies_def)
        also have "\<dots> = 0"
          using that frame(3) by (simp add: zero_frame_def memset_apply footprint_page_iff)
        finally show ?thesis .
      qed
      moreover have "modifies (scratch s d) s s'"
        using table(11) Ws pf tz
        by (intro modifies_mono [OF modifies_trans [OF modifies_trans [OF z table(4)] m]]) auto
      moreover have "card (tables s' d) \<le> card (tables s d) + 1"
        unfolding s' held_set_page(2) [OF vm_inv_once [OF table(2) d] vm_inv_aligned(3) [OF table(2) d]
            table(3) index_less(2)] table(13) tz using card_insert_le_m1 by (simp add: card_insert_if)
      ultimately show ?thesis
        using that(3) [of p] s' pf pe frame(3) v own(4) table(12) by (simp add: FRAME_OF_aligned)
    qed
  qed
qed

lemma vmm_translate_eq:
  assumes "vm_inv s D L" "d \<in> D" "user_addr v"
  shows "vmm_translate s d v = (if bit (pte s d v) 0 then FRAME_OF (pte s d v) OR (v AND 0xFFF) else 0)"
proof (cases "bit (get_entry s d (DIR_INDEX v)) 0")
  case True
  let ?t = "FRAME_OF (get_entry s d (DIR_INDEX v))"
  have "?t \<in> tables s d"
    using True user_addr_range [OF assms(3)] by (auto simp: table_slot)
  then have "?t \<noteq> 0"
    using vm_inv_pool(2) [OF assms(1,2) table_in_held] pool_nonzero [OF vm_inv_pmm [OF assms(1)]] by auto
  then show ?thesis
    using True by (simp add: vmm_translate_def table_for_def pte_def Let_def flag_simps)
next
  case False
  then show ?thesis
    by (simp add: vmm_translate_def table_for_def pte_def Let_def flag_simps)
qed

lemma pte_pmm [simp]:
  "pte (free_frame f s) = pte s" "pte (incref_frame f s) = pte s" "pte (s\<lparr>pmm_st := q\<rparr>) = pte s"
  by (intro ext; simp add: pte_def Let_def cong: if_cong)+

lemma byte_at_pmm [simp]:
  "byte_at (free_frame f s) = byte_at s" "byte_at (incref_frame f s) = byte_at s"
  by (intro ext; simp add: byte_at_def; simp add: free_frame_def incref_frame_def)+

lemma vmm_unmap_cases:
  assumes inv: "vm_inv s D L" and d: "d \<in> D" and v: "user_addr v"
  obtains (absent) "\<not> bit (pte s d v) 0" "vmm_unmap d v s = s"
  | (present) "bit (pte s d v) 0" "vm_inv (vmm_unmap d v s) D L"
      "\<And>w. user_addr w \<Longrightarrow> pte (vmm_unmap d v s) d w = (if FRAME_OF w = FRAME_OF v then 0 else pte s d w)"
      "modifies (tables s d) s (vmm_unmap d v s)"
      "pmm_st (vmm_unmap d v s) = pmm_free (FRAME_OF (pte s d v)) (pmm_st s)"
proof (cases "bit (pte s d v) 0")
  case True
  obtain t where t: "t \<in> tables s d" "bit (get_entry s d (DIR_INDEX v)) 0"
    "t = FRAME_OF (get_entry s d (DIR_INDEX v))" "pte s d v = get_entry s t (TAB_INDEX v)"
    using v True by (rule pte_held)
  have nz: "t \<noteq> 0"
    using vm_inv_pool(2) [OF inv d table_in_held [OF t(1)]] pool_nonzero [OF vm_inv_pmm [OF inv]] by auto
  let ?f = "FRAME_OF (pte s d v)"
  have eq: "vmm_unmap d v s = free_frame ?f (set_entry t (TAB_INDEX v) 0 s)"
    using t nz True
    by (simp add: vmm_unmap_def table_for_def Let_def flag_simps free_frame_def set_entry_def)
  have tal: "page_aligned t"
    using t(1) by (rule tables_aligned)
  have "vm_inv (set_entry t (TAB_INDEX v) 0 s) D (add_mset ?f L)"
    using t True vm_inv_once [OF inv d]
    by (intro vm_inv_set_page [OF inv d t(1)]) (auto simp: page_ms_def intro: le_SucI)
  then have "vm_inv (vmm_unmap d v s) D L"
    unfolding eq by (rule vm_inv_free)
  moreover have "pte (vmm_unmap d v s) d w = (if FRAME_OF w = FRAME_OF v then 0 else pte s d w)"
    if w: "user_addr w" for w
    using pte_set_page [OF vm_inv_once [OF inv d] vm_inv_aligned(3) [OF inv d] t(2,3) v w, of 0]
    unfolding eq by simp
  moreover have "modifies (tables s d) s (vmm_unmap d v s)"
    unfolding eq using modifies_mono [OF modifies_set_entry [OF tal]] t(1) by simp
  ultimately show ?thesis
    using present True by (simp add: eq free_frame_def)
next
  case False
  have "vmm_unmap d v s = s"
    using False by (auto simp: vmm_unmap_def table_for_def pte_def Let_def flag_simps)
  with False show ?thesis
    by (rule absent)
qed

section \<open>The first address space\<close>

definition kernel_boot :: "vm \<Rightarrow> vm" where
  "kernel_boot s = vmm_install ((paging_install s)\<lparr>pmm_st := pmm_install 0x00800000\<rparr>)"

lemma kernel_boot_fields:
  "pmm_st (kernel_boot s) = pmm_install 0x00800000" "kernel_dir (kernel_boot s) = page_directory s"
  by (simp_all add: kernel_boot_def vmm_install_def)

lemma pool_above: "pmm_inv p \<Longrightarrow> f \<in> pool p \<Longrightarrow> MANAGED_BASE \<le> f"
  using in_pool_iff(1) [of p f] by (auto simp: not_less FRAME_OF_aligned pool_aligned)

lemma kernel_boot_inv:
  assumes "boot_layout s"
  shows "vm_inv (kernel_boot s) {} {#}"
proof -
  have "pmm_inv (pmm_install 0x00800000)"
    by (rule pmm_install_inv)
  moreover have "owners (pmm_install 0x00800000) f = 0" for f
    by (simp add: owners_def pmm_refcount_def pmm_install_def Let_def)
  moreover have "page_directory s \<notin> pool (pmm_install 0x00800000)"
    using assms pool_above [OF pmm_install_inv, of "page_directory s" "0x00800000"]
    by (auto simp: boot_layout_def)
  ultimately show ?thesis
    using assms
    by (auto simp: vm_inv_def kernel_boot_fields boot_layout_def all_held_def exclusive_def struct_frames_def)
qed

lemma boot_free_frames: "unat (pmm_free_frames (pmm_install 0x00800000)) = 1024"
  by (simp add: pmm_free_frames_def pmm_install_def MANAGED_BASE_def PAGE_SIZE_def MAX_FRAMES_def)

definition first_space :: "u32 \<times> vm" where
  "first_space = vmm_create_dir (kernel_boot boot_vm)"

lemma first_space_inv:
  "vm_inv (snd first_space) {fst first_space} {#}" "held (snd first_space) (fst first_space) = {#fst first_space#}"
  "unat (pmm_free_frames (pmm_st (snd first_space))) = 1023"
proof -
  have eq: "vmm_create_dir (kernel_boot boot_vm) = (fst first_space, snd first_space)"
    by (simp add: first_space_def)
  have "vm_inv (snd first_space) {fst first_space} {#} \<and>
    held (snd first_space) (fst first_space) = {#fst first_space#} \<and>
    unat (pmm_free_frames (pmm_st (snd first_space))) = 1023"
    using kernel_boot_inv [OF boot_vm_layout] eq
  proof (cases rule: vmm_create_dir_cases)
    case full
    then show ?thesis
      using boot_free_frames by (simp add: kernel_boot_fields)
  next
    case created
    then show ?thesis
      using boot_free_frames by (simp add: kernel_boot_fields)
  qed
  then show "vm_inv (snd first_space) {fst first_space} {#}" "held (snd first_space) (fst first_space) = {#fst first_space#}"
    "unat (pmm_free_frames (pmm_st (snd first_space))) = 1023"
    by simp_all
qed

section \<open>Properties of mapping\<close>

lemma vmm_map_alloc_ok:
  assumes "vm_inv s D L" "d \<in> D" "0x800000 \<le> v" "vmm_map_alloc d v flags s = (ok, s')"
  shows "(\<forall>c\<in>D - {d}. unchanged s s' c) \<and>
     (\<forall>w. 0x800000 \<le> w \<and> (FRAME_OF w = FRAME_OF v \<longrightarrow> \<not> ok) \<longrightarrow> same_view s s' d w) \<and>
     (2 \<le> unat (pmm_free_frames (pmm_st s)) \<longrightarrow> ok) \<and>
     (ok \<longrightarrow> vm_inv s' D (page_ms (pte s d v) + L) \<and>
        (\<exists>p \<in> pool (pmm_st s). owners (pmm_st s) p = 0 \<and>
           pte s' d v = p OR (flags AND 0xFFF) OR PF_PRESENT \<and>
           (\<forall>w. FRAME_OF w = FRAME_OF v \<longrightarrow>
              vmm_translate s' d w = p OR (w AND 0xFFF) \<and> byte_at s' d w = 0))) \<and>
     (\<not> ok \<longrightarrow> vm_inv s' D L \<or> (\<exists>p. vm_inv s' D (add_mset p L)))"
proof -
  have v: "user_addr v"
    using assms(3) by (simp add: user_addr_iff)
  from assms(1,2) v assms(4) show ?thesis
  proof (cases rule: vmm_map_alloc_cases)
    case full
    then show ?thesis
      using assms(1) by (simp add: same_view_def)
  next
    case (leak p)
    then have "unchanged s s' c" if "c \<in> D" for c
      using modifies_unchanged [OF assms(1) that leak(3)] fresh_not_held [OF assms(1) _ that] by auto
    then show ?thesis
      using leak assms(2) by (auto simp: unchanged_def user_addr_iff)
  next
    case (mapped p)
    have "unchanged s s' c" if "c \<in> D - {d}" for c
      using that scratch_other [OF assms(1,2)] by (intro modifies_unchanged [OF assms(1) _ mapped(8)]) auto
    moreover have "same_view s s' d w" if "user_addr w" "FRAME_OF w \<noteq> FRAME_OF v" for w
      using that mapped(6) [OF that] scratch_page [OF assms(1,2) that(1)] modifies_byte [OF mapped(8)]
      by (auto simp: same_view_def)
    moreover have "vmm_translate s' d w = p OR (w AND 0xFFF) \<and> byte_at s' d w = 0"
      if "FRAME_OF w = FRAME_OF v" for w
    proof -
      have w: "user_addr w" "pte s' d w = pte s' d v"
        using that v same_page_iff [of w v] by (auto simp: user_addr_def pte_def Let_def)
      have "bit (pte s' d v) 0" "page_aligned p"
        using mapped(4) page_aligned_FRAME_OF [of "pte s' d v"] unfolding mapped(5) by (auto simp: bit_or_iff)
      then show ?thesis
        using mapped(5,7) w vmm_translate_eq [OF mapped(2) assms(2) w(1)]
        by (simp add: byte_at_def FRAME_OF_phys)
    qed
    ultimately show ?thesis
      using mapped(1-4) by (auto simp: user_addr_iff fresh_def)
  qed
qed

text \<open>
  C26.  \<open>vmm_map_alloc\<close> gives the page of \<open>v\<close> a frame nobody owned, zeroed, and changes no other
  page of any address space; it keeps the ledger exact (a page that was mapped there before is
  no longer in the address space but still owned).  It succeeds when two frames are free.  When it
  fails no view changes, and at most the one frame it had taken is lost to the pool.
\<close>

theorem vmm_map_alloc_correct:
  assumes "vm_inv s D L" "d \<in> D" "0x800000 \<le> v" "vmm_map_alloc d v flags s = (ok, s')"
  shows "(\<forall>c\<in>D - {d}. unchanged s s' c) \<and>
     (\<forall>w. 0x800000 \<le> w \<and> (FRAME_OF w = FRAME_OF v \<longrightarrow> \<not> ok) \<longrightarrow> same_view s s' d w) \<and>
     (2 \<le> unat (pmm_free_frames (pmm_st s)) \<longrightarrow> ok) \<and>
     (ok \<longrightarrow> vm_inv s' D (page_ms (pte s d v) + L) \<and>
        (\<exists>p \<in> pool (pmm_st s). owners (pmm_st s) p = 0 \<and>
           pte s' d v = p OR (flags AND 0xFFF) OR PF_PRESENT \<and>
           (\<forall>w. FRAME_OF w = FRAME_OF v \<longrightarrow>
              vmm_translate s' d w = p OR (w AND 0xFFF) \<and> byte_at s' d w = 0))) \<and>
     (\<not> ok \<longrightarrow> vm_inv s' D L \<or> (\<exists>p. vm_inv s' D (add_mset p L)))"
  by (rule vmm_map_alloc_ok [OF assms])

theorem vmm_map_alloc_correct_witness:
  "vm_inv (snd first_space) {fst first_space} {#} \<and>
   fst (vmm_map_alloc (fst first_space) 0x01000000 7 (snd first_space)) \<and>
   byte_at (snd (vmm_map_alloc (fst first_space) 0x01000000 7 (snd first_space))) (fst first_space) 0x01000123 = 0"
proof -
  have "FRAME_OF 0x01000123 = FRAME_OF 0x01000000"
    by (simp add: FRAME_OF_def)
  then show ?thesis
    using vmm_map_alloc_correct [OF first_space_inv(1) _ _ prod.collapse [symmetric],
        of "fst first_space" "0x01000000" 7] first_space_inv by auto
qed

text \<open>
  C30.  \<open>vmm_unmap\<close> removes the page of \<open>v\<close> and nothing else: the page no longer translates, its
  frame loses exactly the owner this mapping was, every other page of this and of every other
  address space keeps its entry and its bytes.  An address that is not mapped is left alone.
\<close>

theorem vmm_unmap_correct:
  assumes "vm_inv s D L" "d \<in> D" "0x800000 \<le> v"
  shows "vm_inv (vmm_unmap d v s) D L \<and>
     (\<forall>w. FRAME_OF w = FRAME_OF v \<longrightarrow> vmm_translate (vmm_unmap d v s) d w = 0) \<and>
     (\<forall>w\<ge>0x800000. FRAME_OF w \<noteq> FRAME_OF v \<longrightarrow> same_view s (vmm_unmap d v s) d w) \<and>
     (\<forall>c\<in>D - {d}. unchanged s (vmm_unmap d v s) c) \<and>
     (\<forall>f\<in>pool (pmm_st s). owners (pmm_st (vmm_unmap d v s)) f =
        (if bit (pte s d v) 0 \<and> f = FRAME_OF (pte s d v) then owners (pmm_st s) f - 1
         else owners (pmm_st s) f))"
proof -
  have v: "user_addr v"
    using assms(3) by (simp add: user_addr_iff)
  have same: "user_addr w \<and> pte t d w = pte t d v" if "FRAME_OF w = FRAME_OF v" for w t
    using that v same_page_iff [of w v] by (auto simp: user_addr_def pte_ent)
  from assms(1,2) v show ?thesis
  proof (cases rule: vmm_unmap_cases)
    case absent
    have "vmm_translate s d w = 0" if "FRAME_OF w = FRAME_OF v" for w
      using same [OF that, of s] vmm_translate_eq [OF assms(1,2), of w] absent(1) by simp
    then show ?thesis
      using assms(1) absent by (simp add: same_view_def)
  next
    case present
    let ?s = "vmm_unmap d v s"
    have t: "FRAME_OF (pte s d v) \<in># held s d"
      using v present(1) by (rule pte_held)
    have "vmm_translate ?s d w = 0" if "FRAME_OF w = FRAME_OF v" for w
      using same [OF that, of s] vmm_translate_eq [OF present(2) assms(2), of w] present(3) [of w] that by simp
    moreover have "same_view s ?s d w" if w: "user_addr w" "FRAME_OF w \<noteq> FRAME_OF v" for w
      using w present(3) [OF w(1)] scratch_page [OF assms(1,2) w(1)] modifies_byte [OF present(4)]
      by (auto simp: same_view_def)
    moreover have "unchanged s ?s c" if "c \<in> D - {d}" for c
      using that scratch_other [OF assms(1,2)] by (intro modifies_unchanged [OF assms(1) _ present(4)]) auto
    moreover have "owners (pmm_st ?s) f = (if f = FRAME_OF (pte s d v) then owners (pmm_st s) f - 1
        else owners (pmm_st s) f)" if "f \<in> pool (pmm_st s)" for f
      unfolding present(5)
      using pmm_free_owners [OF vm_inv_pmm [OF assms(1)] vm_inv_pool(2) [OF assms(1,2) t] that] by simp
    ultimately show ?thesis
      using present(1,2) by (simp add: user_addr_iff)
  qed
qed

theorem vmm_unmap_correct_witness:
  "vm_inv (vmm_unmap (fst first_space) 0x01000000 (snd first_space)) {fst first_space} {#} \<and>
   vmm_translate (vmm_unmap (fst first_space) 0x01000000 (snd first_space)) (fst first_space) 0x01000000 = 0"
  using vmm_unmap_correct [OF first_space_inv(1) singletonI, of "0x01000000"] by simp

lemma free_frame_pool [simp]: "pool (pmm_st (free_frame f s)) = pool (pmm_st s)"
  by (simp add: free_frame_def pool_def pmm_free_total)

lemma destroy_pool [simp]: "pool (pmm_st (vmm_destroy_dir d s)) = pool (pmm_st s)"
proof -
  have page: "pool (pmm_st (destroy_page t j s)) = pool (pmm_st s)" for t j s
    by (simp add: destroy_page_def)
  have pages: "pool (pmm_st (fold (destroy_page t) js s)) = pool (pmm_st s)" for t js s
    by (induction js arbitrary: s) (simp_all add: page)
  have slot: "pool (pmm_st (destroy_slot d i s)) = pool (pmm_st s)" for i s
    by (simp add: destroy_slot_def Let_def pages)
  have "pool (pmm_st (fold (destroy_slot d) is s)) = pool (pmm_st s)" for "is" s
    by (induction "is" arbitrary: s) (simp_all add: slot)
  then show ?thesis
    by (simp add: vmm_destroy_dir_def)
qed

lemma vmm_destroy_dir_ok:
  assumes "vm_inv s D L"
  shows "vmm_destroy_dir 0 s = s \<and> vmm_destroy_dir (kernel_dir s) s = s \<and>
    (d \<in> D \<longrightarrow> vm_inv (vmm_destroy_dir d s) (D - {d}) L \<and>
      (\<forall>c\<in>D - {d}. unchanged s (vmm_destroy_dir d s) c) \<and>
      (\<forall>f\<in>pool (pmm_st s). owners (pmm_st s) f =
         owners (pmm_st (vmm_destroy_dir d s)) f + count (held s d) f))"
proof -
  let ?s = "vmm_destroy_dir d s"
  have "vm_inv ?s (D - {d}) L \<and> (\<forall>c\<in>D - {d}. unchanged s ?s c) \<and>
      (\<forall>f\<in>pool (pmm_st s). owners (pmm_st s) f = owners (pmm_st ?s) f + count (held s d) f)"
    if d: "d \<in> D"
  proof -
    note des = vmm_destroy_dir_inv [OF assms d]
    have c: "d \<notin># held s c" "page_aligned c" "held ?s c = held s c" if "c \<in> D - {d}" for c
    proof -
      show out: "d \<notin># held s c" and al: "page_aligned c"
        using that other_space [OF assms d] vm_inv_aligned(3) [OF assms] by auto
      show "held ?s c = held s c"
        using modifies_space(1) [OF des(2) al] out table_in_held that by auto
    qed
    have "unchanged s ?s c" if "c \<in> D - {d}" for c
      using c(1) [OF that] that by (intro modifies_unchanged [OF assms _ des(2)]) auto
    moreover have "owners (pmm_st s) f = owners (pmm_st ?s) f + count (held s d) f"
      if f: "f \<in> pool (pmm_st s)" for f
    proof -
      have "all_held ?s (D - {d}) = all_held s (D - {d})"
        unfolding all_held_def using c(3) by (intro sum.cong) auto
      moreover have "f \<in> pool (pmm_st ?s)"
        using f destroy_pool by simp
      ultimately show ?thesis
        using vm_inv_ledger [OF des(1)] vm_inv_ledger [OF assms f] total_split [OF d, of s] by simp
    qed
    ultimately show ?thesis
      using des(1) by blast
  qed
  then show ?thesis
    by (simp add: vmm_destroy_dir_def)
qed

text \<open>
  C25.  \<open>vmm_destroy_dir\<close> gives back exactly what the address space held: every frame loses as many
  owners as the space had references to it (its directory, its tables, its pages), so a page
  still shared with another space survives, and a frame only it held is free again.  The remaining
  address spaces keep every entry and every byte.  The kernel directory and the null pointer are
  never torn down.
\<close>

theorem vmm_destroy_dir_correct:
  assumes "vm_inv s D L"
  shows "vmm_destroy_dir 0 s = s \<and> vmm_destroy_dir (kernel_dir s) s = s \<and>
    (d \<in> D \<longrightarrow> vm_inv (vmm_destroy_dir d s) (D - {d}) L \<and>
      (\<forall>c\<in>D - {d}. unchanged s (vmm_destroy_dir d s) c) \<and>
      (\<forall>f\<in>pool (pmm_st s). owners (pmm_st s) f =
         owners (pmm_st (vmm_destroy_dir d s)) f + count (held s d) f))"
  using assms by (rule vmm_destroy_dir_ok)

theorem vmm_destroy_dir_correct_witness:
  "vm_inv (vmm_destroy_dir (fst first_space) (snd first_space)) {} {#}"
  using vmm_destroy_dir_correct [OF first_space_inv(1), of "fst first_space"] by simp

end
