(* ===== verification/Cow.thy ===== *)
theory Cow
  imports Spaces
begin

text \<open>
  Copy-on-write: \<open>vmm_clone_cow\<close> and \<open>vmm_cow_handle\<close> of \<open>kernel/vmm.c\<close>.  A clone shares every page
  of the parent, read-only on both sides, and a later write fault gives the writer a copy of its
  own.  The theorems follow the two sides through every outcome, running out of frames included,
  and show that no store of one process is ever visible to another.
\<close>

section \<open>Sharing pages copy-on-write\<close>

text \<open>The entry \<open>vmm_clone_cow\<close> leaves on both sides of a shared page.\<close>

definition share :: "u32 \<Rightarrow> u32" where
  "share e = (if bit e 0 then (e AND NOT PF_RW) OR (if bit e 1 then PF_COW else 0) else e)"

lemma bit_PF_RW: "bit (PF_RW :: u32) n \<longleftrightarrow> n = 1"
  using bit_exp_iff [where 'a = "32 word", of 1 n] by auto

lemma bit_PF_COW: "bit (PF_COW :: u32) n \<longleftrightarrow> n = 9"
  using bit_exp_iff [where 'a = "32 word", of 9 n] by auto

lemma bit_share: "bit (share e) n \<longleftrightarrow>
    (if bit e 0 then bit e n \<and> n \<noteq> 1 \<or> bit e 1 \<and> n = 9 else bit e n)"
proof -
  have "n < 32" if "bit e n"
    using bit_imp_le_length [OF that] by simp
  then have "bit (e AND NOT PF_RW) n \<longleftrightarrow> bit e n \<and> n \<noteq> 1"
    by (auto simp only: bit_and_iff bit_not_iff bit_PF_RW) simp
  then show ?thesis
    by (simp only: share_def bit_or_iff bit_PF_COW split: if_splits) (auto simp: bit_PF_COW)
qed

lemma share_simps [simp]:
  "FRAME_OF (share e) = FRAME_OF e" "bit (share e) 0 \<longleftrightarrow> bit e 0" "bit e 0 \<Longrightarrow> \<not> bit (share e) (Suc 0)"
  "bit (share e) 2 \<longleftrightarrow> bit e 2" "page_ms (share e) = page_ms e"
proof -
  show f: "FRAME_OF (share e) = FRAME_OF e"
    by (rule bit_word_eqI) (auto simp: FRAME_OF_bit bit_share)
  show b: "bit (share e) 0 \<longleftrightarrow> bit e 0" "bit e 0 \<Longrightarrow> \<not> bit (share e) (Suc 0)" "bit (share e) 2 \<longleftrightarrow> bit e 2"
    by (auto simp: bit_share)
  show "page_ms (share e) = page_ms e"
    by (simp add: page_ms_def f b)
qed

lemma cow_page_eq:
  "cow_page t u j s = (let e = get_entry s t j in if bit e 0
     then incref_frame (FRAME_OF e) (set_entry u j (share e) (set_entry t j (share e) s)) else s)"
  by (auto simp: cow_page_def share_def Let_def flag_simps)

text \<open>Every page the clone maps so far is mapped at the same place by the original.\<close>

definition follows :: "vm \<Rightarrow> u32 \<Rightarrow> u32 \<Rightarrow> bool" where
  "follows s src dst \<longleftrightarrow> (\<forall>i\<in>{2..<1024}. \<forall>j<1024. bit (ent s dst i j) 0 \<longrightarrow> ent s dst i j = ent s src i j)"

lemma page_not_exclusive:
  assumes inv: "vm_inv s D L" and d: "d \<in> D" and t: "t \<in> tables s d" and j: "j < 1024"
    and e: "bit (get_entry s t j) 0" "\<not> bit (get_entry s t j) 1"
  shows "FRAME_OF (get_entry s t j) \<notin> exclusive s D"
proof
  let ?f = "FRAME_OF (get_entry s t j)"
  assume x: "?f \<in> exclusive s D"
  have held: "?f \<in># held s d"
    using t j e(1) by (rule page_in_held)
  have own: "owners (pmm_st s) ?f = 1"
    using inv x by (rule vm_inv_exclusive)
  note only = single_owner(2) [OF inv d held own]
  note once = vm_inv_once [OF inv d]
  from x consider c where "c \<in> D" "?f = c \<or> ?f \<in> tables s c" | c where "c \<in> D" "?f \<in> writable_frames s c"
    by (auto simp: exclusive_def struct_frames_def)
  then show False
  proof cases
    case (1 c)
    then have "c = d"
      using only [of c] held_self table_in_held by metis
    then show ?thesis
      using 1(2) page_not_dir [OF once t j e(1)] page_not_table [OF once t j e(1)] by blast
  next
    case (2 c)
    then have "c = d"
      using only [of c] writable_in_held by blast
    then obtain u k where "u \<in> tables s d" "k < 1024" "bit (get_entry s u k) 0" "bit (get_entry s u k) 1"
      "?f = FRAME_OF (get_entry s u k)"
      using 2(2) by (auto simp: writable_frames_def)
    then show ?thesis
      using page_unique [OF once t j e(1)] e(2) by blast
  qed
qed

lemma ent_set:
  assumes once: "\<And>f. count (held s d) f \<le> 1" and d: "page_aligned d" and t: "slot s d i t"
    and j: "j < 1024" and k: "k \<in> {2..<1024}" "l < 1024"
  shows "ent (set_entry t j x s) d k l = (if k = i \<and> l = j then x else ent s d k l)"
    and "get_entry (set_entry t j x s) d k = get_entry s d k"
proof -
  have tt: "t \<noteq> d" "page_aligned t"
    using dir_not_table [OF once] slot_table [OF t] tables_aligned by auto
  then show dir: "get_entry (set_entry t j x s) d k = get_entry s d k"
    using d j k by (simp add: get_set_entry)
  show "ent (set_entry t j x s) d k l = (if k = i \<and> l = j then x else ent s d k l)"
  proof (cases "bit (get_entry s d k) 0")
    case True
    then have "FRAME_OF (get_entry s d k) = t \<longleftrightarrow> k = i"
      using slot_unique [OF once k(1), of i] t by (auto simp: slot_def)
    then show ?thesis
      using True dir tt j k by (auto simp: ent_def get_set_entry)
  next
    case False
    then show ?thesis
      using dir t by (auto simp: ent_def slot_def)
  qed
qed

definition cloning :: "vm \<Rightarrow> u32 set \<Rightarrow> u32 multiset \<Rightarrow> u32 \<Rightarrow> u32 \<Rightarrow> bool" where
  "cloning s D L src dst \<longleftrightarrow> vm_inv s D L \<and> src \<in> D \<and> dst \<in> D \<and> src \<noteq> dst \<and> follows s src dst"

lemma table_other_space:
  assumes "vm_inv s D L" "d \<in> D" "c \<in> D" "c \<noteq> d" "slot s d i t"
  shows "page_aligned t" "t \<noteq> c" "tables s c \<inter> {t} = {}"
proof -
  have "t \<notin># held s c"
    using other_space [OF assms(1,2) _ assms(3,4), of t] slot_table [OF assms(5)] by simp
  then show "t \<noteq> c" "tables s c \<inter> {t} = {}"
    using table_in_held [of t s c] by auto
qed (rule tables_aligned [OF slot_table [OF assms(5)]])

lemma clone_page_new:
  assumes cl: "cloning s D L src dst" and t: "slot s src i t" and u: "slot s dst i u"
    and j: "j < 1024" "bit (get_entry s t j) 0" "\<not> bit (get_entry s u j) 0"
  shows "FRAME_OF (get_entry s t j) \<notin># held s dst"
proof
  have inv: "vm_inv s D L" "src \<in> D" "dst \<in> D" "src \<noteq> dst" "follows s src dst"
    using cl by (auto simp: cloning_def)
  let ?f = "FRAME_OF (get_entry s t j)"
  have fsrc: "?f \<in># held s src"
    using slot_table [OF t] j by (intro page_in_held)
  assume "?f \<in># held s dst"
  then show False
  proof (cases rule: held_cases)
    case dir
    then show ?thesis
      using other_space [OF inv(1) inv(3) _ inv(2,4), of ?f] fsrc by simp
  next
    case table
    then show ?thesis
      using other_space [OF inv(1) inv(3) _ inv(2,4), of ?f] fsrc by simp
  next
    case (page u' k)
    then obtain l where l: "slot s dst l u'"
      by (auto simp: table_slot slot_def)
    have "ent s dst l k = ent s src l k"
      using inv(5) l page(2,3) by (auto simp: follows_def slot_def ent_def)
    then have e: "ent s src l k = get_entry s u' k"
      using ent_slot [OF l] by simp
    then obtain t' where t': "slot s src l t'" "get_entry s t' k = get_entry s u' k"
      using page(3) l by (auto simp: ent_def slot_def split: if_splits)
    then have "t = t' \<and> j = k"
      using page_unique [OF vm_inv_once [OF inv(1,2)] slot_table [OF t] j(1,2) slot_table [OF t'(1)] page(2)]
        page(3,4) by simp
    moreover from this have "i = l"
      using slot_unique [OF vm_inv_once [OF inv(1,2)], of i l] t t'(1) by (auto simp: slot_def)
    ultimately show ?thesis
      using l u j(3) page(3) by (auto simp: slot_def)
  qed
qed

lemma cow_page_ok:
  assumes cl: "cloning s D L src dst" and t: "slot s src i t" and u: "slot s dst i u"
    and j: "j < 1024" "bit (get_entry s t j) 0" "\<not> bit (get_entry s u j) 0"
    and bound: "owners (pmm_st s) (FRAME_OF (get_entry s t j)) < 255"
  defines "e \<equiv> get_entry s t j" and "s' \<equiv> cow_page t u j s"
  shows "vm_inv s' D L"
    and "\<And>k l. k \<in> {2..<1024} \<Longrightarrow> l < 1024 \<Longrightarrow>
      ent s' src k l = (if k = i \<and> l = j then share e else ent s src k l)"
    and "\<And>k l. k \<in> {2..<1024} \<Longrightarrow> l < 1024 \<Longrightarrow>
      ent s' dst k l = (if k = i \<and> l = j then share e else ent s dst k l)"
    and "modifies {t, u} s s'"
    and "pmm_st s' = pmm_incref (FRAME_OF e) (pmm_st s)"
proof -
  have inv: "vm_inv s D L" "src \<in> D" "dst \<in> D" "src \<noteq> dst"
    using cl by (auto simp: cloning_def)
  note once = vm_inv_once [OF inv(1)] and al = vm_inv_aligned(3) [OF inv(1)]
  note to = table_other_space [OF inv(1,2,3) inv(4) [symmetric] t]
  note uo = table_other_space [OF inv(1,3,2,4) u]
  let ?s1 = "set_entry t j (share e) s"
  have e: "bit e 0" "page_ms (get_entry s t j) = page_ms e"
    using j by (simp_all add: e_def)
  have f: "FRAME_OF e \<in># held s src"
    unfolding e_def using slot_table [OF t] j by (intro page_in_held)
  have inv1: "vm_inv ?s1 D L"
    using once [OF inv(2)] e
    by (intro vm_inv_set_page [OF inv(1,2) slot_table [OF t] j(1)]) simp_all
  have m1: "modifies {t} s ?s1"
    using to(1) j(1) by (rule modifies_set_entry)
  have dst1: "held ?s1 dst = held s dst" "tables ?s1 dst = tables s dst"
    using modifies_space [OF m1 al [OF inv(3)]] to by auto
  have src1: "tables ?s1 src = tables s src"
    using held_set_page(2) [OF once [OF inv(2)] al [OF inv(2)] slot_table [OF t] j(1)] .
  have entry1: "get_entry ?s1 t j = share e"
    using to(1) j(1) by (simp add: get_set_entry)
  have fx: "FRAME_OF e \<notin> exclusive ?s1 D"
    using page_not_exclusive [OF inv1 inv(2), of t j] src1 slot_table [OF t] j(1) entry1 e(1) by simp
  have fp: "FRAME_OF e \<in> pool (pmm_st s)"
    using vm_inv_pool(2) [OF inv(1,2) f] .
  have "0 < owners (pmm_st s) (FRAME_OF e)"
    using vm_inv_ledger [OF inv(1) fp] count_total_ge [OF inv(2), of s "FRAME_OF e"] f
    by (metis count_greater_zero_iff add_gr_0 order_less_le_trans)
  then have inv2: "vm_inv (incref_frame (FRAME_OF e) ?s1) D (add_mset (FRAME_OF e) L)"
    using bound fp fx by (intro vm_inv_incref [OF inv1]) (simp_all add: e_def)
  let ?s2 = "incref_frame (FRAME_OF e) ?s1"
  have u2: "u \<in> tables ?s2 dst" "get_entry ?s2 u j = get_entry s u j" "held ?s2 dst = held s dst"
    using dst1 slot_table [OF u] modifies_get_entry [OF m1 uo(1) _ j(1)] to(3)
    by (auto simp: incref_frame_def)
  have new: "FRAME_OF e \<notin># held s dst"
    unfolding e_def by (rule clone_page_new [OF cl t u j])
  have inv3: "vm_inv (set_entry u j (share e) ?s2) D L"
    using u2 j(1,3) e new once [OF inv(3)]
    by (intro vm_inv_set_page [OF inv2 inv(3)]) (auto simp: page_ms_def not_in_iff)
  have s': "s' = set_entry u j (share e) ?s2"
    using j(2) by (simp add: s'_def cow_page_eq Let_def e_def incref_frame_def set_entry_def)
  show "vm_inv s' D L"
    unfolding s' by (rule inv3)
  have m2: "modifies {u} ?s1 s'"
    unfolding s' using modifies_set_entry [OF uo(1) j(1), of ?s2] by (simp add: modifies_def incref_frame_def)
  show "modifies {t, u} s s'"
    using modifies_trans [OF m1 m2] by (simp add: insert_commute)
  show "pmm_st s' = pmm_incref (FRAME_OF e) (pmm_st s)"
    unfolding s' by (simp add: incref_frame_def)
  have ent2: "ent ?s2 = ent ?s1"
    by (intro ext) (simp add: ent_def)
  fix k l :: u32
  assume k: "k \<in> {2..<1024}" "l < 1024"
  have "ent s' src k l = ent ?s1 src k l"
    using uo src1 by (intro ent_modifies [OF m2 al [OF inv(2)] _ _ k]) auto
  then show "ent s' src k l = (if k = i \<and> l = j then share e else ent s src k l)"
    using ent_set(1) [OF once [OF inv(2)] al [OF inv(2)] t j(1) k] by simp
  have "slot ?s2 dst i u"
    using u modifies_get_entry [OF m1 al [OF inv(3)], of i] to(2) by (auto simp: slot_def)
  then have "ent s' dst k l = (if k = i \<and> l = j then share e else ent ?s1 dst k l)"
    unfolding s' ent2 [symmetric]
    using ent_set(1) [OF vm_inv_once [OF inv2 inv(3)] al [OF inv(3)] _ j(1) k] by blast
  also have "ent ?s1 dst k l = ent s dst k l"
    using to by (intro ent_modifies [OF m1 al [OF inv(3)] _ _ k]) auto
  finally show "ent s' dst k l = (if k = i \<and> l = j then share e else ent s dst k l)" .
qed

lemma cloning_modifies:
  assumes "cloning s D L src dst" "slot s src i t" "slot s dst i u" "modifies {t, u} s s'"
  shows "slot s' src i t" "slot s' dst i u"
proof -
  have inv: "vm_inv s D L" "src \<in> D" "dst \<in> D" "src \<noteq> dst"
    using assms(1) by (auto simp: cloning_def)
  note to = table_other_space [OF inv(1,2,3) inv(4) [symmetric] assms(2)]
  note uo = table_other_space [OF inv(1,3,2,4) assms(3)]
  have "src \<noteq> t" "dst \<noteq> u"
    using dir_not_table [OF vm_inv_once [OF inv(1,2)]] dir_not_table [OF vm_inv_once [OF inv(1,3)]]
      slot_table assms(2,3) by metis+
  then show "slot s' src i t" "slot s' dst i u"
    using to uo assms(2,3) vm_inv_aligned(3) [OF inv(1)] inv(2,3)
      modifies_get_entry [OF assms(4), of src i] modifies_get_entry [OF assms(4), of dst i]
    by (auto simp: slot_def)
qed

lemma share_absent: "\<not> bit e 0 \<Longrightarrow> share e = e"
  by (simp add: share_def)

lemma cow_pages:
  assumes "distinct js" "set js \<subseteq> {..<1024}" "cloning s D L src dst" "slot s src i t" "slot s dst i u"
    "\<forall>j\<in>set js. \<not> bit (get_entry s u j) 0"
    "\<forall>j\<in>set js. bit (get_entry s t j) 0 \<longrightarrow> owners (pmm_st s) (FRAME_OF (get_entry s t j)) < 255"
  shows "cloning (fold (cow_page t u) js s) D L src dst \<and> modifies {t, u} s (fold (cow_page t u) js s) \<and>
    pool (pmm_st (fold (cow_page t u) js s)) = pool (pmm_st s) \<and>
    (\<forall>k\<in>{2..<1024}. \<forall>l<1024.
      ent (fold (cow_page t u) js s) src k l =
        (if k = i \<and> l \<in> set js then share (ent s src k l) else ent s src k l) \<and>
      ent (fold (cow_page t u) js s) dst k l =
        (if k = i \<and> l \<in> set js \<and> bit (ent s src k l) 0 then share (ent s src k l) else ent s dst k l)) \<and>
    (\<forall>f\<in>pool (pmm_st s). (\<forall>j\<in>set js. bit (get_entry s t j) 0 \<longrightarrow> FRAME_OF (get_entry s t j) \<noteq> f) \<longrightarrow>
      owners (pmm_st (fold (cow_page t u) js s)) f = owners (pmm_st s) f)"
  using assms
proof (induction js arbitrary: s)
  case (Cons j js)
  have inv: "vm_inv s D L" "src \<in> D" "dst \<in> D" "src \<noteq> dst" "follows s src dst"
    using Cons.prems(3) by (auto simp: cloning_def)
  let ?s = "cow_page t u j s"
  show ?case
  proof (cases "bit (get_entry s t j) 0")
    case False
    then have "?s = s"
      by (simp add: cow_page_eq)
    moreover have "ent s src i j = get_entry s t j"
      using Cons.prems(4) by (rule ent_slot)
    ultimately show ?thesis
      using Cons.IH [of s] Cons.prems False by (auto simp: share_absent)
  next
    case True
    have j: "j < 1024" "\<not> bit (get_entry s u j) 0" "owners (pmm_st s) (FRAME_OF (get_entry s t j)) < 255"
      using Cons.prems(2,6,7) True by auto
    note ok = cow_page_ok [OF Cons.prems(3-5) j(1) True j(2,3)]
    have ej: "ent s src i j = get_entry s t j"
      using Cons.prems(4) by (rule ent_slot)
    have fol: "follows ?s src dst"
      using inv(5) ok(2,3) by (auto simp: follows_def)
    then have cl: "cloning ?s D L src dst"
      using ok(1) inv by (simp add: cloning_def)
    have sl: "slot ?s src i t" "slot ?s dst i u"
      using cloning_modifies [OF Cons.prems(3-5) ok(4)] .
    have i: "i \<in> {2..<1024}"
      using Cons.prems(4) by (simp add: slot_def)
    have t': "get_entry ?s t l = get_entry s t l" "get_entry ?s u l = get_entry s u l"
      if "l \<in> set js" for l
    proof -
      have "l < 1024" "l \<noteq> j"
        using that Cons.prems(1,2) by auto
      then show "get_entry ?s t l = get_entry s t l" "get_entry ?s u l = get_entry s u l"
        using ok(2,3) [OF i, of l] ent_slot [OF sl(1)] ent_slot [OF sl(2)]
          ent_slot [OF Cons.prems(4)] ent_slot [OF Cons.prems(5)] by metis+
    qed
    have fp: "FRAME_OF (get_entry s t j) \<in> pool (pmm_st s)"
      using vm_inv_pool(2) [OF inv(1,2) page_in_held [OF slot_table [OF Cons.prems(4)] j(1) True]] .
    have pool: "pool (pmm_st ?s) = pool (pmm_st s)"
      unfolding ok(5) using fp.share_keeps [OF vm_inv_pmm [OF inv(1)]] by simp
    have own: "owners (pmm_st ?s) f = owners (pmm_st s) f"
      if "f \<in> pool (pmm_st s)" "f \<noteq> FRAME_OF (get_entry s t j)" for f
      unfolding ok(5) using pmm_incref_owners [OF vm_inv_pmm [OF inv(1)] fp that(1)] that(2) by simp
    have bound: "owners (pmm_st ?s) (FRAME_OF (get_entry ?s t l)) < 255"
      if l: "l \<in> set js" "bit (get_entry ?s t l) 0" for l
    proof -
      have "l < 1024" "l \<noteq> j" "bit (get_entry s t l) 0"
        using l Cons.prems(1,2) t'(1) [OF l(1)] by auto
      moreover from this have "FRAME_OF (get_entry s t l) \<noteq> FRAME_OF (get_entry s t j)"
        using page_unique [OF vm_inv_once [OF inv(1,2)] slot_table [OF Cons.prems(4)] _ _
            slot_table [OF Cons.prems(4)] j(1) True] by blast
      moreover have "FRAME_OF (get_entry s t l) \<in> pool (pmm_st s)"
        using vm_inv_pool(2) [OF inv(1,2) page_in_held [OF slot_table [OF Cons.prems(4)]]] calculation by blast
      ultimately show ?thesis
        using own Cons.prems(7) l(1) t'(1) [OF l(1)] by simp
    qed
    have djs: "distinct js" "set js \<subseteq> {..<1024}" "j \<notin> set js"
      "\<forall>l\<in>set js. \<not> bit (get_entry ?s u l) 0"
      using Cons.prems(1,2,6) t'(2) by auto
    have "\<forall>l\<in>set js. bit (get_entry ?s t l) 0 \<longrightarrow> owners (pmm_st ?s) (FRAME_OF (get_entry ?s t l)) < 255"
      using bound by blast
    note IH = Cons.IH [OF djs(1,2) cl sl djs(4) this]
    have "ent (fold (cow_page t u) js ?s) src k l =
        (if k = i \<and> l \<in> set (j # js) then share (ent s src k l) else ent s src k l)"
      "ent (fold (cow_page t u) js ?s) dst k l =
        (if k = i \<and> l \<in> set (j # js) \<and> bit (ent s src k l) 0 then share (ent s src k l) else ent s dst k l)"
      if "k \<in> {2..<1024}" "l < 1024" for k l
      using conjunct1 [OF IH [THEN conjunct2, THEN conjunct2, THEN conjunct2], rule_format, OF that]
        ok(2,3) [OF that] ej djs(3) True by (cases "k = i"; cases "l = j"; simp)+
    moreover have "owners (pmm_st (fold (cow_page t u) js ?s)) f = owners (pmm_st s) f"
      if "f \<in> pool (pmm_st s)"
        "\<forall>l\<in>set (j # js). bit (get_entry s t l) 0 \<longrightarrow> FRAME_OF (get_entry s t l) \<noteq> f" for f
      using IH own [OF that(1)] that True pool t'(1) by auto
    moreover have "modifies {t, u} s (fold (cow_page t u) js ?s)"
      using modifies_trans [OF ok(4)] IH by fastforce
    ultimately show ?thesis
      using IH pool by simp
  qed
qed simp

definition cow_slot :: "u32 \<Rightarrow> u32 \<Rightarrow> u32 \<Rightarrow> u32 \<Rightarrow> vm \<Rightarrow> vm" where
  "cow_slot src dst di tab_phys s =
     (let src_tab = FRAME_OF (get_entry s src di);
          s = zero_frame tab_phys s;
          s = set_entry dst di (tab_phys OR (get_entry s src di AND 0xFFF)) s
      in fold (cow_page src_tab tab_phys) (idx 0 1024) s)"

lemma cow_slots_Cons:
  "cow_slots (di # dis) src dst s =
     (if \<not> bit (get_entry s src di) 0 then cow_slots dis src dst s
      else let (tab_phys, s) = alloc_frame s
      in if tab_phys = 0 then (False, s) else cow_slots dis src dst (cow_slot src dst di tab_phys s))"
  by (simp add: cow_slot_def flag_simps Let_def split: prod.split)

declare cow_slots.simps(2) [simp del]

text \<open>The frames a clone of \<open>src\<close> into \<open>dst\<close> writes besides the pages.\<close>

abbreviation clone_scratch :: "vm \<Rightarrow> u32 \<Rightarrow> u32 \<Rightarrow> u32 set" where
  "clone_scratch s src dst \<equiv> insert dst (tables s src \<union> tables s dst \<union> fresh s)"

lemma tables_cong: "(\<And>i. i \<in> {2..<1024} \<Longrightarrow> get_entry s' d i = get_entry s d i) \<Longrightarrow> tables s' d = tables s d"
  unfolding set_eq_iff table_slot by simp

lemma ent_held:
  assumes "k \<in> {2..<1024}" "l < 1024" "bit (ent s d k l) 0"
  obtains t where "slot s d k t" "ent s d k l = get_entry s t l" "FRAME_OF (ent s d k l) \<in># held s d"
proof -
  have "slot s d k (FRAME_OF (get_entry s d k))" "ent s d k l = get_entry s (FRAME_OF (get_entry s d k)) l"
    using assms by (auto simp: ent_def slot_def split: if_splits)
  moreover from this have "FRAME_OF (ent s d k l) \<in># held s d"
    using page_in_held [OF slot_table] assms(2,3) by metis
  ultimately show ?thesis
    using that by blast
qed

lemma ent_unique:
  assumes "\<And>f. count (held s d) f \<le> 1" "k \<in> {2..<1024}" "l < 1024" "bit (ent s d k l) 0"
    "i \<in> {2..<1024}" "j < 1024" "bit (ent s d i j) 0" "FRAME_OF (ent s d k l) = FRAME_OF (ent s d i j)"
  shows "k = i \<and> l = j"
proof -
  obtain t u where tu: "slot s d k t" "ent s d k l = get_entry s t l" "slot s d i u" "ent s d i j = get_entry s u j"
    using assms(2-7) by (metis ent_held)
  then have "t = u \<and> l = j"
    using page_unique [OF assms(1) slot_table [OF tu(1)] assms(3) _ slot_table [OF tu(3)] assms(6)]
      assms(4,7,8) by simp
  then show ?thesis
    using slot_unique [OF assms(1)] tu(1,3) by (auto simp: slot_def)
qed

lemma cow_slot_ok:
  assumes cl: "cloning s D L src dst" and i: "i \<in> {2..<1024}" and src: "bit (get_entry s src i) 0"
    and dst: "\<not> bit (get_entry s dst i) 0" and a: "alloc_frame s = (p, s1)" "p \<noteq> 0"
    and bound: "\<forall>j<1024. bit (ent s src i j) 0 \<longrightarrow> owners (pmm_st s) (FRAME_OF (ent s src i j)) < 255"
  defines "s' \<equiv> cow_slot src dst i p s1"
  shows "cloning s' D L src dst" "modifies (clone_scratch s src dst) s s'"
    and "\<And>k l. k \<in> {2..<1024} \<Longrightarrow> l < 1024 \<Longrightarrow>
      ent s' src k l = (if k = i then share (ent s src k l) else ent s src k l) \<and>
      ent s' dst k l = (if k = i \<and> bit (ent s src k l) 0 then share (ent s src k l) else ent s dst k l)"
    and "\<And>k. k < 1024 \<Longrightarrow> get_entry s' src k = get_entry s src k"
    and "\<And>k. k < 1024 \<Longrightarrow> k \<noteq> i \<Longrightarrow> get_entry s' dst k = get_entry s dst k"
    and "clone_scratch s' src dst \<subseteq> clone_scratch s src dst"
    and "pool (pmm_st s') = pool (pmm_st s)"
    and "\<And>f. f \<in> pool (pmm_st s) - fresh s \<Longrightarrow> (\<And>j. j < 1024 \<Longrightarrow> bit (ent s src i j) 0 \<Longrightarrow> f \<noteq> FRAME_OF (ent s src i j)) \<Longrightarrow>
      owners (pmm_st s') f = owners (pmm_st s) f"
proof -
  have inv: "vm_inv s D L" "src \<in> D" "dst \<in> D" "src \<noteq> dst" "follows s src dst"
    using cl by (auto simp: cloning_def)
  note frame = alloc_frameD [OF inv(1) a] and own = alloc_owner [OF inv(1) a]
  have al: "page_aligned src" "page_aligned dst" and i': "i < 1024"
    using vm_inv_aligned(3) [OF inv(1)] inv(2,3) i by auto
  let ?t = "FRAME_OF (get_entry s src i)"
  let ?e = "p OR (get_entry s src i AND 0xFFF)"
  let ?s2 = "set_entry dst i ?e (zero_frame p s1)"
  have e: "FRAME_OF ?e = p" "bit ?e 0"
    using frame(2) src by (simp_all add: FRAME_OF_or_flags bit_or_iff low_bits_bit)
  note hook = hook_table [OF inv(1) a inv(3) i dst e]
  have p_src: "p \<notin># held s src"
    using fresh_not_held [OF inv(1) frame(3) inv(2)] .
  then have src_out: "src \<notin> {p, dst}" "tables s src \<inter> {p, dst} = {}"
    using inv(4) table_in_held other_space [OF inv(1,3) _ inv(2,4), of dst] by auto
  have dir: "get_entry (zero_frame p s1) src i = get_entry s src i" "get_entry s1 src i = get_entry s src i"
    using same_ram(1) [OF frame(5)] src_out al i' frame(2) by (auto simp: get_zero_frame)
  have s': "s' = fold (cow_page ?t p) (idx 0 1024) ?s2"
    by (simp add: s'_def cow_slot_def Let_def dir)
  have src2: "get_entry ?s2 src k = get_entry s src k" if "k < 1024" for k
    using modifies_get_entry [OF hook(2) al(1)] src_out that by simp
  have ent2: "ent ?s2 src k l = ent s src k l" if "k \<in> {2..<1024}" "l < 1024" for k l
    using ent_modifies [OF hook(2) al(1) _ _ that] src_out by blast
  have cl2: "cloning ?s2 D L src dst"
    using inv hook(1,6) ent2 by (simp add: cloning_def follows_def)
  have sl: "slot ?s2 src i ?t" "slot ?s2 dst i p"
    using hook(3) src2 [OF i'] i src by (simp_all add: slot_def)
  have et: "get_entry ?s2 ?t j = ent s src i j" if "j < 1024" for j
    using ent2 [OF i that] ent_slot [OF sl(1)] by simp
  have own2: "owners (pmm_st ?s2) f = owners (pmm_st s) f" if "f \<in> pool (pmm_st s) - fresh s" for f
    using own(2) [of f] that frame(3) by auto
  have page_pool: "FRAME_OF (ent s src i j) \<in> pool (pmm_st s) - fresh s"
    if "j < 1024" "bit (ent s src i j) 0" for j
  proof -
    have "FRAME_OF (ent s src i j) \<in># held s src"
      using i that by (rule ent_held)
    then show ?thesis
      using vm_inv_pool(2) [OF inv(1,2)] fresh_not_held [OF inv(1) _ inv(2)] by blast
  qed
  have js: "set (idx 0 1024) = {..<1024}"
    by (auto simp: set_idx)
  have jb: "\<forall>j\<in>set (idx 0 1024). \<not> bit (get_entry ?s2 p j) 0"
    "\<forall>j\<in>set (idx 0 1024). bit (get_entry ?s2 ?t j) 0 \<longrightarrow>
       owners (pmm_st ?s2) (FRAME_OF (get_entry ?s2 ?t j)) < 255"
    using hook(5) bound own2 page_pool et by (auto simp: js)
  note pages = cow_pages [OF distinct_idx [OF order_refl] _ cl2 sl jb, folded s', unfolded js,
      OF subset_refl]
  note cl' = pages [THEN conjunct1] and m = pages [THEN conjunct2, THEN conjunct1]
    and pool = pages [THEN conjunct2, THEN conjunct2, THEN conjunct1]
    and pages_ent = pages [THEN conjunct2, THEN conjunct2, THEN conjunct2, THEN conjunct1]
    and pages_own = pages [THEN conjunct2, THEN conjunct2, THEN conjunct2, THEN conjunct2]
  show "cloning s' D L src dst"
    by (rule cl')
  have ents: "ent s' src k l = (if k = i then share (ent s src k l) else ent s src k l) \<and>
      ent s' dst k l = (if k = i \<and> bit (ent s src k l) 0 then share (ent s src k l) else ent s dst k l)"
    if "k \<in> {2..<1024}" "l < 1024" for k l
    using pages_ent [rule_format, OF that] ent2 [OF that] hook(6) [OF that] that(2)
    by (cases "k = i") simp_all
  show "\<And>k l. k \<in> {2..<1024} \<Longrightarrow> l < 1024 \<Longrightarrow>
      ent s' src k l = (if k = i then share (ent s src k l) else ent s src k l) \<and>
      ent s' dst k l = (if k = i \<and> bit (ent s src k l) 0 then share (ent s src k l) else ent s dst k l)"
    by (rule ents)
  have inv2: "vm_inv ?s2 D L"
    by (rule hook(1))
  have out: "src \<notin> {?t, p}" "dst \<notin> {?t, p}"
    using table_other_space [OF inv2 inv(2,3) inv(4) [symmetric] sl(1)]
      table_other_space [OF inv2 inv(3,2,4) sl(2)] dir_not_table [OF vm_inv_once [OF inv2 inv(2)]]
      dir_not_table [OF vm_inv_once [OF inv2 inv(3)]] slot_table [OF sl(1)] slot_table [OF sl(2)] by auto
  show src': "get_entry s' src k = get_entry s src k" if "k < 1024" for k
    using modifies_get_entry [OF m al(1) out(1) that] src2 [OF that] by simp
  have dst2: "get_entry s' dst k = get_entry ?s2 dst k" if "k < 1024" for k
    using modifies_get_entry [OF m al(2) out(2) that] .
  then show "get_entry s' dst k = get_entry s dst k" if "k < 1024" "k \<noteq> i" for k
    using hook(7) that by simp
  show "pool (pmm_st s') = pool (pmm_st s)"
    using pool own(3) by simp
  have "?t \<in> tables s src"
    using i src by (auto simp: table_slot)
  then show "modifies (clone_scratch s src dst) s s'"
    using frame(3) by (intro modifies_mono [OF modifies_trans [OF hook(2) m]]) auto
  show keep: "owners (pmm_st s') f = owners (pmm_st s) f"
    if "f \<in> pool (pmm_st s) - fresh s" "\<And>j. j < 1024 \<Longrightarrow> bit (ent s src i j) 0 \<Longrightarrow> f \<noteq> FRAME_OF (ent s src i j)" for f
    using pages_own [rule_format, of f] that own2 [OF that(1)] own(3) et by force
  have "f \<in> fresh s" if f: "f \<in> fresh s'" for f
  proof (rule ccontr)
    assume nf: "f \<notin> fresh s"
    have fp: "f \<in> pool (pmm_st s)" "owners (pmm_st s') f = 0"
      using f pool own(3) by (simp_all add: fresh_def)
    have inv': "vm_inv s' D L"
      using cl' by (simp add: cloning_def)
    have "f \<noteq> FRAME_OF (ent s src i j)" if "j < 1024" "bit (ent s src i j) 0" for j
    proof -
      have e': "ent s' src i j = share (ent s src i j)"
        using ents [OF i that(1)] by simp
      then have "bit (ent s' src i j) 0"
        using that(2) by simp
      with i that(1) have "FRAME_OF (ent s' src i j) \<in># held s' src"
        by (rule ent_held)
      then show ?thesis
        using fresh_not_held [OF inv' f inv(2)] e' by auto
    qed
    then have "owners (pmm_st s) f = 0"
      using keep [of f] fp nf by simp
    then show False
      using nf fp(1) by (simp add: fresh_def)
  qed
  then have "fresh s' \<subseteq> fresh s"
    by blast
  moreover have "tables s' src = tables s src"
    using src' by (intro tables_cong) simp
  moreover have "tables s' dst = insert p (tables s dst)"
    using hook(8) dst2 tables_cong [of s' dst ?s2] by simp
  ultimately show "clone_scratch s' src dst \<subseteq> clone_scratch s src dst"
    using frame(3) by auto
qed

definition cow_result :: "vm \<Rightarrow> vm \<Rightarrow> u32 set \<Rightarrow> u32 \<Rightarrow> u32 \<Rightarrow> bool" where
  "cow_result s s' P src dst \<longleftrightarrow> (\<forall>k\<in>{2..<1024}. \<forall>l<1024.
     ent s' src k l = (if k \<in> P then share (ent s src k l) else ent s src k l) \<and>
     ent s' dst k l = (if k \<in> P \<and> bit (ent s src k l) 0 then share (ent s src k l) else ent s dst k l))"

lemma cow_resultD:
  assumes "cow_result s s' P src dst" "k \<in> {2..<1024}" "l < 1024"
  shows "ent s' src k l = (if k \<in> P then share (ent s src k l) else ent s src k l)"
    "ent s' dst k l = (if k \<in> P \<and> bit (ent s src k l) 0 then share (ent s src k l) else ent s dst k l)"
  using assms unfolding cow_result_def by blast+

lemma cow_result_step:
  assumes "cow_result s s1 {i} src dst" "cow_result s1 s' P src dst" "i \<notin> P"
  shows "cow_result s s' (insert i P) src dst"
  unfolding cow_result_def
proof (intro ballI allI impI)
  fix k l :: u32
  assume k: "k \<in> {2..<1024}" "l < 1024"
  show "ent s' src k l = (if k \<in> insert i P then share (ent s src k l) else ent s src k l) \<and>
    ent s' dst k l = (if k \<in> insert i P \<and> bit (ent s src k l) 0 then share (ent s src k l) else ent s dst k l)"
    using cow_resultD [OF assms(1) k] cow_resultD [OF assms(2) k] assms(3) by (cases "k = i") auto
qed

lemma cow_page_free [simp]: "pmm_free_frames (pmm_st (cow_page t u j s)) = pmm_free_frames (pmm_st s)"
  by (simp add: cow_page_eq Let_def incref_frame_def pmm_incref_def pmm_free_frames_def)

lemma cow_slot_free [simp]: "pmm_free_frames (pmm_st (cow_slot src dst i p s)) = pmm_free_frames (pmm_st s)"
proof -
  have "pmm_free_frames (pmm_st (fold (cow_page t u) js s)) = pmm_free_frames (pmm_st s)" for t u js s
    by (induction js arbitrary: s) simp_all
  then show ?thesis
    by (simp add: cow_slot_def Let_def)
qed

definition present_slots :: "vm \<Rightarrow> u32 \<Rightarrow> u32 set \<Rightarrow> nat" where
  "present_slots s d A = card {i \<in> A. bit (get_entry s d i) 0}"

lemma present_slots_insert:
  assumes "i \<notin> A"
  shows "present_slots s d (insert i A) = present_slots s d A + (if bit (get_entry s d i) 0 then 1 else 0)"
proof -
  have "{k \<in> insert i A. bit (get_entry s d k) 0} =
      (if bit (get_entry s d i) 0 then insert i {k \<in> A. bit (get_entry s d k) 0}
       else {k \<in> A. bit (get_entry s d k) 0})"
    by auto
  then show ?thesis
    using assms by (simp add: present_slots_def)
qed

lemma present_slots_cong:
  "(\<And>i. i \<in> A \<Longrightarrow> get_entry s' d i = get_entry s d i) \<Longrightarrow> present_slots s' d A = present_slots s d A"
  unfolding present_slots_def by (rule arg_cong [of _ _ card]) auto

lemma cow_slots_ok:
  assumes "distinct dis" "set dis \<subseteq> {2..<1024}" "cloning s D L src dst"
    "\<forall>i\<in>set dis. \<not> bit (get_entry s dst i) 0"
    "\<forall>i\<in>set dis. \<forall>j<1024. bit (ent s src i j) 0 \<longrightarrow> owners (pmm_st s) (FRAME_OF (ent s src i j)) < 255"
    "cow_slots dis src dst s = (ok, s')"
  shows "cloning s' D L src dst \<and> modifies (clone_scratch s src dst) s s' \<and>
    (\<exists>P \<subseteq> set dis. (ok \<longrightarrow> P = set dis) \<and> cow_result s s' P src dst) \<and>
    (present_slots s src (set dis) \<le> unat (pmm_free_frames (pmm_st s)) \<longrightarrow> ok) \<and>
    (ok \<longrightarrow> unat (pmm_free_frames (pmm_st s)) =
       unat (pmm_free_frames (pmm_st s')) + present_slots s src (set dis))"
  using assms
proof (induction dis arbitrary: s)
  case Nil
  then show ?case
    by (simp add: cow_result_def present_slots_def)
next
  case (Cons i dis)
  have inv: "vm_inv s D L" "src \<in> D"
    using Cons.prems(3) by (auto simp: cloning_def)
  have i: "i \<in> {2..<1024}" "i \<notin> set dis"
    using Cons.prems(1,2) by auto
  have dis: "distinct dis" "set dis \<subseteq> {2..<1024}"
    using Cons.prems(1,2) by auto
  have count: "present_slots s src (set (i # dis)) =
      present_slots s src (set dis) + (if bit (get_entry s src i) 0 then 1 else 0)"
    using present_slots_insert [OF i(2)] by simp
  show ?case
  proof (cases "bit (get_entry s src i) 0")
    case False
    then have "cow_result s s {i} src dst"
      by (auto simp: cow_result_def ent_def share_absent)
    moreover have rest: "\<forall>i\<in>set dis. \<not> bit (get_entry s dst i) 0"
      "\<forall>i\<in>set dis. \<forall>j<1024. bit (ent s src i j) 0 \<longrightarrow> owners (pmm_st s) (FRAME_OF (ent s src i j)) < 255"
      using Cons.prems(4,5) by simp_all
    have eq: "cow_slots dis src dst s = (ok, s')"
      using Cons.prems(6) False by (simp add: cow_slots_Cons)
    obtain P where P: "P \<subseteq> set dis" "ok \<longrightarrow> P = set dis" "cow_result s s' P src dst"
      "cloning s' D L src dst" "modifies (clone_scratch s src dst) s s'"
      "present_slots s src (set dis) \<le> unat (pmm_free_frames (pmm_st s)) \<longrightarrow> ok"
      "ok \<longrightarrow> unat (pmm_free_frames (pmm_st s)) =
         unat (pmm_free_frames (pmm_st s')) + present_slots s src (set dis)"
      using Cons.IH [OF dis Cons.prems(3) rest eq] by blast
    ultimately have "cow_result s s' (insert i P) src dst"
      using i(2) by (blast intro: cow_result_step)
    then show ?thesis
      using P False count by (intro conjI exI [of _ "insert i P"]) auto
  next
    case True
    obtain p s1 where a: "alloc_frame s = (p, s1)"
      by (cases "alloc_frame s") auto
    show ?thesis
    proof (cases "p = 0")
      case no: True
      then have "s' = s" "\<not> ok" "pmm_free_frames (pmm_st s) = 0"
        using Cons.prems(6) True a alloc_frame_cases [OF inv(1) a] by (auto simp: cow_slots_Cons)
      then show ?thesis
        using Cons.prems(3) True count
        by (intro conjI exI [of _ "{}"]) (auto simp: cow_result_def)
    next
      case p: False
      let ?s = "cow_slot src dst i p s1"
      have dst: "\<not> bit (get_entry s dst i) 0" and bi: "\<forall>j<1024. bit (ent s src i j) 0 \<longrightarrow>
          owners (pmm_st s) (FRAME_OF (ent s src i j)) < 255"
        using Cons.prems(4,5) by auto
      note ok = cow_slot_ok [OF Cons.prems(3) i(1) True dst a p bi]
      have eq: "cow_slots dis src dst ?s = (ok, s')"
        using Cons.prems(6) True a p by (simp add: cow_slots_Cons)
      have r1: "cow_result s ?s {i} src dst"
        using ok(3) by (simp add: cow_result_def)
      have absent: "\<forall>k\<in>set dis. \<not> bit (get_entry ?s dst k) 0"
        using Cons.prems(2,4) i(2) ok(5) by fastforce
      have "owners (pmm_st ?s) (FRAME_OF (ent ?s src k j)) < 255"
        if k: "k \<in> set dis" "j < 1024" "bit (ent ?s src k j) 0" for k j
      proof -
        have k': "k \<in> {2..<1024}" "k \<noteq> i"
          using k(1) i(2) Cons.prems(2) by auto
        have e: "ent ?s src k j = ent s src k j"
          using cow_resultD(1) [OF r1 k'(1) k(2)] k'(2) by simp
        then have b: "bit (ent s src k j) 0"
          using k(3) by simp
        have "FRAME_OF (ent s src k j) \<in># held s src"
          using k'(1) k(2) b by (rule ent_held)
        then have "FRAME_OF (ent s src k j) \<in> pool (pmm_st s) - fresh s"
          using vm_inv_pool(2) [OF inv] fresh_not_held [OF inv(1) _ inv(2)] by blast
        moreover have "FRAME_OF (ent s src k j) \<noteq> FRAME_OF (ent s src i l)"
          if "l < 1024" "bit (ent s src i l) 0" for l
          using ent_unique [OF vm_inv_once [OF inv] k'(1) k(2) b i(1) that] k'(2) by blast
        ultimately show ?thesis
          using ok(8) Cons.prems(5) k(1,2) b e by simp
      qed
      then have bound: "\<forall>k\<in>set dis. \<forall>j<1024. bit (ent ?s src k j) 0 \<longrightarrow>
          owners (pmm_st ?s) (FRAME_OF (ent ?s src k j)) < 255"
        by blast
      obtain P where P: "P \<subseteq> set dis" "ok \<longrightarrow> P = set dis" "cow_result ?s s' P src dst"
        "cloning s' D L src dst" "modifies (clone_scratch ?s src dst) ?s s'"
        "present_slots ?s src (set dis) \<le> unat (pmm_free_frames (pmm_st ?s)) \<longrightarrow> ok"
        "ok \<longrightarrow> unat (pmm_free_frames (pmm_st ?s)) =
           unat (pmm_free_frames (pmm_st s')) + present_slots ?s src (set dis)"
        using Cons.IH [OF dis ok(1) absent bound eq] by blast
      have "present_slots ?s src (set dis) = present_slots s src (set dis)"
        using ok(4) dis(2) by (intro present_slots_cong) auto
      then have "present_slots s src (set (i # dis)) \<le> unat (pmm_free_frames (pmm_st s)) \<longrightarrow> ok"
        "ok \<longrightarrow> unat (pmm_free_frames (pmm_st s)) =
           unat (pmm_free_frames (pmm_st s')) + present_slots s src (set (i # dis))"
        using P(6,7) alloc_owner(4) [OF inv(1) a p] True count by auto
      moreover have "cow_result s s' (insert i P) src dst"
        using cow_result_step [OF r1 P(3)] P(1) i(2) by blast
      moreover have "modifies (clone_scratch s src dst) s s'"
        using modifies_mono [OF modifies_trans [OF ok(2) P(5)]] ok(6) by blast
      moreover have "insert i P \<subseteq> set (i # dis)" "ok \<longrightarrow> insert i P = set (i # dis)"
        using P(1,2) by auto
      ultimately show ?thesis
        using P(4) by blast
    qed
  qed
qed

lemma tables_card: "present_slots s d (set (idx 2 1024)) = card (tables s d)"
  if "\<And>f. count (held s d) f \<le> 1"
proof -
  have "tables s d = (\<lambda>i. FRAME_OF (get_entry s d i)) ` {i \<in> set (idx 2 1024). bit (get_entry s d i) 0}"
    by (auto simp: tables_def set_idx)
  moreover have "inj_on (\<lambda>i. FRAME_OF (get_entry s d i)) {i \<in> set (idx 2 1024). bit (get_entry s d i) 0}"
    using slot_unique [OF that] by (auto simp: inj_on_def set_idx)
  ultimately show ?thesis
    by (simp add: card_image present_slots_def)
qed

lemma clone_start:
  assumes inv: "vm_inv s D L" and src: "src \<in> D" and eq: "vmm_create_dir s = (dst, s1)" "dst \<noteq> 0"
  shows "cloning s1 (insert dst D) L src dst" "modifies {dst} s s1" "dst \<notin> D" "dst \<in> fresh s"
    "tables s1 dst = {}" "tables s1 src = tables s src"
    "\<And>i. i \<in> {2..<1024} \<Longrightarrow> get_entry s1 dst i = 0"
    "\<And>i. i \<in> {2..<1024} \<Longrightarrow> get_entry s1 src i = get_entry s src i"
    "\<And>k l. k \<in> {2..<1024} \<Longrightarrow> l < 1024 \<Longrightarrow> ent s1 src k l = ent s src k l"
    "\<And>f. f \<in> pool (pmm_st s) - fresh s \<Longrightarrow> owners (pmm_st s1) f = owners (pmm_st s) f"
    "unat (pmm_free_frames (pmm_st s)) = unat (pmm_free_frames (pmm_st s1)) + 1"
    "fresh s1 \<subseteq> fresh s"
proof -
  have made: "vm_inv s1 (insert dst D) L" "dst \<notin> D" "modifies {dst} s s1" "owners (pmm_st s) dst = 0"
    "dst \<in> pool (pmm_st s)" "\<And>i. i \<in> {2..<1024} \<Longrightarrow> get_entry s1 dst i = 0"
    "pool (pmm_st s1) = pool (pmm_st s)"
    "\<And>f. f \<in> pool (pmm_st s) \<Longrightarrow> f \<noteq> dst \<Longrightarrow> owners (pmm_st s1) f = owners (pmm_st s) f"
    "unat (pmm_free_frames (pmm_st s)) = unat (pmm_free_frames (pmm_st s1)) + 1"
    by (rule vmm_create_dir_cases [OF inv eq(1)]; use eq(2) in blast)+
  show "modifies {dst} s s1" "dst \<notin> D" "\<And>i. i \<in> {2..<1024} \<Longrightarrow> get_entry s1 dst i = 0"
    "unat (pmm_free_frames (pmm_st s)) = unat (pmm_free_frames (pmm_st s1)) + 1"
    using made by blast+
  show df: "dst \<in> fresh s"
    using made(4,5) by (simp add: fresh_def)
  have out: "src \<notin> {dst}" "tables s src \<inter> {dst} = {}" "page_aligned src"
    using fresh_not_held [OF inv df src] table_in_held vm_inv_aligned(3) [OF inv src] by auto
  show "tables s1 dst = {}"
    using made(6) by (auto simp: tables_def)
  show "tables s1 src = tables s src"
    using modifies_space(2) [OF made(3) out(3,1,2)] .
  show "get_entry s1 src i = get_entry s src i" if "i \<in> {2..<1024}" for i
    using modifies_get_entry [OF made(3) out(3,1)] that by simp
  show "ent s1 src k l = ent s src k l" if "k \<in> {2..<1024}" "l < 1024" for k l
    using ent_modifies [OF made(3) out(3,1,2) that] .
  show "owners (pmm_st s1) f = owners (pmm_st s) f" if "f \<in> pool (pmm_st s) - fresh s" for f
    using made(8) that df by auto
  show "fresh s1 \<subseteq> fresh s"
  proof
    fix f
    assume "f \<in> fresh s1"
    then show "f \<in> fresh s"
      using made(7) made(8) [of f] df by (cases "f = dst") (auto simp: fresh_def)
  qed
  have "follows s1 src dst"
    using made(6) by (simp add: follows_def ent_def)
  then show "cloning s1 (insert dst D) L src dst"
    using made(1,2) src by (auto simp: cloning_def)
qed

text \<open>
  What a clone, whole or abandoned, leaves: the pages of \<open>src\<close> at the slots \<open>P\<close> are shared.
\<close>

lemma vmm_clone_cow_cases:
  assumes inv: "vm_inv s D L" and src: "src \<in> D" and bound: "\<forall>f\<in>pool (pmm_st s). owners (pmm_st s) f < 255"
    and eq: "vmm_clone_cow src s = (dst, s')"
  obtains (full) "dst = 0" "s' = s" "pmm_free_frames (pmm_st s) = 0"
  | (abandoned) P where "dst = 0" "vm_inv s' D L" "modifies (tables s src \<union> fresh s) s s'"
      "\<And>k l. k \<in> {2..<1024} \<Longrightarrow> l < 1024 \<Longrightarrow>
        ent s' src k l = (if k \<in> P then share (ent s src k l) else ent s src k l)"
      "unat (pmm_free_frames (pmm_st s)) < card (tables s src) + 1"
  | (cloned) "dst \<noteq> 0" "dst \<notin> D" "vm_inv s' (insert dst D) L" "modifies (tables s src \<union> fresh s) s s'"
      "\<And>k l. k \<in> {2..<1024} \<Longrightarrow> l < 1024 \<Longrightarrow> ent s' src k l = share (ent s src k l)"
      "\<And>k l. k \<in> {2..<1024} \<Longrightarrow> l < 1024 \<Longrightarrow>
        ent s' dst k l = (if bit (ent s src k l) 0 then share (ent s src k l) else 0)"
      "unat (pmm_free_frames (pmm_st s)) = unat (pmm_free_frames (pmm_st s')) + card (tables s src) + 1"
proof -
  have "src \<noteq> 0"
    using vm_inv_pool(2) [OF inv src held_self] pool_nonzero [OF vm_inv_pmm [OF inv]] by auto
  obtain d s1 where c: "vmm_create_dir s = (d, s1)"
    by (cases "vmm_create_dir s") auto
  show thesis
  proof (cases "d = 0")
    case True
    then have "s1 = s" "pmm_free_frames (pmm_st s) = 0"
      using vmm_create_dir_cases [OF inv c] by auto
    then show ?thesis
      using full eq c True \<open>src \<noteq> 0\<close> by (simp add: vmm_clone_cow_def)
  next
    case False
    note start = clone_start [OF inv src c False]
    obtain ok s2 where cs: "cow_slots (idx 2 1024) src d s1 = (ok, s2)"
      by (cases "cow_slots (idx 2 1024) src d s1") auto
    have i2: "set (idx 2 1024) = {2..<1024}"
      by (auto simp: set_idx)
    have "owners (pmm_st s1) (FRAME_OF (ent s1 src i j)) < 255"
      if ij: "i \<in> {2..<1024}" "j < 1024" "bit (ent s1 src i j) 0" for i j
    proof -
      have e: "ent s1 src i j = ent s src i j"
        using start(9) [OF ij(1,2)] .
      have "FRAME_OF (ent s src i j) \<in># held s src"
        using ij(1,2) ij(3) [unfolded e] by (rule ent_held)
      then have "FRAME_OF (ent s src i j) \<in> pool (pmm_st s) - fresh s"
        using vm_inv_pool(2) [OF inv src] fresh_not_held [OF inv _ src] by blast
      then show ?thesis
        using bound start(10) e by simp
    qed
    then have b1: "\<forall>i\<in>set (idx 2 1024). \<forall>j<1024. bit (ent s1 src i j) 0 \<longrightarrow>
        owners (pmm_st s1) (FRAME_OF (ent s1 src i j)) < 255"
      by (simp add: i2)
    have a1: "\<forall>i\<in>set (idx 2 1024). \<not> bit (get_entry s1 d i) 0"
      using start(7) by (simp add: i2)
    from cow_slots_ok [OF distinct_idx [OF order_refl] eq_refl [OF i2] start(1) a1 b1 cs]
    obtain P where P: "cloning s2 (insert d D) L src d" "modifies (clone_scratch s1 src d) s1 s2"
      "ok \<longrightarrow> P = {2..<1024}" "cow_result s1 s2 P src d"
      "present_slots s1 src (set (idx 2 1024)) \<le> unat (pmm_free_frames (pmm_st s1)) \<longrightarrow> ok"
      "ok \<longrightarrow> unat (pmm_free_frames (pmm_st s1)) =
         unat (pmm_free_frames (pmm_st s2)) + present_slots s1 src (set (idx 2 1024))"
      by (auto simp: i2)
    have m: "modifies (tables s src \<union> fresh s) s s2"
      using start(4-6,12) by (intro modifies_mono [OF modifies_trans [OF start(2) P(2)]]) auto
    have inv2: "vm_inv s2 (insert d D) L" "d \<in> insert d D"
      using P(1) by (auto simp: cloning_def)
    have cs1: "vm_inv s1 (insert d D) L" "src \<in> insert d D"
      using start(1) by (auto simp: cloning_def)
    have enough: "card (tables s src) + 1 \<le> unat (pmm_free_frames (pmm_st s)) \<longrightarrow> ok"
      "ok \<longrightarrow> unat (pmm_free_frames (pmm_st s)) = unat (pmm_free_frames (pmm_st s2)) + card (tables s src) + 1"
      using P(5,6) start(6,11) tables_card [OF vm_inv_once [OF cs1]] by simp_all
    note rs = cow_resultD [OF P(4)]
    show ?thesis
    proof (cases ok)
      case True
      have "dst = d" "s' = s2"
        using eq c cs True False \<open>src \<noteq> 0\<close> by (auto simp: vmm_clone_cow_def)
      then show ?thesis
        using cloned False start(3,7,9) inv2(1) m rs P(3) True enough(2) by (simp add: ent_def)
    next
      case no: False
      have s': "dst = 0" "s' = vmm_destroy_dir d s2"
        using eq c cs no False \<open>src \<noteq> 0\<close> by (auto simp: vmm_clone_cow_def)
      note destroy = vmm_destroy_dir_inv [OF inv2]
      have "vm_inv s' D L"
        using destroy(1) start(3) s' by simp
      moreover have "modifies (tables s src \<union> fresh s) s s'"
        using modifies_mono [OF modifies_trans [OF m destroy(2)]] start(4) s' by auto
      moreover have "ent s' src k l = (if k \<in> P then share (ent s src k l) else ent s src k l)"
        if k: "k \<in> {2..<1024}" "l < 1024" for k l
      proof -
        have sc: "src \<in> insert d D" "src \<noteq> d"
          using src start(3) by auto
        have "src \<notin> {d}" "tables s2 src \<inter> {d} = {}"
          using other_space [OF inv2(1,2) _ sc, of d] table_in_held sc(2) by auto
        then have "ent s' src k l = ent s2 src k l"
          unfolding s' using ent_modifies [OF destroy(2) vm_inv_aligned(3) [OF inv src] _ _ k] by blast
        then show ?thesis
          using rs(1) [OF k] start(9) [OF k] by (cases "k \<in> P") simp_all
      qed
      ultimately show ?thesis
        using abandoned s'(1) enough(1) no by (meson not_le)
    qed
  qed
qed

lemma clone_bytes:
  assumes inv: "vm_inv s D L" and d: "d \<in> D" and m: "modifies (tables s d \<union> fresh s) s s'"
    and v: "user_addr v" "bit (pte s d v) 0" and f: "FRAME_OF (pte s' c v) = FRAME_OF (pte s d v)"
  shows "byte_at s' c v = byte_at s d v"
  using scratch_page [OF inv d v] m f by (auto simp: modifies_def byte_at_def FRAME_OF_phys)

lemma clone_same_frames:
  assumes inv: "vm_inv s D L" "src \<in> D" and m: "modifies (tables s src \<union> fresh s) s s'"
    and e: "\<And>k l. k \<in> {2..<1024} \<Longrightarrow> l < 1024 \<Longrightarrow> ent s' src k l \<in> {ent s src k l, share (ent s src k l)}"
    and c: "c \<in> D"
  shows "held s' c = held s c"
proof (cases "c = src")
  case True
  have "src \<notin> tables s src \<union> fresh s"
    using dir_not_table [OF vm_inv_once [OF inv]] fresh_not_held [OF inv(1) _ inv(2)] held_self by blast
  then have d: "get_entry s' src i = get_entry s src i" if "i < 1024" for i
    using modifies_get_entry [OF m vm_inv_aligned(3) [OF inv] _ that] by blast
  have "slot_ms s' src i = slot_ms s src i" if i: "i \<in> {2..<1024}" for i
  proof (cases "bit (get_entry s src i) 0")
    case True
    have "page_ms (get_entry s' (FRAME_OF (get_entry s src i)) j) = page_ms (get_entry s (FRAME_OF (get_entry s src i)) j)" if "j < 1024" for j
      using e [OF i that] d [of i] i True by (auto simp: ent_def)
    then show ?thesis
      using d [of i] i by (simp add: slot_ms_def Let_def tab_ms_def)
  qed (use d [of i] i in \<open>simp add: slot_ms_absent\<close>)
  then show ?thesis
    using True by (simp add: held_def)
next
  case False
  have "c \<notin> tables s src \<union> fresh s" "tables s c \<inter> (tables s src \<union> fresh s) = {}"
    using scratch_other [OF inv c False] table_in_held [of _ s c] held_self [of c s] by blast+
  then show ?thesis
    using modifies_space(1) [OF m vm_inv_aligned(3) [OF inv(1) c]] by blast
qed

lemma vmm_clone_cow_ok:
  assumes "vm_inv s D L" "src \<in> D" "\<forall>f\<in>pool (pmm_st s). owners (pmm_st s) f < 255"
    "vmm_clone_cow src s = (dst, s')"
  shows "(\<forall>c\<in>D - {src}. unchanged s s' c) \<and>
     (\<forall>v\<ge>0x800000. pte s' src v \<in> {pte s src v, share (pte s src v)} \<and>
        (bit (pte s src v) 0 \<longrightarrow> byte_at s' src v = byte_at s src v)) \<and>
     (if dst = 0 then vm_inv s' D L \<and> (\<forall>c\<in>D. held s' c = held s c) \<and>
        unat (pmm_free_frames (pmm_st s)) < card (tables s src) + 1
      else dst \<notin> D \<and> vm_inv s' (insert dst D) L \<and>
        (\<forall>v\<ge>0x800000. pte s' src v = share (pte s src v) \<and>
           pte s' dst v = (if bit (pte s src v) 0 then share (pte s src v) else 0) \<and>
           (bit (pte s src v) 0 \<longrightarrow> byte_at s' dst v = byte_at s src v)))"
  using assms
proof (cases rule: vmm_clone_cow_cases)
  case full
  then show ?thesis
    using assms(1) by simp
next
  case (abandoned P)
  have "unchanged s s' c" if "c \<in> D - {src}" for c
    using that scratch_other [OF assms(1,2)] by (intro modifies_unchanged [OF assms(1) _ abandoned(3)]) auto
  moreover have "pte s' src v \<in> {pte s src v, share (pte s src v)}" if "user_addr v" for v
    using abandoned(4) [OF user_addr_range [OF that]] by (auto simp: pte_ent)
  moreover from this have "byte_at s' src v = byte_at s src v" if "user_addr v" "bit (pte s src v) 0" for v
    using that by (intro clone_bytes [OF assms(1,2) abandoned(3)]) force+
  moreover have "held s' c = held s c" if "c \<in> D" for c
    using abandoned(4) by (intro clone_same_frames [OF assms(1,2) abandoned(3) _ that]) auto
  ultimately show ?thesis
    using abandoned(1,2,5) by (simp add: user_addr_iff)
next
  case cloned
  have "unchanged s s' c" if "c \<in> D - {src}" for c
    using that scratch_other [OF assms(1,2)] by (intro modifies_unchanged [OF assms(1) _ cloned(4)]) auto
  moreover have p: "pte s' src v = share (pte s src v)"
    "pte s' dst v = (if bit (pte s src v) 0 then share (pte s src v) else 0)" if "user_addr v" for v
    using cloned(5,6) [OF user_addr_range [OF that]] by (simp_all add: pte_ent)
  moreover have "byte_at s' c v = byte_at s src v"
    if "user_addr v" "bit (pte s src v) 0" "c \<in> {src, dst}" for c v
    using that p by (intro clone_bytes [OF assms(1,2) cloned(4)]) auto
  ultimately show ?thesis
    using cloned(1-3) by (simp add: user_addr_iff)
qed

lemma vmm_clone_cow_modifies:
  assumes "vm_inv s D L" "src \<in> D" "\<forall>f\<in>pool (pmm_st s). owners (pmm_st s) f < 255"
    "vmm_clone_cow src s = (dst, s')"
  shows "modifies (pool (pmm_st s)) s s'"
proof -
  have "tables s src \<union> fresh s \<subseteq> pool (pmm_st s)"
    using table_in_held vm_inv_pool(2) [OF assms(1,2)] by (fastforce simp: fresh_def)
  moreover from assms have "modifies (tables s src \<union> fresh s) s s'"
    by (cases rule: vmm_clone_cow_cases) simp_all
  ultimately show ?thesis
    using modifies_mono by blast
qed

text \<open>
  C19.  A copy-on-write clone.  When \<open>vmm_clone_cow\<close> succeeds, the child sees exactly the bytes the
  parent saw, at the same addresses and through the same frames; every page the two share has
  lost its write permission on both sides, and one that was writable is tagged copy-on-write.
  The parent's bytes are unchanged, no other address space is affected, and every frame's owner
  count is exact.  It succeeds when one frame for the directory and one per page table are free.
  When it fails, at whatever point, it returns 0 and every frame it took is given back: each address space holds exactly the
  frames it held before, owner counts are exact, and all bytes are as they were; pages of the parent that were shared already stay
  read-only and tagged copy-on-write.
\<close>

theorem vmm_clone_cow_correct:
  assumes "vm_inv s D L" "src \<in> D" "\<forall>f\<in>pool (pmm_st s). owners (pmm_st s) f < 255"
    "vmm_clone_cow src s = (dst, s')"
  shows "(\<forall>c\<in>D - {src}. unchanged s s' c) \<and>
     (\<forall>v\<ge>0x800000. pte s' src v \<in> {pte s src v, share (pte s src v)} \<and>
        (bit (pte s src v) 0 \<longrightarrow> byte_at s' src v = byte_at s src v)) \<and>
     (if dst = 0 then vm_inv s' D L \<and> (\<forall>c\<in>D. held s' c = held s c) \<and>
        unat (pmm_free_frames (pmm_st s)) < card (tables s src) + 1
      else dst \<notin> D \<and> vm_inv s' (insert dst D) L \<and>
        (\<forall>v\<ge>0x800000. pte s' src v = share (pte s src v) \<and>
           pte s' dst v = (if bit (pte s src v) 0 then share (pte s src v) else 0) \<and>
           (bit (pte s src v) 0 \<longrightarrow> byte_at s' dst v = byte_at s src v)))"
  using assms by (rule vmm_clone_cow_ok)

lemma first_space_owners: "\<forall>f\<in>pool (pmm_st (snd first_space)). owners (pmm_st (snd first_space)) f < 255"
  using vm_inv_ledger [OF first_space_inv(1)] first_space_inv(2) by (simp add: all_held_def)

lemma first_space_tables: "tables (snd first_space) (fst first_space) = {}"
proof -
  have "t \<notin> tables (snd first_space) (fst first_space)" for t
    using table_in_held [of t] dir_not_table [OF vm_inv_once [OF first_space_inv(1)]] first_space_inv(2)
    by fastforce
  then show ?thesis
    by blast
qed

theorem vmm_clone_cow_correct_witness:
  "fst (vmm_clone_cow (fst first_space) (snd first_space)) \<noteq> 0 \<and>
   vm_inv (snd (vmm_clone_cow (fst first_space) (snd first_space)))
     {fst (vmm_clone_cow (fst first_space) (snd first_space)), fst first_space} {#}"
  using vmm_clone_cow_correct [OF first_space_inv(1) _ first_space_owners prod.collapse [symmetric],
      of "fst first_space"] first_space_inv(3)
  by (auto simp: first_space_tables split: if_splits)

section \<open>Write faults\<close>

lemma low_or_add: "page_aligned f \<Longrightarrow> f OR (v AND 0xFFF) = f + (v AND 0xFFF)"
proof -
  assume f: "page_aligned f"
  then have "f AND (v AND 0xFFF) = 0"
    by (intro bit_word_eqI) (auto simp: bit_and_iff [of f] low_bits_bit page_aligned_bits)
  then show ?thesis
    by (simp add: disjunctive_add_eq_or)
qed

lemma copy_frame_byte:
  assumes "page_aligned p" "page_aligned f" "p \<noteq> f"
  shows "ram (copy_frame p f s) (p OR (v AND 0xFFF)) = ram s (f OR (v AND 0xFFF))"
proof -
  have "p OR (v AND 0xFFF) \<in> footprint p 4096"
    using assms(1) by (simp add: footprint_page_iff FRAME_OF_phys)
  then show ?thesis
    using page_frames_disjoint [OF assms]
    by (simp add: copy_frame_def memcpy_apply low_or_add assms)
qed

definition unshare :: "u32 \<Rightarrow> u32" where
  "unshare e = (e AND 0xFFF AND NOT PF_COW) OR PF_RW"

lemma bit_low_mask: "bit (0xFFF :: u32) n \<longleftrightarrow> n < 12"
  unfolding mask_12 by (auto simp: bit_mask_iff)

lemma bit_unshare: "bit (unshare e) n \<longleftrightarrow> n < 12 \<and> (bit e n \<and> n \<noteq> 9 \<or> n = 1)"
  by (auto simp only: unshare_def bit_or_iff bit_and_iff bit_not_iff bit_PF_RW bit_PF_COW bit_low_mask) auto

lemma unshare_entry:
  assumes "page_aligned f" "bit e 0"
  shows "FRAME_OF (f OR unshare e) = f" "bit (f OR unshare e) 0" "bit (f OR unshare e) 1"
    "\<not> bit (f OR unshare e) 9" "bit (f OR unshare e) 2 \<longleftrightarrow> bit e 2"
proof -
  have "unshare e AND 0xFFF = unshare e"
    by (rule bit_word_eqI) (auto simp: low_bits_bit bit_unshare)
  then show "FRAME_OF (f OR unshare e) = f"
    by (rule FRAME_OF_or_small [OF assms(1)])
  show "bit (f OR unshare e) 0" "bit (f OR unshare e) 1" "\<not> bit (f OR unshare e) 9"
    "bit (f OR unshare e) 2 \<longleftrightarrow> bit e 2"
    using assms by (simp_all add: or_flags_bit_low bit_unshare)
qed

lemma vmm_cow_handle_cases:
  assumes inv: "vm_inv s D L" and d: "active_dir s \<in> D" and v: "user_addr v"
    and eq: "vmm_cow_handle v err s = (ok, s')"
  obtains (refused) "\<not> ok" "s' = s"
      "bit err 1 \<Longrightarrow> bit (pte s (active_dir s) v) 0 \<Longrightarrow> bit (pte s (active_dir s) v) 9 \<Longrightarrow>
       pmm_free_frames (pmm_st s) = 0"
  | (handled) f where "ok" "bit (pte s (active_dir s) v) 0" "bit (pte s (active_dir s) v) 9"
      "vm_inv s' D L" "modifies (scratch s (active_dir s)) s s'" "page_aligned f"
      "\<And>w. user_addr w \<Longrightarrow> pte s' (active_dir s) w =
        (if FRAME_OF w = FRAME_OF v then f OR unshare (pte s (active_dir s) v) else pte s (active_dir s) w)"
      "\<And>w. ram s' (f OR (w AND 0xFFF)) = ram s (FRAME_OF (pte s (active_dir s) v) OR (w AND 0xFFF))"
proof (cases "bit err 1 \<and> bit (pte s (active_dir s) v) 0 \<and> bit (pte s (active_dir s) v) 9")
  case False
  then have "\<not> ok" "s' = s"
    using eq by (auto simp: vmm_cow_handle_def pte_def Let_def flag_simps split: if_splits)
  then show ?thesis
    using False by (intro refused) auto
next
  case True
  let ?d = "active_dir s" let ?e = "pte s ?d v"
  let ?f = "FRAME_OF ?e"
  have e: "bit ?e 0" "bit ?e 9" "bit err 1"
    using True by auto
  obtain t where t: "t \<in> tables s ?d" "bit (get_entry s ?d (DIR_INDEX v)) 0"
    "t = FRAME_OF (get_entry s ?d (DIR_INDEX v))" "?e = get_entry s t (TAB_INDEX v)" "?f \<in># held s ?d"
    using v e(1) by (rule pte_held)
  have tal: "page_aligned t"
    using t(1) by (rule tables_aligned)
  have fp: "?f \<in> pool (pmm_st s)"
    using vm_inv_pool(2) [OF inv d t(5)] .
  note once = vm_inv_once [OF inv d] and dal = vm_inv_aligned(3) [OF inv d]
  have own1: "1 \<le> owners (pmm_st s) ?f"
    using vm_inv_ledger [OF inv fp] count_total_ge [OF d, of s ?f] t(5)
    by (simp flip: count_greater_zero_iff)
  have body: "vmm_cow_handle v err s =
      (if pmm_refcount (pmm_st s) ?f \<le> 1 then (True, set_entry t (TAB_INDEX v) (?f OR unshare ?e) s)
       else let (fresh, s) = alloc_frame s in if fresh = 0 then (False, s)
         else (True, set_entry t (TAB_INDEX v) (fresh OR unshare ?e) (free_frame ?f (copy_frame fresh ?f s))))"
    unfolding vmm_cow_handle_def Let_def t(3) [symmetric] t(4) [symmetric] unshare_def
    using t(2) e by (simp add: flag_simps)
  show ?thesis
  proof (cases "pmm_refcount (pmm_st s) ?f \<le> 1")
    case True
    have s': "ok" "s' = set_entry t (TAB_INDEX v) (?f OR unshare ?e) s"
      using eq body True by auto
    have own: "owners (pmm_st s) ?f = 1"
      using True own1 by (simp add: owners_def word_le_nat_alt)
    note u = unshare_entry [OF page_aligned_FRAME_OF e(1), of ?e]
    have pm: "page_ms (?f OR unshare ?e) = page_ms ?e"
      using u e(1) by (simp add: page_ms_def)
    have "vm_inv s' D L"
      unfolding s' using own u once t(4) pm
      by (intro vm_inv_set_page [OF inv d t(1)]) simp_all
    moreover have "modifies {t} s s'"
      unfolding s' using tal by (intro modifies_set_entry) simp_all
    moreover from this have "modifies (scratch s ?d) s s'"
      by (rule modifies_mono) (use t(1) in auto)
    moreover have "ram s' (?f OR (w AND 0xFFF)) = ram s (?f OR (w AND 0xFFF))" for w
      using \<open>modifies {t} s s'\<close> page_not_table [OF once t(1) _ _ t(1), of "TAB_INDEX v"] t(4) e(1)
      by (simp add: modifies_def FRAME_OF_phys)
    ultimately show ?thesis
      using handled [of ?f] s' e pte_set_page [OF once dal t(2,3) v] by simp
  next
    case shared: False
    obtain p s1 where a: "alloc_frame s = (p, s1)"
      by (cases "alloc_frame s") auto
    show ?thesis
    proof (cases "p = 0")
      case True
      then have "s1 = s" "pmm_free_frames (pmm_st s) = 0"
        using alloc_frame_cases [OF inv a] by auto
      then show ?thesis
        using eq body shared a True by (intro refused) auto
    next
      case False
      note frame = alloc_frameD [OF inv a False] and own = alloc_owner [OF inv a False]
      let ?s2 = "copy_frame p ?f s1"
      let ?s3 = "set_entry t (TAB_INDEX v) (p OR unshare ?e) ?s2"
      have s': "ok" "s' = free_frame ?f ?s3"
        using eq body shared a False
        by (auto simp: free_frame_def set_entry_def copy_frame_def)
      note u = unshare_entry [OF frame(2) e(1)]
      have out: "p \<notin># held s ?d"
        using fresh_not_held [OF inv frame(3) d] .
      then have pf: "p \<noteq> ?f" "p \<noteq> t" "p \<noteq> ?d" "p \<notin> tables s ?d"
        using t(1,5) table_in_held by auto
      have m1: "modifies {p} s1 ?s2"
        using modifies_copy_frame [OF frame(2) page_aligned_FRAME_OF pf(1)] .
      have m2: "modifies {p} s ?s2"
        using modifies_trans [OF frame(4) m1] by simp
      have inv2: "vm_inv ?s2 D (add_mset p L)"
        using vm_inv_fill [OF frame(1) own(1) m1] by simp
      have sp: "held ?s2 ?d = held s ?d" "tables ?s2 ?d = tables s ?d"
        using modifies_space [OF m2 dal] pf by auto
      have e2: "get_entry ?s2 t (TAB_INDEX v) = ?e" "get_entry ?s2 ?d (DIR_INDEX v) = get_entry s ?d (DIR_INDEX v)"
        using modifies_get_entry [OF m2 tal] modifies_get_entry [OF m2 dal] pf t(4) by simp_all
      have "vm_inv ?s3 D (add_mset ?f L)"
        using out once sp u e(1) e2(1) own(1) pf(1) t(1)
        by (intro vm_inv_set_page [OF inv2 d]) (auto simp: page_ms_def not_in_iff intro: le_SucI)
      then have "vm_inv s' D L"
        unfolding s' by (rule vm_inv_free)
      moreover have m3: "modifies {t} ?s2 s'"
        unfolding s' using modifies_set_entry [OF tal, of "TAB_INDEX v" ?s2] by simp
      have "modifies (scratch s ?d) s s'"
        using t(1) frame(3) by (intro modifies_mono [OF modifies_trans [OF m2 m3]]) auto
      moreover have "pte s' ?d w = (if FRAME_OF w = FRAME_OF v then p OR unshare ?e else pte s ?d w)"
        if w: "user_addr w" for w
      proof -
        have "pte s' ?d w = (if FRAME_OF w = FRAME_OF v then p OR unshare ?e else pte ?s2 ?d w)"
          unfolding s' using pte_set_page [OF vm_inv_once [OF inv2 d] dal _ _ v w] e2(2) t(2,3) by simp
        also have "pte ?s2 ?d w = pte s ?d w"
          using pf by (intro pte_modifies [OF m2 dal _ _ w]) auto
        finally show ?thesis .
      qed
      moreover have "ram s' (p OR (w AND 0xFFF)) = ram s (?f OR (w AND 0xFFF))" for w
      proof -
        have "ram s' (p OR (w AND 0xFFF)) = ram ?s2 (p OR (w AND 0xFFF))"
          using m3 pf(2) frame(2) by (simp add: modifies_def FRAME_OF_phys)
        then show ?thesis
          using copy_frame_byte [OF frame(2) page_aligned_FRAME_OF pf(1)] frame(5) by simp
      qed
      ultimately show ?thesis
        using handled [of p] s' e frame(2) by blast
    qed
  qed
qed

lemma same_page_pte: "FRAME_OF w = FRAME_OF v \<Longrightarrow> pte s d w = pte s d v"
  using same_page_iff [of w v] by (auto simp: pte_ent)

lemma vmm_cow_handle_ok:
  assumes "vm_inv s D L" "active_dir s \<in> D" "0x800000 \<le> v" "vmm_cow_handle v err s = (ok, s')"
  shows "vm_inv s' D L \<and> (\<forall>c\<in>D - {active_dir s}. unchanged s s' c) \<and>
     (\<forall>w\<ge>0x800000. bit (pte s (active_dir s) w) 0 \<longrightarrow>
        byte_at s' (active_dir s) w = byte_at s (active_dir s) w) \<and>
     (\<forall>w\<ge>0x800000. FRAME_OF w \<noteq> FRAME_OF v \<longrightarrow> pte s' (active_dir s) w = pte s (active_dir s) w) \<and>
     (if ok then bit err 1 \<and> bit (pte s (active_dir s) v) 9 \<and>
        bit (pte s' (active_dir s) v) 0 \<and> bit (pte s' (active_dir s) v) 1 \<and>
        \<not> bit (pte s' (active_dir s) v) 9 \<and>
        owners (pmm_st s') (FRAME_OF (pte s' (active_dir s) v)) = 1
      else s' = s \<and> (\<not> bit err 1 \<or> \<not> bit (pte s (active_dir s) v) 0 \<or>
        \<not> bit (pte s (active_dir s) v) 9 \<or> pmm_free_frames (pmm_st s) = 0))"
proof -
  let ?d = "active_dir s"
  have v: "user_addr v"
    using assms(3) by (simp add: user_addr_iff)
  have w: "bit err 1" if "ok"
    using that assms(4) by (auto simp: vmm_cow_handle_def flag_simps split: if_splits)
  from assms(1,2) v assms(4) show ?thesis
  proof (cases rule: vmm_cow_handle_cases)
    case refused
    then show ?thesis
      using assms(1) by (auto simp: unchanged_def same_view_def)
  next
    case (handled f)
    have "unchanged s s' c" if "c \<in> D - {?d}" for c
      using that scratch_other [OF assms(1,2)] by (intro modifies_unchanged [OF assms(1) _ handled(5)]) auto
    moreover have "byte_at s' ?d x = byte_at s ?d x" if x: "user_addr x" "bit (pte s ?d x) 0" for x
    proof (cases "FRAME_OF x = FRAME_OF v")
      case True
      then show ?thesis
        using handled(7) [OF x(1)] handled(8) [of x] same_page_pte [OF True]
          unshare_entry(1) [OF handled(6,2)] by (simp add: byte_at_def)
    next
      case False
      then show ?thesis
        using modifies_byte [OF handled(5)] handled(7) [OF x(1)] scratch_page [OF assms(1,2) x] by simp
    qed
    moreover have p: "pte s' ?d v = f OR unshare (pte s ?d v)"
      using handled(7) [OF v] by simp
    moreover note u = unshare_entry [OF handled(6,2)]
    moreover have "owners (pmm_st s') (FRAME_OF (pte s' ?d v)) = 1"
    proof -
      obtain t where "t \<in> tables s' ?d" "pte s' ?d v = get_entry s' t (TAB_INDEX v)"
        using v u(2) p by (metis pte_held)
      then have "FRAME_OF (pte s' ?d v) \<in> writable_frames s' ?d"
        using u(2,3) p unfolding writable_frames_def by (intro CollectI exI [of _ t] exI [of _ "TAB_INDEX v"]) simp
      then show ?thesis
        using vm_inv_exclusive [OF handled(4)] assms(2) by (auto simp: exclusive_def)
    qed
    ultimately show ?thesis
      using handled(1,3,4,7) w by (simp add: user_addr_iff)
  qed
qed

text \<open>
  C20.  A copy-on-write fault.  \<open>vmm_cow_handle\<close> acts only on a write to a present page tagged
  copy-on-write; otherwise, and when no frame is free, it changes nothing and declines.  When it
  acts, the faulting page becomes writable, loses the tag and has a frame of its own (one owner),
  every byte the process sees stays the same, its other pages keep their entries, and no other
  address space changes in any way.
\<close>

theorem vmm_cow_handle_correct:
  assumes "vm_inv s D L" "active_dir s \<in> D" "0x800000 \<le> v" "vmm_cow_handle v err s = (ok, s')"
  shows "vm_inv s' D L \<and> (\<forall>c\<in>D - {active_dir s}. unchanged s s' c) \<and>
     (\<forall>w\<ge>0x800000. bit (pte s (active_dir s) w) 0 \<longrightarrow>
        byte_at s' (active_dir s) w = byte_at s (active_dir s) w) \<and>
     (\<forall>w\<ge>0x800000. FRAME_OF w \<noteq> FRAME_OF v \<longrightarrow> pte s' (active_dir s) w = pte s (active_dir s) w) \<and>
     (if ok then bit err 1 \<and> bit (pte s (active_dir s) v) 9 \<and>
        bit (pte s' (active_dir s) v) 0 \<and> bit (pte s' (active_dir s) v) 1 \<and>
        \<not> bit (pte s' (active_dir s) v) 9 \<and>
        owners (pmm_st s') (FRAME_OF (pte s' (active_dir s) v)) = 1
      else s' = s \<and> (\<not> bit err 1 \<or> \<not> bit (pte s (active_dir s) v) 0 \<or>
        \<not> bit (pte s (active_dir s) v) 9 \<or> pmm_free_frames (pmm_st s) = 0))"
  by (rule vmm_cow_handle_ok [OF assms])

section \<open>Isolation\<close>

text \<open>
  The store a user program makes: the hardware translates the address through the process's
  tables and writes one byte, if the page is present and writable.
\<close>

definition user_store :: "u32 \<Rightarrow> u32 \<Rightarrow> u8 \<Rightarrow> vm \<Rightarrow> vm" where
  "user_store d v b s = s\<lparr>ram := (ram s)(FRAME_OF (pte s d v) OR (v AND 0xFFF) := b)\<rparr>"

lemma low_offset_inj:
  assumes "page_aligned f" "page_aligned g"
  shows "f OR (v AND 0xFFF) = g OR (w AND 0xFFF) \<longleftrightarrow> f = g \<and> v AND 0xFFF = w AND 0xFFF"
proof
  assume eq: "f OR (v AND 0xFFF) = g OR (w AND 0xFFF)"
  then have "f = g"
    using FRAME_OF_phys assms by metis
  then show "f = g \<and> v AND 0xFFF = w AND 0xFFF"
    using eq assms by (simp add: low_or_add)
qed simp

lemma user_store_ok:
  assumes "vm_inv s D L" "d \<in> D" "0x800000 \<le> v" "bit (pte s d v) 0" "bit (pte s d v) 1"
  shows "vm_inv (user_store d v b s) D L \<and> byte_at (user_store d v b s) d v = b \<and>
    (\<forall>c\<in>D - {d}. unchanged s (user_store d v b s) c) \<and>
    (\<forall>w\<ge>0x800000. w \<noteq> v \<longrightarrow> same_view s (user_store d v b s) d w)"
proof -
  let ?s = "user_store d v b s" and ?f = "FRAME_OF (pte s d v)"
  have v: "user_addr v"
    using assms(3) by (simp add: user_addr_iff)
  obtain t where t: "t \<in> tables s d" "pte s d v = get_entry s t (TAB_INDEX v)" "?f \<in># held s d"
    using v assms(4) by (rule pte_held)
  have "?f \<in> writable_frames s d"
    unfolding writable_frames_def using t(1,2) assms(4,5)
    by (intro CollectI exI [of _ t] exI [of _ "TAB_INDEX v"]) simp
  then have own: "owners (pmm_st s) ?f = 1"
    using vm_inv_exclusive [OF assms(1)] assms(2) by (auto simp: exclusive_def)
  note only = single_owner(2) [OF assms(1,2) t(3) own]
  have m: "modifies {?f} s ?s"
    by (auto simp: modifies_def user_store_def FRAME_OF_phys)
  have st: "?f \<notin> struct_frames s D"
    using only page_not_dir [OF vm_inv_once [OF assms(1,2)] t(1), of "TAB_INDEX v"]
      page_not_table [OF vm_inv_once [OF assms(1,2)] t(1), of "TAB_INDEX v"] t(2) assms(4)
      table_in_held held_self unfolding struct_frames_def by (metis UN_E Un_iff index_less(2))
  have "kernel_dir s \<noteq> ?f"
    using vm_inv_kernel(2) [OF assms(1)] vm_inv_pool(2) [OF assms(1,2) t(3)] by auto
  then have "vm_inv ?s D L"
    using st by (intro vm_inv_modifies [OF assms(1) m]) (auto simp: user_store_def)
  moreover have "unchanged s ?s c" if "c \<in> D - {d}" for c
    using that only by (intro modifies_unchanged [OF assms(1) _ m]) auto
  moreover have ptes: "pte ?s d w = pte s d w" if "user_addr w" for w
    using st assms(2) vm_inv_aligned(3) [OF assms(1,2)]
    by (intro pte_modifies [OF m _ _ _ that]) (auto simp: struct_frames_def)
  moreover have "byte_at ?s d v = b"
    using ptes [OF v] by (simp add: byte_at_def user_store_def)
  moreover have "byte_at ?s d w = byte_at s d w" if w: "user_addr w" "w \<noteq> v" "bit (pte s d w) 0" for w
  proof -
    have "FRAME_OF (pte s d w) OR (w AND 0xFFF) \<noteq> ?f OR (v AND 0xFFF)"
    proof
      assume "FRAME_OF (pte s d w) OR (w AND 0xFFF) = ?f OR (v AND 0xFFF)"
      then have f: "FRAME_OF (pte s d w) = ?f" "w AND 0xFFF = v AND 0xFFF"
        by (simp_all add: low_offset_inj)
      then have "DIR_INDEX w = DIR_INDEX v \<and> TAB_INDEX w = TAB_INDEX v"
        using ent_unique [OF vm_inv_once [OF assms(1,2)] user_addr_range [OF w(1)] _ _ user_addr_range [OF v],
            of "TAB_INDEX w" "TAB_INDEX v"] w(3) assms(4) by (simp add: pte_ent)
      then have "FRAME_OF w = FRAME_OF v"
        by (simp add: same_page_iff)
      then show False
        using f(2) w(2) FRAME_OF_split [of w] FRAME_OF_split [of v] by simp
    qed
    then show ?thesis
      using ptes [OF w(1)] by (simp add: byte_at_def user_store_def)
  qed
  ultimately show ?thesis
    by (simp add: same_view_def user_addr_iff)
qed


text \<open>
  Process isolation.  Whatever sequence of operations led to a state with the ledger
  invariant, a byte stored by one process through a writable page appears at that address and
  nowhere else: not at another address of the same process, not in another address space, and not
  in any directory or page table.
\<close>

theorem store_isolation:
  assumes "vm_inv s D L" "d \<in> D" "0x800000 \<le> v" "bit (pte s d v) 0" "bit (pte s d v) 1"
  shows "vm_inv (user_store d v b s) D L \<and> byte_at (user_store d v b s) d v = b \<and>
    (\<forall>c\<in>D - {d}. unchanged s (user_store d v b s) c) \<and>
    (\<forall>w\<ge>0x800000. w \<noteq> v \<longrightarrow> same_view s (user_store d v b s) d w)"
  by (rule user_store_ok [OF assms])

text \<open>A state with one address space \<open>fst first_space\<close> that has a writable page at 0x01000000.\<close>

definition first_page :: vm where
  "first_page = snd (vmm_map_alloc (fst first_space) 0x01000000 7 (snd first_space))"

lemma first_page_inv:
  "vm_inv first_page {fst first_space} {#}"
  "bit (pte first_page (fst first_space) 0x01000000) 0" "bit (pte first_page (fst first_space) 0x01000000) 1"
  "card (tables first_page (fst first_space)) \<le> 1"
  "1021 \<le> unat (pmm_free_frames (pmm_st first_page))"
  "\<forall>f\<in>pool (pmm_st first_page). owners (pmm_st first_page) f < 255"
proof -
  let ?d = "fst first_space" and ?s = "snd first_space"
  obtain ok where eq: "vmm_map_alloc ?d 0x01000000 7 ?s = (ok, first_page)"
    by (cases "vmm_map_alloc ?d 0x01000000 7 ?s") (simp add: first_page_def)
  have v: "user_addr 0x01000000"
    by (simp add: user_addr_iff)
  have absent: "\<not> bit (pte ?s ?d 0x01000000) 0"
    using pte_held [OF v, of ?s ?d] first_space_tables by blast
  have "vm_inv first_page {?d} {#} \<and> bit (pte first_page ?d 0x01000000) 0 \<and> bit (pte first_page ?d 0x01000000) 1 \<and>
    card (tables first_page ?d) \<le> 1 \<and> 1021 \<le> unat (pmm_free_frames (pmm_st first_page))"
    using first_space_inv(1) singletonI [of ?d] v eq
  proof (cases rule: vmm_map_alloc_cases)
    case (mapped p)
    then show ?thesis
      using absent first_space_inv(3) first_space_tables by (simp add: page_ms_def bit_or_iff)
  qed (use first_space_inv(3) in simp_all)
  then show inv: "vm_inv first_page {?d} {#}" "bit (pte first_page ?d 0x01000000) 0"
    "bit (pte first_page ?d 0x01000000) 1" "card (tables first_page ?d) \<le> 1"
    "1021 \<le> unat (pmm_free_frames (pmm_st first_page))"
    by blast+
  have "owners (pmm_st first_page) f \<le> 1" if "f \<in> pool (pmm_st first_page)" for f
    using vm_inv_ledger [OF inv(1) that] vm_inv_once [OF inv(1) singletonI, of f] by (simp add: all_held_def)
  then show "\<forall>f\<in>pool (pmm_st first_page). owners (pmm_st first_page) f < 255"
    by fastforce
qed

theorem store_isolation_witness:
  "vm_inv (user_store (fst first_space) 0x01000000 42 first_page) {fst first_space} {#} \<and>
   byte_at (user_store (fst first_space) 0x01000000 42 first_page) (fst first_space) 0x01000000 = 42"
  using store_isolation [OF first_page_inv(1) singletonI _ first_page_inv(2,3), of 42] by simp

lemma switch_simps [simp]:
  "get_entry (vmm_switch d s) = get_entry s" "ram (vmm_switch d s) = ram s"
  "pmm_st (vmm_switch d s) = pmm_st s" "kernel_dir (vmm_switch d s) = kernel_dir s"
  "pte (vmm_switch d s) = pte s" "byte_at (vmm_switch d s) = byte_at s"
proof -
  show g: "get_entry (vmm_switch d s) = get_entry s"
    by (simp add: vmm_switch_def)
  then show p: "pte (vmm_switch d s) = pte s"
    by (intro ext) (simp add: pte_def Let_def cong: if_cong)
  then show "byte_at (vmm_switch d s) = byte_at s"
    by (intro ext) (simp add: byte_at_def, simp add: vmm_switch_def)
qed (simp_all add: vmm_switch_def)

lemma switch_space [simp]:
  "held (vmm_switch d s) = held s" "tables (vmm_switch d s) = tables s"
  "exclusive (vmm_switch d s) = exclusive s" "all_held (vmm_switch d s) = all_held s"
proof -
  have "tab_ms (vmm_switch d s) = tab_ms s"
    by (rule ext) (simp add: tab_ms_def)
  then show h: "held (vmm_switch d s) = held s"
    by (intro ext) (simp add: held_def slot_ms_def Let_def cong: if_cong)
  show t: "tables (vmm_switch d s) = tables s"
    by (intro ext) (simp add: tables_def)
  show "exclusive (vmm_switch d s) = exclusive s"
    by (intro ext) (simp add: exclusive_def struct_frames_def writable_frames_def t)
  show "all_held (vmm_switch d s) = all_held s"
    by (intro ext) (simp add: all_held_def h)
qed

lemma vm_inv_switch [simp]: "vm_inv (vmm_switch d s) D L \<longleftrightarrow> vm_inv s D L"
  by (simp add: vm_inv_def)

lemma active_switch [simp]: "page_aligned d \<Longrightarrow> active_dir (vmm_switch d s) = d"
  by (simp add: active_dir_def vmm_switch_def FRAME_OF_aligned)

lemma same_view_switch [simp]: "same_view (vmm_switch d s) s' c v \<longleftrightarrow> same_view s s' c v"
  by (simp add: same_view_def)

lemma unchanged_switch [simp]: "unchanged (vmm_switch d s) s' c \<longleftrightarrow> unchanged s s' c"
  by (simp add: unchanged_def)

text \<open>
  C2.  Fork isolation.  After a copy-on-write clone, let either side, parent or child, write to a
  shared page: the write faults, the handler gives the writer its own frame, the store happens.
  The writer then sees its byte, and the other side still sees, at every address, exactly the
  bytes that were there at the moment of the clone, as does the writer everywhere else.
\<close>

theorem fork_isolation:
  assumes inv: "vm_inv s D L" "src \<in> D" "\<forall>f\<in>pool (pmm_st s). owners (pmm_st s) f < 255"
    and clone: "vmm_clone_cow src s = (child, s1)" "child \<noteq> 0"
    and sides: "(writer, other) \<in> {(src, child), (child, src)}" and v: "0x800000 \<le> v"
    and fault: "vmm_cow_handle v err (vmm_switch writer s1) = (True, s2)"
  shows "byte_at (user_store writer v b s2) writer v = b \<and>
    (\<forall>w\<ge>0x800000. bit (pte s src w) 0 \<longrightarrow>
       byte_at (user_store writer v b s2) other w = byte_at s src w \<and>
       (w \<noteq> v \<longrightarrow> byte_at (user_store writer v b s2) writer w = byte_at s src w))"
  using inv clone(1)
proof (cases rule: vmm_clone_cow_cases)
  case cloned
  let ?t = "vmm_switch writer s1"
  have s1: "bit (pte s1 c w) 0" "byte_at s1 c w = byte_at s src w"
    if "user_addr w" "bit (pte s src w) 0" "c \<in> {writer, other}" for c w
    using that cloned(5,6) [OF user_addr_range [OF that(1)]] sides
    by (auto simp: pte_ent intro!: clone_bytes [OF inv(1,2) cloned(4)])
  have wo: "writer \<in> insert child D" "other \<in> insert child D - {writer}"
    using sides inv(2) cloned(2) by auto
  have al: "page_aligned writer"
    using vm_inv_aligned(3) [OF cloned(3) wo(1)] .
  have act: "active_dir ?t \<in> insert child D" "vm_inv ?t (insert child D) L"
    using wo(1) al cloned(3) by simp_all
  note h = vmm_cow_handle_ok [OF act(2,1) v fault, unfolded active_switch [OF al]]
  have rw: "bit (pte s2 writer v) 0" "bit (pte s2 writer v) 1" "vm_inv s2 (insert child D) L"
    using h by simp_all
  note st = user_store_ok [OF rw(3) wo(1) v rw(1,2), of b]
  have "byte_at (user_store writer v b s2) other w = byte_at s src w"
    if w: "user_addr w" "bit (pte s src w) 0" for w
  proof -
    have "same_view s1 s2 other w" "same_view s2 (user_store writer v b s2) other w"
      using h st wo(2) w(1) by (auto simp: unchanged_def)
    then have "same_view s1 (user_store writer v b s2) other w"
      by (rule same_view_trans)
    then show ?thesis
      using s1 [OF w, of other] by (simp add: same_view_def)
  qed
  moreover have "byte_at (user_store writer v b s2) writer w = byte_at s src w"
    if w: "user_addr w" "bit (pte s src w) 0" "w \<noteq> v" for w
  proof -
    have b2: "byte_at s2 writer w = byte_at s1 writer w"
      using h s1(1) [OF w(1,2)] w(1) by (simp add: user_addr_iff)
    have "bit (pte s2 writer w) 0"
    proof (cases "FRAME_OF w = FRAME_OF v")
      case True
      then show ?thesis
        using rw(1) same_page_pte by metis
    next
      case False
      then show ?thesis
        using h s1(1) [OF w(1,2), of writer] w(1) by (simp add: user_addr_iff)
    qed
    then show ?thesis
      using st w s1(2) [OF w(1,2), of writer] b2 by (simp add: same_view_def user_addr_iff)
  qed
  ultimately show ?thesis
    using st by (simp add: user_addr_iff)
qed (use clone(2) in simp_all)

text \<open>The same space after a fork: \<open>fst forked\<close> is the child.\<close>

definition forked :: "u32 \<times> vm" where
  "forked = vmm_clone_cow (fst first_space) first_page"

lemma forked_inv:
  "fst forked \<noteq> 0" "vm_inv (snd forked) {fst forked, fst first_space} {#}"
  "pte (snd forked) (fst first_space) 0x01000000 = share (pte first_page (fst first_space) 0x01000000)"
  "pmm_free_frames (pmm_st (snd forked)) \<noteq> 0"
proof -
  let ?d = "fst first_space"
  have eq: "vmm_clone_cow ?d first_page = (fst forked, snd forked)"
    by (simp add: forked_def)
  have v: "user_addr 0x01000000"
    by (simp add: user_addr_iff)
  have "fst forked \<noteq> 0 \<and> vm_inv (snd forked) {fst forked, ?d} {#} \<and>
    pte (snd forked) ?d 0x01000000 = share (pte first_page ?d 0x01000000) \<and>
    pmm_free_frames (pmm_st (snd forked)) \<noteq> 0"
    using first_page_inv(1) singletonI [of ?d] first_page_inv(6) eq
  proof (cases rule: vmm_clone_cow_cases)
    case cloned
    then show ?thesis
      using cloned(5) [OF user_addr_range [OF v] index_less(2)] first_page_inv(4,5)
      by (auto simp: pte_ent)
  qed (use first_page_inv(4,5) in simp_all)
  then show "fst forked \<noteq> 0" "vm_inv (snd forked) {fst forked, ?d} {#}"
    "pte (snd forked) ?d 0x01000000 = share (pte first_page ?d 0x01000000)"
    "pmm_free_frames (pmm_st (snd forked)) \<noteq> 0"
    by blast+
qed

lemma forked_cow:
  "bit (pte (snd forked) (fst first_space) 0x01000000) 0" "bit (pte (snd forked) (fst first_space) 0x01000000) 9"
  "page_aligned (fst first_space)"
  using forked_inv(3) first_page_inv(2,3) vm_inv_aligned(3) [OF first_page_inv(1)] by (auto simp: bit_share)

text \<open>Witness: the parent writes to the page it shares with the child.\<close>

theorem vmm_cow_handle_correct_witness:
  "fst (vmm_cow_handle 0x01000000 2 (vmm_switch (fst first_space) (snd forked))) \<and>
   vm_inv (snd (vmm_cow_handle 0x01000000 2 (vmm_switch (fst first_space) (snd forked))))
     {fst forked, fst first_space} {#}"
proof -
  have inv: "vm_inv (vmm_switch (fst first_space) (snd forked)) {fst forked, fst first_space} {#}"
    using forked_inv(2) by simp
  have "bit (2 :: u32) 1"
    using bit_PF_RW by blast
  then show ?thesis
    using vmm_cow_handle_correct [OF inv _ _ prod.collapse [symmetric], of "0x01000000" 2]
      forked_inv(4) forked_cow by (auto split: if_splits)
qed

theorem fork_isolation_witness:
  "byte_at (user_store (fst first_space) 0x01000000 42
       (snd (vmm_cow_handle 0x01000000 2 (vmm_switch (fst first_space) (snd forked)))))
     (fst first_space) 0x01000000 = 42 \<and>
   byte_at (user_store (fst first_space) 0x01000000 42
       (snd (vmm_cow_handle 0x01000000 2 (vmm_switch (fst first_space) (snd forked)))))
     (fst forked) 0x01000000 = byte_at first_page (fst first_space) 0x01000000"
proof -
  let ?t = "vmm_switch (fst first_space) (snd forked)"
  have inv: "vm_inv ?t {fst forked, fst first_space} {#}" "active_dir ?t \<in> {fst forked, fst first_space}"
    using forked_inv(2) forked_cow(3) by simp_all
  have b: "bit (2 :: u32) 1"
    using bit_PF_RW by blast
  have "fst (vmm_cow_handle 0x01000000 2 ?t)"
    using vmm_cow_handle_ok [OF inv _ prod.collapse [symmetric], of "0x01000000" 2]
      forked_inv(4) forked_cow b by (auto split: if_splits)
  then have "vmm_cow_handle 0x01000000 2 ?t = (True, snd (vmm_cow_handle 0x01000000 2 ?t))"
    by (metis (full_types) prod.collapse)
  note handled = this
  have cloned: "vmm_clone_cow (fst first_space) first_page = (fst forked, snd forked)"
    by (simp add: forked_def)
  from fork_isolation [OF first_page_inv(1) singletonI first_page_inv(6) cloned
      forked_inv(1) _ _ handled, of "fst forked" 42]
  show ?thesis
    using first_page_inv(2) by simp
qed

end
