(* ===== verification/Demand.thy ===== *)
theory Demand
  imports Cow
begin

text \<open>
  Demand paging, \<open>kernel/demand.c\<close>: regions of address space that were promised without frames, and
  the part of the page-fault handler that backs a promised page on its first touch.
\<close>

record region =
  r_dir :: u32
  r_start :: u32
  r_end :: u32
  r_flags :: u32
  r_active :: bool

definition MAX_REGIONS :: nat where
  "MAX_REGIONS = 16"

record demand =
  regions :: "region list"
  faults_served :: u32

text \<open>The table as it is in the zeroed \<open>.bss\<close> section, before the first promise.\<close>

definition demand_boot :: demand where
  "demand_boot = \<lparr>regions = replicate MAX_REGIONS
     \<lparr>r_dir = 0, r_start = 0, r_end = 0, r_flags = 0, r_active = False\<rparr>, faults_served = 0\<rparr>"

text \<open>The loop of \<open>demand_region\<close>: the first inactive slot takes the promise, or none does.\<close>

fun add_region :: "region \<Rightarrow> region list \<Rightarrow> region list" where
  "add_region r [] = []"
| "add_region r (q # qs) = (if r_active q then q # add_region r qs else r # qs)"

definition demand_region :: "u32 \<Rightarrow> u32 \<Rightarrow> u32 \<Rightarrow> u32 \<Rightarrow> demand \<Rightarrow> demand" where
  "demand_region dir start stop flags d = d\<lparr>regions := add_region
     \<lparr>r_dir = dir, r_start = start AND NOT 0xFFF, r_end = (stop + 0xFFF) AND NOT 0xFFF,
      r_flags = flags, r_active = True\<rparr> (regions d)\<rparr>"

definition demand_clear :: "demand \<Rightarrow> demand" where
  "demand_clear d = \<lparr>regions = map (\<lambda>r. r\<lparr>r_active := False\<rparr>) (regions d), faults_served = 0\<rparr>"

definition demand_faults_served :: "demand \<Rightarrow> u32" where
  "demand_faults_served d = faults_served d"

text \<open>The guards of the loop of \<open>demand_handle\<close>, and the loop, which acts on the first match.\<close>

definition covers :: "u32 \<Rightarrow> u32 \<Rightarrow> region \<Rightarrow> bool" where
  "covers current addr r \<longleftrightarrow>
     r_active r \<and> r_dir r = current \<and> r_start r \<le> addr \<and> addr < r_end r"

fun serve :: "region list \<Rightarrow> u32 \<Rightarrow> u32 \<Rightarrow> demand \<Rightarrow> vm \<Rightarrow> bool \<times> demand \<times> vm" where
  "serve [] current addr d s = (False, d, s)"
| "serve (r # rs) current addr d s =
     (if \<not> covers current addr r then serve rs current addr d s
      else let (ok, s) = vmm_map_alloc (r_dir r) (addr AND NOT 0xFFF) (r_flags r) s
      in if \<not> ok then (False, d, s)
      else (True, d\<lparr>faults_served := faults_served d + 1\<rparr>, s))"

definition demand_handle :: "u32 \<Rightarrow> u32 \<Rightarrow> demand \<Rightarrow> vm \<Rightarrow> bool \<times> demand \<times> vm" where
  "demand_handle addr err_code d s =
     (if err_code AND 1 \<noteq> 0 then (False, d, s)
      else serve (regions d) (FRAME_OF (cr3 s)) addr d s)"

section \<open>Promises\<close>

text \<open>The flags promised for an address of a space: those of the first region that covers it.\<close>

definition promised :: "demand \<Rightarrow> u32 \<Rightarrow> u32 \<Rightarrow> u32 option" where
  "promised d c a = map_option r_flags (find (covers c a) (regions d))"

lemma and_not_page [simp]: "(x :: u32) AND - 4096 = FRAME_OF x"
  using mask_FRAME_OF [of x] by simp

lemma serve_eq:
  "serve rs c a d s = (case map_option r_flags (find (covers c a) rs) of None \<Rightarrow> (False, d, s)
     | Some fl \<Rightarrow> (case vmm_map_alloc c (FRAME_OF a) fl s of (ok, s') \<Rightarrow>
         (ok, if ok then d\<lparr>faults_served := faults_served d + 1\<rparr> else d, s')))"
proof (induction rs)
  case (Cons r rs)
  then show ?case
    by (cases "covers c a r") (auto simp: covers_def split: prod.splits)
qed simp

lemma demand_handle_eq:
  "demand_handle a err d s = (if bit err 0 then (False, d, s) else case promised d (active_dir s) a of
     None \<Rightarrow> (False, d, s)
   | Some fl \<Rightarrow> (case vmm_map_alloc (active_dir s) (FRAME_OF a) fl s of (ok, s') \<Rightarrow>
       (ok, if ok then d\<lparr>faults_served := faults_served d + 1\<rparr> else d, s')))"
  unfolding demand_handle_def serve_eq promised_def active_dir_def by (simp add: flag_simps)

lemma find_add_region_None:
  "\<forall>q\<in>set qs. \<not> P q \<Longrightarrow>
   find P (add_region r qs) = (if P r \<and> (\<exists>q\<in>set qs. \<not> r_active q) then Some r else None)"
  by (induction qs) (auto simp: find_None_iff)

lemma find_add_region_other:
  "\<not> P r \<Longrightarrow> \<forall>q. P q \<longrightarrow> r_active q \<Longrightarrow> find P (add_region r qs) = find P qs"
  by (induction qs) auto

lemma find_add_region_kept:
  "find P qs \<noteq> None \<Longrightarrow> \<forall>q. P q \<longrightarrow> r_active q \<Longrightarrow> find P (add_region r qs) \<noteq> None"
  by (induction qs) (auto split: if_splits)

lemma add_region_full: "\<forall>q\<in>set qs. r_active q \<Longrightarrow> add_region r qs = qs"
  by (induction qs) auto

lemma length_add_region [simp]: "length (add_region r qs) = length qs"
  by (induction qs) auto

lemma covers_new:
  "covers c' a \<lparr>r_dir = c, r_start = lo, r_end = hi, r_flags = fl, r_active = True\<rparr>
    \<longleftrightarrow> c' = c \<and> lo \<le> a \<and> a < hi"
  by (auto simp: covers_def)

lemma promised_other:
  assumes "\<not> (c' = c \<and> FRAME_OF start \<le> a \<and> a < FRAME_OF (stop + 0xFFF))"
  shows "promised (demand_region c start stop fl d) c' a = promised d c' a"
proof -
  have "\<forall>q. covers c' a q \<longrightarrow> r_active q"
    by (simp add: covers_def)
  with assms show ?thesis
    by (simp add: promised_def demand_region_def find_add_region_other covers_new)
qed

lemma promised_new:
  assumes "\<exists>q\<in>set (regions d). \<not> r_active q" "promised d c a = None"
    "FRAME_OF start \<le> a" "a < FRAME_OF (stop + 0xFFF)"
  shows "promised (demand_region c start stop fl d) c a = Some fl"
proof -
  have "\<forall>q\<in>set (regions d). \<not> covers c a q"
    using assms(2) by (auto simp: promised_def find_None_iff)
  then show ?thesis
    using assms by (simp add: promised_def demand_region_def find_add_region_None covers_new)
qed

lemma round_up_page:
  assumes "unat a \<le> 0xFFFFF000"
  shows "unat (FRAME_OF (a + 0xFFF)) = 4096 * ((unat a + 4095) div 4096)"
  using assms by (simp add: unat_FRAME_OF unat_add_u32)

lemma demand_boot_empty: "promised demand_boot c a = None" "\<exists>q\<in>set (regions demand_boot). \<not> r_active q"
  by (simp_all add: demand_boot_def promised_def MAX_REGIONS_def covers_def find_None_iff)

section \<open>Properties of demand paging\<close>

lemma demand_handle_ok:
  assumes inv: "vm_inv s D L" "active_dir s \<in> D" and a: "0x800000 \<le> a"
    and absent: "bit err 0 \<or> \<not> bit (pte s (active_dir s) a) 0"
    and h: "demand_handle a err d s = (ok, d', s')"
  shows "(\<forall>c\<in>D - {active_dir s}. unchanged s s' c) \<and>
    (\<forall>w. 0x800000 \<le> w \<and> (FRAME_OF w = FRAME_OF a \<longrightarrow> \<not> ok) \<longrightarrow> same_view s s' (active_dir s) w) \<and>
    (bit err 0 \<or> promised d (active_dir s) a = None \<longrightarrow> \<not> ok \<and> d' = d \<and> s' = s) \<and>
    (\<not> bit err 0 \<and> promised d (active_dir s) a \<noteq> None \<and> 2 \<le> unat (pmm_free_frames (pmm_st s)) \<longrightarrow> ok) \<and>
    (ok \<longrightarrow> vm_inv s' D L \<and> d' = d\<lparr>faults_served := faults_served d + 1\<rparr> \<and>
       (\<exists>fl p. promised d (active_dir s) a = Some fl \<and> p \<in> pool (pmm_st s) \<and> owners (pmm_st s) p = 0 \<and>
          pte s' (active_dir s) a = p OR (fl AND 0xFFF) OR PF_PRESENT \<and>
          (\<forall>w. FRAME_OF w = FRAME_OF a \<longrightarrow> byte_at s' (active_dir s) w = 0))) \<and>
    (\<not> ok \<longrightarrow> d' = d)"
proof (cases "bit err 0 \<or> promised d (active_dir s) a = None")
  case True
  then have "\<not> ok \<and> d' = d \<and> s' = s"
    using h by (auto simp: demand_handle_eq split: if_splits)
  then show ?thesis
    using True by (auto simp: same_view_def)
next
  case False
  then obtain fl where fl: "\<not> bit err 0" "promised d (active_dir s) a = Some fl"
    by auto
  then have m: "vmm_map_alloc (active_dir s) (FRAME_OF a) fl s = (ok, s')"
    and d': "d' = (if ok then d\<lparr>faults_served := faults_served d + 1\<rparr> else d)"
    using h by (auto simp: demand_handle_eq split: prod.splits)
  have v: "0x800000 \<le> FRAME_OF a"
    using a same_page_iff [of "FRAME_OF a" a] unfolding user_addr_iff [symmetric] user_addr_def by simp
  have same: "pte t c (FRAME_OF a) = pte t c a" for t c
    by (simp add: same_page_pte [of "FRAME_OF a" a])
  have "page_ms (pte s (active_dir s) a) = {#}"
    using absent fl(1) by (simp add: page_ms_def)
  then have ok: "(\<forall>c\<in>D - {active_dir s}. unchanged s s' c) \<and>
     (\<forall>w. 0x800000 \<le> w \<and> (FRAME_OF w = FRAME_OF a \<longrightarrow> \<not> ok) \<longrightarrow> same_view s s' (active_dir s) w) \<and>
     (2 \<le> unat (pmm_free_frames (pmm_st s)) \<longrightarrow> ok) \<and>
     (ok \<longrightarrow> vm_inv s' D L \<and>
        (\<exists>p \<in> pool (pmm_st s). owners (pmm_st s) p = 0 \<and>
           pte s' (active_dir s) a = p OR (fl AND 0xFFF) OR PF_PRESENT \<and>
           (\<forall>w. FRAME_OF w = FRAME_OF a \<longrightarrow> byte_at s' (active_dir s) w = 0)))"
    using vmm_map_alloc_ok [OF inv v m] unfolding same FRAME_OF_idem by simp blast
  show ?thesis
    using ok fl d' by simp blast
qed

text \<open>
  C21.  A page fault is served by demand paging exactly when it is not a protection violation and
  the address was promised in the running address space (and memory suffices).  A served fault maps
  a zeroed frame nobody owned at the page with the promised flags and counts one fault; every other
  page of every space keeps its contents, and the ledger stays exact.  A fault that was not promised
  changes nothing.
\<close>

theorem demand_handle_correct:
  assumes inv: "vm_inv s D L" "active_dir s \<in> D" and a: "0x800000 \<le> a"
    and absent: "bit err 0 \<or> \<not> bit (pte s (active_dir s) a) 0"
    and h: "demand_handle a err d s = (ok, d', s')"
  shows "(\<forall>c\<in>D - {active_dir s}. unchanged s s' c) \<and>
    (\<forall>w. 0x800000 \<le> w \<and> (FRAME_OF w = FRAME_OF a \<longrightarrow> \<not> ok) \<longrightarrow> same_view s s' (active_dir s) w) \<and>
    (bit err 0 \<or> promised d (active_dir s) a = None \<longrightarrow> \<not> ok \<and> d' = d \<and> s' = s) \<and>
    (\<not> bit err 0 \<and> promised d (active_dir s) a \<noteq> None \<and> 2 \<le> unat (pmm_free_frames (pmm_st s)) \<longrightarrow> ok) \<and>
    (ok \<longrightarrow> vm_inv s' D L \<and> d' = d\<lparr>faults_served := faults_served d + 1\<rparr> \<and>
       (\<exists>fl p. promised d (active_dir s) a = Some fl \<and> p \<in> pool (pmm_st s) \<and> owners (pmm_st s) p = 0 \<and>
          pte s' (active_dir s) a = p OR (fl AND 0xFFF) OR PF_PRESENT \<and>
          (\<forall>w. FRAME_OF w = FRAME_OF a \<longrightarrow> byte_at s' (active_dir s) w = 0))) \<and>
    (\<not> ok \<longrightarrow> d' = d)"
  by (rule demand_handle_ok [OF assms])

text \<open>
  A promise made with \<open>demand_region\<close> covers exactly the whole pages that its range touches,
  in its own address space; addresses promised earlier stay promised, and no other address becomes
  valid.  When every slot of the table is taken the promise is dropped without notice.
\<close>

theorem demand_region_correct:
  assumes "unat stop \<le> 0xFFFFF000"
  shows "((\<forall>q\<in>set (regions d). r_active q) \<longrightarrow> demand_region c start stop fl d = d) \<and>
    ((\<exists>q\<in>set (regions d). \<not> r_active q) \<and> promised d c a = None \<longrightarrow>
      promised (demand_region c start stop fl d) c a =
        (if 4096 * (unat start div 4096) \<le> unat a \<and> unat a < 4096 * ((unat stop + 4095) div 4096)
         then Some fl else None)) \<and>
    (c' \<noteq> c \<longrightarrow> promised (demand_region c start stop fl d) c' a = promised d c' a) \<and>
    (promised d c' a \<noteq> None \<longrightarrow> promised (demand_region c start stop fl d) c' a \<noteq> None)"
proof -
  have act: "\<forall>q. covers x y q \<longrightarrow> r_active q" for x y
    by (simp add: covers_def)
  have le: "FRAME_OF start \<le> a \<longleftrightarrow> 4096 * (unat start div 4096) \<le> unat a"
    "a < FRAME_OF (stop + 0xFFF) \<longleftrightarrow> unat a < 4096 * ((unat stop + 4095) div 4096)"
    using round_up_page [OF assms] by (simp_all add: word_le_nat_alt word_less_nat_alt unat_FRAME_OF)
  have "promised (demand_region c start stop fl d) c' a \<noteq> None" if "promised d c' a \<noteq> None"
    using that find_add_region_kept [OF _ act, of c' a "regions d"]
    by (simp add: promised_def demand_region_def)
  moreover have "promised (demand_region c start stop fl d) c' a = promised d c' a" if "c' \<noteq> c"
    using that by (simp add: promised_other)
  moreover have "demand_region c start stop fl d = d" if "\<forall>q\<in>set (regions d). r_active q"
    using that by (simp add: demand_region_def add_region_full)
  ultimately show ?thesis
    using promised_new [of d c a start stop fl] promised_other [of c c start a stop fl d] by (auto simp: le)
qed


theorem demand_region_correct_witness:
  "promised (demand_region 0x400000 0x01000000 0x01400000 3 demand_boot) 0x400000 0x01000ABC = Some 3 \<and>
   promised (demand_region 0x400000 0x01000000 0x01400000 3 demand_boot) 0x401000 0x01000ABC = None"
  using demand_region_correct [of "0x01400000" demand_boot "0x400000" "0x01000000" 3 "0x01000ABC" "0x401000"]
    demand_boot_empty by simp

text \<open>The first page of a promised region in the first address space of the booted kernel.\<close>

definition running_space :: vm where
  "running_space = vmm_switch (fst first_space) (snd first_space)"

definition first_promise :: demand where
  "first_promise = demand_region (fst first_space) 0x01000000 0x01400000 3 demand_boot"

lemma running_space_inv:
  "active_dir running_space = fst first_space" "vm_inv running_space {fst first_space} {#}"
  "pte running_space (fst first_space) 0x01000ABC = 0" "2 \<le> unat (pmm_free_frames (pmm_st running_space))"
proof -
  show act: "active_dir running_space = fst first_space"
    using vm_inv_aligned(3) [OF first_space_inv(1)] by (simp add: running_space_def)
  show "vm_inv running_space {fst first_space} {#}"
    using first_space_inv(1) by (simp_all add: running_space_def)
  have "\<not> bit (get_entry (snd first_space) (fst first_space) (DIR_INDEX 0x01000ABC)) 0"
    using first_space_tables user_addr_range [of "0x01000ABC"] unfolding tables_def by (auto simp: user_addr_iff)
  then have "pte (snd first_space) (fst first_space) 0x01000ABC = 0"
    by (simp add: pte_def)
  then show "pte running_space (fst first_space) 0x01000ABC = 0"
    by (simp add: running_space_def)
  show "2 \<le> unat (pmm_free_frames (pmm_st running_space))"
    using first_space_inv(3) by (simp add: running_space_def vmm_switch_def)
qed

lemma first_promise_promised: "promised first_promise (fst first_space) 0x01000ABC = Some 3"
  unfolding first_promise_def by (rule promised_new) (use demand_boot_empty in \<open>simp_all add: FRAME_OF_def\<close>)

theorem demand_handle_correct_witness:
  "case demand_handle 0x01000ABC 2 first_promise running_space of (ok, d', s') \<Rightarrow>
     ok \<and> faults_served d' = 1 \<and> byte_at s' (fst first_space) 0x01000FFF = 0"
proof -
  obtain ok d' s' where h: "demand_handle 0x01000ABC 2 first_promise running_space = (ok, d', s')"
    by (cases "demand_handle 0x01000ABC 2 first_promise running_space")
  have inv: "vm_inv running_space {fst first_space} {#}" "active_dir running_space \<in> {fst first_space}"
    using running_space_inv(1,2) by simp_all
  have absent: "bit (2 :: u32) 0 \<or> \<not> bit (pte running_space (active_dir running_space) 0x01000ABC) 0"
    using running_space_inv(1,3) by simp
  have ok
    using demand_handle_correct [OF inv _ absent h] running_space_inv(1,4) first_promise_promised by simp
  then have "d' = first_promise\<lparr>faults_served := faults_served first_promise + 1\<rparr>" "byte_at s' (fst first_space) 0x01000FFF = 0"
    using demand_handle_correct [OF inv _ absent h] running_space_inv(1) by (auto simp: FRAME_OF_def)
  then show ?thesis
    unfolding h using \<open>ok\<close> by (simp add: first_promise_def demand_region_def demand_boot_def)
qed

end
