(* ===== verification/Proc.thy ===== *)
theory Proc
  imports Demand Kstring
begin

text \<open>
  The process table, \<open>kernel/proc.c\<close>: sixteen slots, slot 0 the kernel itself.  A \<open>proc_t *\<close> is the
  index of its slot.  The operations act on the table and on the machine's memory: a process owns the
  address space in its \<open>dir\<close> field unless that is the kernel's.  Process ids are C \<open>int\<close>s: integers
  from which \<open>wrap_int\<close> keeps 32 bits where \<open>next_pid\<close> counts up.
\<close>

datatype proc_state = PROC_UNUSED | PROC_READY | PROC_RUNNING | PROC_ZOMBIE

record proc =
  p_pid :: int
  p_ppid :: int
  p_state :: proc_state
  p_dir :: u32
  p_entry :: u32
  p_brk :: u32
  p_exit_code :: int
  p_name :: "u8 list"

record procs =
  table :: "proc list"
  next_pid :: int
  current_idx :: nat

definition MAX_PROCS :: nat where
  "MAX_PROCS = 16"

definition PROC_NAME :: u32 where
  "PROC_NAME = 16"

definition USER_HEAP_BASE :: u32 where
  "USER_HEAP_BASE = 0x00090000"

text \<open>A slot cleared by \<open>memset\<close>, and the static variables before \<open>proc_install\<close>.\<close>

definition zero_proc :: proc where
  "zero_proc = \<lparr>p_pid = 0, p_ppid = 0, p_state = PROC_UNUSED, p_dir = 0, p_entry = 0, p_brk = 0,
     p_exit_code = 0, p_name = replicate (unat PROC_NAME) 0\<rparr>"

definition procs_boot :: procs where
  "procs_boot = \<lparr>table = replicate MAX_PROCS zero_proc, next_pid = 1, current_idx = 0\<rparr>"

definition slot_of :: "procs \<Rightarrow> nat \<Rightarrow> proc" where
  "slot_of ps i = table ps ! i"

definition set_slot :: "nat \<Rightarrow> proc \<Rightarrow> procs \<Rightarrow> procs" where
  "set_slot i p ps = ps\<lparr>table := (table ps)[i := p]\<rparr>"

definition proc_install :: "vm \<Rightarrow> procs \<Rightarrow> procs" where
  "proc_install s ps = ps\<lparr>table := (replicate MAX_PROCS zero_proc)[0 := zero_proc\<lparr>
       p_pid := 0, p_ppid := 0, p_state := PROC_RUNNING, p_dir := kernel_dir s, p_entry := 0, p_brk := 0,
       p_name := strncpy_z (p_name zero_proc) (bytes_of (str ''kernel'')) PROC_NAME\<rparr>],
     current_idx := 0\<rparr>"

definition proc_current :: "procs \<Rightarrow> proc" where
  "proc_current ps = slot_of ps (current_idx ps)"

definition proc_get :: "int \<Rightarrow> procs \<Rightarrow> nat option" where
  "proc_get pid ps =
     find (\<lambda>i. p_state (slot_of ps i) \<noteq> PROC_UNUSED \<and> p_pid (slot_of ps i) = pid) [0..<MAX_PROCS]"

text \<open>The increment of an \<open>int\<close> on the machine.\<close>

definition wrap_int :: "int \<Rightarrow> int" where
  "wrap_int n = (n + 0x80000000) mod 0x100000000 - 0x80000000"

definition proc_alloc :: "bytes option \<Rightarrow> procs \<Rightarrow> nat option \<times> procs" where
  "proc_alloc name ps =
     (case find (\<lambda>i. p_state (slot_of ps i) = PROC_UNUSED) [1..<MAX_PROCS] of
        None \<Rightarrow> (None, ps)
      | Some i \<Rightarrow> (Some i, (set_slot i (zero_proc\<lparr>p_pid := next_pid ps, p_ppid := p_pid (proc_current ps),
          p_state := PROC_READY,
          p_name := strncpy_z (p_name zero_proc)
            (case name of None \<Rightarrow> bytes_of (str ''proc'') | Some n \<Rightarrow> n) PROC_NAME\<rparr>) ps)
          \<lparr>next_pid := wrap_int (next_pid ps + 1)\<rparr>))"

definition proc_free :: "nat option \<Rightarrow> procs \<Rightarrow> vm \<Rightarrow> procs \<times> vm" where
  "proc_free p ps s =
     (case p of None \<Rightarrow> (ps, s)
      | Some i \<Rightarrow> if p_pid (slot_of ps i) = 0 then (ps, s)
          else let d = p_dir (slot_of ps i);
                   s = (if d \<noteq> 0 \<and> d \<noteq> kernel_dir s then vmm_destroy_dir d s else s)
          in (set_slot i (zero_proc\<lparr>p_state := PROC_UNUSED\<rparr>) ps, s))"

definition proc_count :: "procs \<Rightarrow> nat" where
  "proc_count ps =
     fold (\<lambda>i n. if p_state (slot_of ps i) \<noteq> PROC_UNUSED then n + 1 else n) [0..<MAX_PROCS] 0"

fun proc_state_name :: "proc_state \<Rightarrow> string" where
  "proc_state_name PROC_READY = ''ready''"
| "proc_state_name PROC_RUNNING = ''running''"
| "proc_state_name PROC_ZOMBIE = ''zombie''"
| "proc_state_name PROC_UNUSED = ''unused''"

text \<open>The calls return -1 where the source does; the parent of a fork is always the current process.\<close>

definition proc_fork :: "procs \<Rightarrow> vm \<Rightarrow> int \<times> procs \<times> vm" where
  "proc_fork ps s =
     (let parent = current_idx ps
      in case proc_alloc (Some (bytes_of (p_name (slot_of ps parent)))) ps of
        (None, ps) \<Rightarrow> (-1, ps, s)
      | (Some c, ps) \<Rightarrow>
          let (d, s) = vmm_clone_cow (p_dir (slot_of ps parent)) s;
              ps = set_slot c ((slot_of ps c)\<lparr>p_dir := d\<rparr>) ps
          in if d = 0 then (-1, set_slot c ((slot_of ps c)\<lparr>p_state := PROC_UNUSED\<rparr>) ps, s)
          else let s = vmm_switch (p_dir (slot_of ps parent)) s;
                   ps = set_slot c ((slot_of ps c)\<lparr>p_ppid := p_pid (slot_of ps parent),
                     p_entry := p_entry (slot_of ps parent), p_brk := p_brk (slot_of ps parent),
                     p_state := PROC_READY\<rparr>) ps
          in (p_pid (slot_of ps c), ps, s))"

text \<open>One turn of the loop of \<open>proc_exit\<close> that gives the children of slot \<open>p\<close> to the kernel.\<close>

definition reparent :: "nat \<Rightarrow> nat \<Rightarrow> procs \<Rightarrow> procs" where
  "reparent p i ps =
     (if p_state (slot_of ps i) \<noteq> PROC_UNUSED \<and> p_ppid (slot_of ps i) = p_pid (slot_of ps p)
      then set_slot i ((slot_of ps i)\<lparr>p_ppid := 0\<rparr>) ps else ps)"

definition proc_exit :: "int \<Rightarrow> procs \<Rightarrow> vm \<Rightarrow> procs \<times> vm" where
  "proc_exit code ps s =
     (let p = current_idx ps
      in if p_pid (slot_of ps p) = 0 then (ps, s)
      else let ps = set_slot p ((slot_of ps p)\<lparr>p_exit_code := code, p_state := PROC_ZOMBIE\<rparr>) ps;
               s = vmm_switch (kernel_dir s) s;
               ps = ps\<lparr>current_idx := 0\<rparr>;
               ps = set_slot 0 ((slot_of ps 0)\<lparr>p_state := PROC_RUNNING\<rparr>) ps;
               d = p_dir (slot_of ps p);
               (ps, s) = (if d \<noteq> 0 \<and> d \<noteq> kernel_dir s
                          then (set_slot p ((slot_of ps p)\<lparr>p_dir := 0\<rparr>) ps, vmm_destroy_dir d s)
                          else (ps, s))
      in (fold (reparent p) [1..<MAX_PROCS] ps, s))"

text \<open>The result of \<open>proc_wait\<close> is the pid and what it stores through a non-null \<open>status\<close>.\<close>

definition proc_wait :: "procs \<Rightarrow> vm \<Rightarrow> (int \<times> int option) \<times> procs \<times> vm" where
  "proc_wait ps s =
     (let me = p_pid (proc_current ps)
      in case find (\<lambda>i. \<not> (p_state (slot_of ps i) \<noteq> PROC_ZOMBIE \<or> p_ppid (slot_of ps i) \<noteq> me)) [1..<MAX_PROCS] of
        None \<Rightarrow> ((-1, None), ps, s)
      | Some i \<Rightarrow> ((p_pid (slot_of ps i), Some (p_exit_code (slot_of ps i))), proc_free (Some i) ps s))"

definition proc_switch_to :: "int \<Rightarrow> procs \<Rightarrow> vm \<Rightarrow> int \<times> procs \<times> vm" where
  "proc_switch_to pid ps s =
     (case proc_get pid ps of None \<Rightarrow> (-1, ps, s)
      | Some i \<Rightarrow> if p_state (slot_of ps i) = PROC_ZOMBIE \<or> p_dir (slot_of ps i) = 0 then (-1, ps, s)
          else let old = current_idx ps;
                   ps = (if p_state (slot_of ps old) = PROC_RUNNING
                         then set_slot old ((slot_of ps old)\<lparr>p_state := PROC_READY\<rparr>) ps else ps);
                   ps = ps\<lparr>current_idx := i\<rparr>;
                   ps = set_slot i ((slot_of ps i)\<lparr>p_state := PROC_RUNNING\<rparr>) ps
          in (0, ps, vmm_switch (p_dir (slot_of ps i)) s))"

definition proc_begin_user :: "bytes option \<Rightarrow> procs \<Rightarrow> vm \<Rightarrow> int \<times> procs \<times> vm" where
  "proc_begin_user name ps s =
     (case proc_alloc name ps of (None, ps) \<Rightarrow> (-1, ps, s)
      | (Some i, ps) \<Rightarrow>
          let ps = set_slot i ((slot_of ps i)\<lparr>p_dir := kernel_dir s, p_brk := USER_HEAP_BASE\<rparr>) ps;
              (_, ps, s) = proc_switch_to (p_pid (slot_of ps i)) ps s
          in (p_pid (slot_of ps i), ps, s))"

definition proc_end_user :: "int \<Rightarrow> procs \<Rightarrow> vm \<Rightarrow> procs \<times> vm" where
  "proc_end_user pid ps s =
     (let (_, ps, s) = proc_switch_to 0 ps s
      in case proc_get pid ps of None \<Rightarrow> (ps, s) | Some i \<Rightarrow> proc_free (Some i) ps s)"

text \<open>How the \<open>fork\<close> and \<open>cow\<close> commands of the shell start a process: a slot and a fresh address space.\<close>

definition proc_spawn :: "bytes \<Rightarrow> procs \<Rightarrow> vm \<Rightarrow> nat option \<times> procs \<times> vm" where
  "proc_spawn name ps s =
     (case proc_alloc (Some name) ps of (None, ps) \<Rightarrow> (None, ps, s)
      | (Some i, ps) \<Rightarrow> let (d, s) = vmm_create_dir s
          in (Some i, set_slot i ((slot_of ps i)\<lparr>p_dir := d\<rparr>) ps, s))"

section \<open>The table invariant\<close>

text \<open>
  \<open>owns k p\<close>: slot \<open>p\<close> holds an address space of its own, other than the kernel's directory \<open>k\<close>;
  \<open>spaces\<close> are the address spaces the table owns.
\<close>

definition used :: "proc \<Rightarrow> bool" where
  "used p \<longleftrightarrow> p_state p \<noteq> PROC_UNUSED"

definition owns :: "u32 \<Rightarrow> proc \<Rightarrow> bool" where
  "owns k p \<longleftrightarrow> used p \<and> p_dir p \<noteq> 0 \<and> p_dir p \<noteq> k"

definition spaces :: "u32 \<Rightarrow> procs \<Rightarrow> u32 set" where
  "spaces k ps = {p_dir (slot_of ps i) | i. i < MAX_PROCS \<and> owns k (slot_of ps i)}"

definition one_running :: "procs \<Rightarrow> bool" where
  "one_running ps \<longleftrightarrow> current_idx ps < MAX_PROCS \<and>
     (\<forall>i<MAX_PROCS. p_state (slot_of ps i) = PROC_RUNNING \<longleftrightarrow> i = current_idx ps)"

definition pids_ok :: "procs \<Rightarrow> bool" where
  "pids_ok ps \<longleftrightarrow> 0 < next_pid ps \<and> p_pid (slot_of ps 0) = 0 \<and>
     (\<forall>i<MAX_PROCS. used (slot_of ps i) \<and> i \<noteq> 0 \<longrightarrow> 0 < p_pid (slot_of ps i)) \<and>
     (\<forall>i<MAX_PROCS. used (slot_of ps i) \<longrightarrow> p_pid (slot_of ps i) < next_pid ps) \<and>
     (\<forall>i<MAX_PROCS. \<forall>j<MAX_PROCS. used (slot_of ps i) \<and> used (slot_of ps j) \<and>
        p_pid (slot_of ps i) = p_pid (slot_of ps j) \<longrightarrow> i = j)"

definition dirs_ok :: "u32 \<Rightarrow> procs \<Rightarrow> bool" where
  "dirs_ok k ps \<longleftrightarrow> k \<noteq> 0 \<and> p_dir (slot_of ps 0) = k \<and> p_dir (slot_of ps (current_idx ps)) \<noteq> 0 \<and>
     (\<forall>i<MAX_PROCS. \<forall>j<MAX_PROCS. owns k (slot_of ps i) \<and> owns k (slot_of ps j) \<and>
        p_dir (slot_of ps i) = p_dir (slot_of ps j) \<longrightarrow> i = j)"

definition zombies_ok :: "u32 \<Rightarrow> procs \<Rightarrow> bool" where
  "zombies_ok k ps \<longleftrightarrow> (\<forall>i<MAX_PROCS. p_state (slot_of ps i) = PROC_ZOMBIE \<longrightarrow> \<not> owns k (slot_of ps i))"

definition tab_inv :: "u32 \<Rightarrow> procs \<Rightarrow> bool" where
  "tab_inv k ps \<longleftrightarrow> length (table ps) = MAX_PROCS \<and> used (slot_of ps 0) \<and> p_state (slot_of ps 0) \<noteq> PROC_ZOMBIE \<and>
     one_running ps \<and> pids_ok ps \<and> dirs_ok k ps \<and> zombies_ok k ps"

text \<open>No page of the kernel's directory is mapped above the shared 8 MB.\<close>

definition bare :: "vm \<Rightarrow> bool" where
  "bare s \<longleftrightarrow> (\<forall>i\<in>{2..<1024}. \<not> bit (get_entry s (kernel_dir s) i) 0)"

text \<open>
  \<open>L\<close> are the references to frames that were lost, with which no address space and no slot is left.  With sixteen
  slots and at most 238 of them for a frame the 8-bit owner counts stay below 255, where they saturate.
\<close>

definition proc_inv :: "procs \<Rightarrow> vm \<Rightarrow> u32 multiset \<Rightarrow> bool" where
  "proc_inv ps s L \<longleftrightarrow> tab_inv (kernel_dir s) ps \<and> cr3 s = p_dir (proc_current ps) \<and> bare s \<and>
     vm_inv s (spaces (kernel_dir s) ps) L \<and> (\<forall>f. count L f \<le> 238)"

lemma slot_of_set_slot [simp]:
  "slot_of (set_slot i p ps) j = (if i = j \<and> i < length (table ps) then p else slot_of ps j)"
  by (cases "i = j"; cases "i < length (table ps)") (simp_all add: slot_of_def set_slot_def list_update_beyond)

lemma set_slot_fields [simp]:
  "length (table (set_slot i p ps)) = length (table ps)" "next_pid (set_slot i p ps) = next_pid ps"
  "current_idx (set_slot i p ps) = current_idx ps"
  by (simp_all add: set_slot_def)

lemma slot_of_update [simp]:
  "slot_of (ps\<lparr>current_idx := c\<rparr>) i = slot_of ps i" "slot_of (ps\<lparr>next_pid := n\<rparr>) i = slot_of ps i"
  by (simp_all add: slot_of_def)

lemma spaces_cong:
  "\<forall>i<MAX_PROCS. owns k (slot_of ps' i) = owns k (slot_of ps i) \<and>
     (owns k (slot_of ps i) \<longrightarrow> p_dir (slot_of ps' i) = p_dir (slot_of ps i)) \<Longrightarrow>
   spaces k ps' = spaces k ps"
  unfolding spaces_def by (rule Collect_cong) metis

lemma spaces_update [simp]:
  "spaces k (ps\<lparr>current_idx := c\<rparr>) = spaces k ps" "spaces k (ps\<lparr>next_pid := n\<rparr>) = spaces k ps"
  by (simp_all add: spaces_def)

lemma spaces_insert:
  assumes "\<not> owns k (slot_of ps i)" "i < MAX_PROCS" "length (table ps) = MAX_PROCS" "owns k p"
  shows "spaces k (set_slot i p ps) = insert (p_dir p) (spaces k ps)"
  using assms by (auto simp: spaces_def)

lemma spaces_remove:
  assumes "tab_inv k ps" "owns k (slot_of ps i)" "i < MAX_PROCS" "\<not> owns k p"
  shows "spaces k (set_slot i p ps) = spaces k ps - {p_dir (slot_of ps i)}"
  using assms by (auto simp: spaces_def tab_inv_def dirs_ok_def)

lemma spaces_keep:
  assumes "owns k p = owns k (slot_of ps i)" "owns k p \<longrightarrow> p_dir p = p_dir (slot_of ps i)"
    "length (table ps) = MAX_PROCS"
  shows "spaces k (set_slot i p ps) = spaces k ps"
  using assms by (intro spaces_cong) auto

lemma in_spaces: "i < MAX_PROCS \<Longrightarrow> owns k (slot_of ps i) \<Longrightarrow> p_dir (slot_of ps i) \<in> spaces k ps"
  by (auto simp: spaces_def)

lemma tab_invD:
  assumes "tab_inv k ps"
  shows "length (table ps) = MAX_PROCS" "used (slot_of ps 0)" "p_state (slot_of ps 0) \<noteq> PROC_ZOMBIE"
    "one_running ps" "pids_ok ps" "dirs_ok k ps"
    "current_idx ps < MAX_PROCS" "p_state (slot_of ps (current_idx ps)) = PROC_RUNNING"
    "p_pid (slot_of ps 0) = 0" "p_dir (slot_of ps 0) = k" "k \<noteq> 0" "p_dir (slot_of ps (current_idx ps)) \<noteq> 0"
    "zombies_ok k ps"
  using assms by (simp_all add: tab_inv_def one_running_def pids_ok_def dirs_ok_def)

lemma proc_invD:
  assumes "proc_inv ps s L"
  shows "tab_inv (kernel_dir s) ps" "cr3 s = p_dir (proc_current ps)" "bare s"
    "vm_inv s (spaces (kernel_dir s) ps) L" "\<forall>f. count L f \<le> 238"
  using assms by (simp_all add: proc_inv_def)

section \<open>What the operations keep\<close>

lemma tab_inv_set_slot:
  assumes inv: "tab_inv k ps" and i: "i < MAX_PROCS"
    and zero: "i = 0 \<Longrightarrow> p_pid p = 0 \<and> p_dir p = k \<and> used p \<and> p_state p \<noteq> PROC_ZOMBIE"
    and run: "p_state p = PROC_RUNNING \<longleftrightarrow> i = current_idx ps" "i = current_idx ps \<Longrightarrow> p_dir p \<noteq> 0"
    and pid: "used p \<Longrightarrow> (i \<noteq> 0 \<longrightarrow> 0 < p_pid p) \<and> p_pid p < next_pid ps"
    and pids: "used p \<Longrightarrow> \<forall>j<MAX_PROCS. j \<noteq> i \<and> used (slot_of ps j) \<longrightarrow> p_pid (slot_of ps j) \<noteq> p_pid p"
    and dirs: "owns k p \<Longrightarrow> \<forall>j<MAX_PROCS. j \<noteq> i \<and> owns k (slot_of ps j) \<longrightarrow> p_dir (slot_of ps j) \<noteq> p_dir p"
    and zombie: "p_state p = PROC_ZOMBIE \<Longrightarrow> \<not> owns k p"
  shows "tab_inv k (set_slot i p ps)"
proof -
  note inv' = tab_invD [OF inv]
  have "one_running (set_slot i p ps)"
    using inv'(1,4) i run by (simp add: one_running_def)
  moreover have "pids_ok (set_slot i p ps)"
    using inv'(1,5) i zero pid pids unfolding pids_ok_def by (auto split: if_splits)
  moreover have "dirs_ok k (set_slot i p ps)"
    unfolding dirs_ok_def
  proof (intro conjI allI impI)
    fix j l
    assume "j < MAX_PROCS" "l < MAX_PROCS"
      "owns k (slot_of (set_slot i p ps) j) \<and> owns k (slot_of (set_slot i p ps) l) \<and>
        p_dir (slot_of (set_slot i p ps) j) = p_dir (slot_of (set_slot i p ps) l)"
    then show "j = l"
      using dirs inv'(6) inv'(1) i
      by (cases "i = j"; cases "i = l") (auto simp: dirs_ok_def dest: dirs)
  qed (use inv'(1,10-12) i zero run(2) in auto)
  moreover have "zombies_ok k (set_slot i p ps)"
    using inv'(13) zombie by (simp add: zombies_ok_def)
  ultimately show ?thesis
    using inv'(1-3) zero i by (simp add: tab_inv_def)
qed

lemma find_upt_Some:
  "find P [a..<b] = Some i \<Longrightarrow> a \<le> i \<and> i < b \<and> P i \<and> (\<forall>j. a \<le> j \<and> j < i \<longrightarrow> \<not> P j)"
  by (auto simp: find_Some_iff nth_upt) (metis add_diff_cancel_left' le_Suc_ex nat_add_left_cancel_less)


lemma find_upt_None: "find P [a..<b] = None \<longleftrightarrow> (\<forall>i. a \<le> i \<and> i < b \<longrightarrow> \<not> P i)"
  by (auto simp: find_None_iff)

lemma proc_get_Some: "tab_inv k ps \<Longrightarrow> proc_get pid ps = Some i \<longleftrightarrow>
    i < MAX_PROCS \<and> used (slot_of ps i) \<and> p_pid (slot_of ps i) = pid"
proof
  assume "tab_inv k ps" "proc_get pid ps = Some i"
  then show "i < MAX_PROCS \<and> used (slot_of ps i) \<and> p_pid (slot_of ps i) = pid"
    using find_upt_Some by (fastforce simp: proc_get_def used_def)
next
  assume inv: "tab_inv k ps" and i: "i < MAX_PROCS \<and> used (slot_of ps i) \<and> p_pid (slot_of ps i) = pid"
  then obtain j where j: "proc_get pid ps = Some j"
    using find_upt_None [of _ 0 MAX_PROCS] by (cases "proc_get pid ps") (auto simp: proc_get_def used_def)
  then have "j < MAX_PROCS \<and> used (slot_of ps j) \<and> p_pid (slot_of ps j) = pid"
    using find_upt_Some by (fastforce simp: proc_get_def used_def)
  then have "j = i"
    using tab_invD(5) [OF inv] i by (simp add: pids_ok_def)
  with j show "proc_get pid ps = Some i"
    by simp
qed


lemma proc_alloc_cases:
  assumes "tab_inv k ps" "proc_alloc name ps = (r, ps')" "next_pid ps < 0x7FFFFFFF"
  obtains (full) "r = None" "ps' = ps" "\<forall>i<MAX_PROCS. used (slot_of ps i)"
  | (slot) i p where "r = Some i" "0 < i" "i < MAX_PROCS" "\<not> used (slot_of ps i)"
      "p_pid p = next_pid ps" "p_ppid p = p_pid (proc_current ps)" "p_state p = PROC_READY" "p_dir p = 0"
      "p_brk p = 0" "p_entry p = 0" "slot_of ps' i = p" "ps' = (set_slot i p ps)\<lparr>next_pid := next_pid ps + 1\<rparr>"
      "tab_inv k ps'" "spaces k ps' = spaces k ps" "current_idx ps' = current_idx ps" "current_idx ps \<noteq> i"
      "0 < next_pid ps" "next_pid ps < next_pid ps'" "\<not> owns k (slot_of ps' i)"
      "\<forall>j<MAX_PROCS. j \<noteq> i \<and> used (slot_of ps' j) \<longrightarrow> p_pid (slot_of ps' j) \<noteq> next_pid ps"
proof (cases "find (\<lambda>i. p_state (slot_of ps i) = PROC_UNUSED) [1..<MAX_PROCS]")
  case None
  then have "\<forall>i<MAX_PROCS. used (slot_of ps i)"
    using tab_invD(2) [OF assms(1)] unfolding find_upt_None used_def
    by (metis One_nat_def Suc_leI neq0_conv)
  then show thesis
    using None assms(2) full by (simp add: proc_alloc_def)
next
  case (Some i)
  let ?n = "case name of None \<Rightarrow> bytes_of (str ''proc'') | Some n \<Rightarrow> n"
  define p where "p = zero_proc\<lparr>p_pid := next_pid ps, p_ppid := p_pid (proc_current ps),
    p_state := PROC_READY, p_name := strncpy_z (p_name zero_proc) ?n PROC_NAME\<rparr>"
  have i: "0 < i" "i < MAX_PROCS" "\<not> used (slot_of ps i)"
    using find_upt_Some [OF Some] by (auto simp: used_def)
  have wrap: "wrap_int (next_pid ps + 1) = next_pid ps + 1"
    using assms(3) tab_invD(5) [OF assms(1)] by (simp add: wrap_int_def pids_ok_def)
  have ps': "r = Some i" "ps' = (set_slot i p ps)\<lparr>next_pid := next_pid ps + 1\<rparr>"
    using assms(2) Some wrap by (auto simp: proc_alloc_def p_def)
  have len: "length (table ps) = MAX_PROCS"
    using tab_invD(1) [OF assms(1)] .
  have p: "p_pid p = next_pid ps" "p_ppid p = p_pid (proc_current ps)" "p_state p = PROC_READY" "p_dir p = 0"
    "p_brk p = 0" "p_entry p = 0" "\<not> owns k p" "used p"
    by (simp_all add: p_def zero_proc_def owns_def used_def)
  have cur: "current_idx ps \<noteq> i"
    using i(3) tab_invD(8) [OF assms(1)] by (auto simp: used_def)
  have "tab_inv k ps'"
  proof -
    note inv = tab_invD [OF assms(1)]
    have "one_running ps'"
      using inv(1,4) i(2) cur p(3) by (auto simp: one_running_def ps')
    moreover have "dirs_ok k ps'"
      using inv(1,6) i(1,2) cur p(7) by (simp add: dirs_ok_def ps')
    moreover have "pids_ok ps'"
      using inv(1,5) i(1,2) p(1) unfolding pids_ok_def ps'(2) by (auto split: if_splits)
    moreover have "zombies_ok k ps'"
      using inv(1,13) p(3) by (simp add: zombies_ok_def ps')
    ultimately show ?thesis
      using inv(1-3) i(1) by (simp add: tab_inv_def ps')
  qed
  moreover have "spaces k ps' = spaces k ps"
    using spaces_keep [of k p ps i] p(7) i(3) len by (simp add: ps'(2) owns_def [of k "slot_of ps i"])
  moreover have "\<forall>j<MAX_PROCS. j \<noteq> i \<and> used (slot_of ps' j) \<longrightarrow> p_pid (slot_of ps' j) \<noteq> next_pid ps"
    using tab_invD(5) [OF assms(1)] by (auto simp: ps' pids_ok_def)
  moreover have "0 < next_pid ps"
    using tab_invD(5) [OF assms(1)] by (simp add: pids_ok_def)
  ultimately show thesis
    using slot [of i p] ps' p i len cur by simp
qed

lemma pids_ok_cong:
  assumes "pids_ok ps" "next_pid ps' = next_pid ps" "p_pid (slot_of ps' 0) = 0"
    "\<forall>i<MAX_PROCS. used (slot_of ps' i) \<longrightarrow> used (slot_of ps i) \<and> p_pid (slot_of ps' i) = p_pid (slot_of ps i)"
  shows "pids_ok ps'"
  using assms by (simp add: pids_ok_def) metis

lemma dirs_ok_cong:
  assumes "dirs_ok k ps" "p_dir (slot_of ps' 0) = k" "p_dir (slot_of ps' (current_idx ps')) \<noteq> 0"
    "\<forall>i<MAX_PROCS. owns k (slot_of ps' i) \<longrightarrow> owns k (slot_of ps i) \<and> p_dir (slot_of ps' i) = p_dir (slot_of ps i)"
  shows "dirs_ok k ps'"
  using assms by (simp add: dirs_ok_def) metis

lemma bare_modifies:
  assumes "modifies W s s'" "vm_inv s D L" "W \<subseteq> pool (pmm_st s)" "bare s"
  shows "bare s'"
proof -
  have "kernel_dir s \<notin> W" "page_aligned (kernel_dir s)"
    using assms(3) vm_inv_kernel [OF assms(2)] by auto
  then have "get_entry s' (kernel_dir s) i = get_entry s (kernel_dir s) i" if "i < 1024" for i
    using modifies_get_entry [OF assms(1)] that by blast
  moreover have "kernel_dir s' = kernel_dir s"
    using assms(1) by (simp add: modifies_def)
  ultimately show ?thesis
    using assms(4) by (simp add: bare_def)
qed

lemma bare_switch [simp]: "bare (vmm_switch d s) = bare s"
  by (simp add: bare_def vmm_switch_def get_entry_def)

lemma switch_fields [simp]: "kernel_dir (vmm_switch d s) = kernel_dir s" "cr3 (vmm_switch d s) = d"
  by (simp_all add: vmm_switch_def)

subsection \<open>Switching\<close>

lemma proc_switch_to_cases:
  assumes inv: "proc_inv ps s L" and eq: "proc_switch_to pid ps s = (r, ps', s')"
  obtains (refused) "r = -1" "ps' = ps" "s' = s"
      "\<nexists>i. i < MAX_PROCS \<and> used (slot_of ps i) \<and> p_pid (slot_of ps i) = pid \<and>
        p_state (slot_of ps i) \<noteq> PROC_ZOMBIE \<and> p_dir (slot_of ps i) \<noteq> 0"
  | (switched) i where "r = 0" "i < MAX_PROCS" "used (slot_of ps i)" "p_pid (slot_of ps i) = pid"
      "p_state (slot_of ps i) \<noteq> PROC_ZOMBIE" "p_dir (slot_of ps i) \<noteq> 0" "current_idx ps' = i"
      "s' = vmm_switch (p_dir (slot_of ps i)) s" "next_pid ps' = next_pid ps"
      "\<And>j. j < MAX_PROCS \<Longrightarrow> slot_of ps' j = (slot_of ps j)\<lparr>p_state := if j = i then PROC_RUNNING
         else if j = current_idx ps then PROC_READY else p_state (slot_of ps j)\<rparr>"
      "spaces (kernel_dir s) ps' = spaces (kernel_dir s) ps" "proc_inv ps' s' L"
proof (cases "proc_get pid ps")
  case None
  then have "\<nexists>i. i < MAX_PROCS \<and> used (slot_of ps i) \<and> p_pid (slot_of ps i) = pid"
    using proc_get_Some [OF proc_invD(1) [OF inv], of pid] by simp
  then show thesis
    using refused eq None by (auto simp: proc_switch_to_def)
next
  case (Some i)
  note t = tab_invD [OF proc_invD(1) [OF inv]]
  have i: "i < MAX_PROCS" "used (slot_of ps i)" "p_pid (slot_of ps i) = pid"
    using Some proc_get_Some [OF proc_invD(1) [OF inv]] by auto
  show thesis
  proof (cases "p_state (slot_of ps i) = PROC_ZOMBIE \<or> p_dir (slot_of ps i) = 0")
    case True
    have "j = i" if "j < MAX_PROCS" "used (slot_of ps j)" "p_pid (slot_of ps j) = pid" for j
      using that i t(5) by (auto simp: pids_ok_def)
    then show thesis
      using refused eq Some True by (auto simp: proc_switch_to_def)
  next
    case False
    let ?k = "kernel_dir s"
    have ps': "ps' = set_slot i ((slot_of (set_slot (current_idx ps) ((slot_of ps (current_idx ps))\<lparr>p_state := PROC_READY\<rparr>) ps) i)
        \<lparr>p_state := PROC_RUNNING\<rparr>)
        ((set_slot (current_idx ps) ((slot_of ps (current_idx ps))\<lparr>p_state := PROC_READY\<rparr>) ps)\<lparr>current_idx := i\<rparr>)"
      and s': "s' = vmm_switch (p_dir (slot_of ps i)) s" "r = 0"
      using eq Some False i(1) t(1,8) by (auto simp: proc_switch_to_def Let_def)
    have sl: "slot_of ps' j = (slot_of ps j)\<lparr>p_state := if j = i then PROC_RUNNING
         else if j = current_idx ps then PROC_READY else p_state (slot_of ps j)\<rparr>" if "j < MAX_PROCS" for j
      unfolding ps' using t(1,7) i(1) that by simp
    have us: "used (slot_of ps' j) = used (slot_of ps j)" if "j < MAX_PROCS" for j
      using that i(2) t(8) by (auto simp: sl used_def)
    then have ow: "owns ?k (slot_of ps' j) = owns ?k (slot_of ps j)" if "j < MAX_PROCS" for j
      using that sl by (simp add: owns_def)
    have f: "current_idx ps' = i" "next_pid ps' = next_pid ps" "length (table ps') = length (table ps)"
      by (simp_all add: ps')
    have "one_running ps'"
      using t(4) i(1) by (auto simp: one_running_def f sl)
    moreover have "pids_ok ps'"
      using t(9) us by (intro pids_ok_cong [OF t(5)]) (simp_all add: f sl MAX_PROCS_def)
    moreover have "dirs_ok ?k ps'"
      using t(10) ow False i(1) by (intro dirs_ok_cong [OF t(6)]) (simp_all add: f sl MAX_PROCS_def)
    moreover have "zombies_ok ?k ps'"
      unfolding zombies_ok_def
    proof (intro allI impI)
      fix j
      assume j: "j < MAX_PROCS" "p_state (slot_of ps' j) = PROC_ZOMBIE"
      then have "p_state (slot_of ps j) = PROC_ZOMBIE"
        by (simp add: sl split: if_splits)
      then show "\<not> owns ?k (slot_of ps' j)"
        using t(13) ow [OF j(1)] j(1) by (simp add: zombies_ok_def)
    qed
    ultimately have tab: "tab_inv ?k ps'"
      using t(1-3) us [of 0] by (simp add: tab_inv_def f sl MAX_PROCS_def)
    have sp: "spaces ?k ps' = spaces ?k ps"
      using ow sl by (intro spaces_cong) simp
    have "proc_inv ps' s' L"
      using tab sp proc_invD [OF inv] i(1) by (simp add: proc_inv_def s' proc_current_def f sl)
    then show thesis
      using switched [of i] i False s' f sl sp by auto
  qed
qed

subsection \<open>Freeing and waiting\<close>

lemma proc_free_inv:
  assumes inv: "proc_inv ps s L" and i: "i < MAX_PROCS" "i \<noteq> 0" "i \<noteq> current_idx ps" "used (slot_of ps i)"
    and eq: "proc_free (Some i) ps s = (ps', s')"
  shows "proc_inv ps' s' L" "\<not> used (slot_of ps' i)"
    "\<forall>j. j \<noteq> i \<longrightarrow> slot_of ps' j = slot_of ps j" "current_idx ps' = current_idx ps" "next_pid ps' = next_pid ps"
    "kernel_dir s' = kernel_dir s"
    "spaces (kernel_dir s) ps' = (if owns (kernel_dir s) (slot_of ps i)
       then spaces (kernel_dir s) ps - {p_dir (slot_of ps i)} else spaces (kernel_dir s) ps)"
    "s' = (if owns (kernel_dir s) (slot_of ps i) then vmm_destroy_dir (p_dir (slot_of ps i)) s else s)"
proof -
  let ?k = "kernel_dir s" let ?p = "slot_of ps i" let ?z = "zero_proc\<lparr>p_state := PROC_UNUSED\<rparr>"
  note t = tab_invD [OF proc_invD(1) [OF inv]]
  have z: "\<not> used ?z" "\<not> owns ?k ?z" "p_state ?z \<noteq> PROC_RUNNING"
    by (simp_all add: used_def owns_def)
  have "p_pid ?p \<noteq> 0"
    using t(5) i by (auto simp: pids_ok_def)
  then have ps': "ps' = set_slot i ?z ps"
    and s': "s' = (if owns ?k ?p then vmm_destroy_dir (p_dir ?p) s else s)"
    using eq i(4) by (auto simp: proc_free_def Let_def owns_def split: if_splits)
  have tab: "tab_inv ?k ps'"
    unfolding ps' by (rule tab_inv_set_slot [OF proc_invD(1) [OF inv] i(1)]) (use i(2,3) z in auto)
  have sp: "spaces ?k ps' = (if owns ?k ?p then spaces ?k ps - {p_dir ?p} else spaces ?k ps)"
    using spaces_remove [OF proc_invD(1) [OF inv] _ i(1) z(2)] spaces_keep [of ?k ?z ps i] z(2) t(1)
    by (simp add: ps')
  have d: "p_dir ?p \<in> spaces ?k ps" if "owns ?k ?p"
    using in_spaces [OF i(1) that] .
  have m: "modifies {p_dir ?p} s s'"
    using vmm_destroy_dir_inv(2) [OF proc_invD(4) [OF inv] d] by (simp add: s')
  have k: "kernel_dir s' = ?k" "cr3 s' = cr3 s"
    using m by (simp_all add: modifies_def)
  have "vm_inv s' (spaces ?k ps') L"
    using vmm_destroy_dir_inv(1) [OF proc_invD(4) [OF inv] d] proc_invD(4) [OF inv] by (simp add: s' sp)
  moreover have "bare s'"
  proof (cases "owns ?k ?p")
    case True
    then have "{p_dir ?p} \<subseteq> pool (pmm_st s)"
      using vm_inv_pool(2) [OF proc_invD(4) [OF inv] d] by simp
    then show ?thesis
      using bare_modifies [OF m proc_invD(4) [OF inv]] proc_invD(3) [OF inv] by simp
  qed (use proc_invD(3) [OF inv] s' in simp)
  moreover have "cr3 s' = p_dir (proc_current ps')"
    using proc_invD(2) [OF inv] i(3) by (simp add: k ps' proc_current_def)
  ultimately show "proc_inv ps' s' L"
    using tab proc_invD(5) [OF inv] by (simp add: proc_inv_def k)
  show "\<not> used (slot_of ps' i)" "\<forall>j. j \<noteq> i \<longrightarrow> slot_of ps' j = slot_of ps j"
    "current_idx ps' = current_idx ps" "next_pid ps' = next_pid ps" "kernel_dir s' = kernel_dir s"
    using z(1) i(1) t(1) k by (simp_all add: ps')
  show "spaces ?k ps' = (if owns ?k ?p then spaces ?k ps - {p_dir ?p} else spaces ?k ps)"
    "s' = (if owns ?k ?p then vmm_destroy_dir (p_dir ?p) s else s)"
    using sp s' by simp_all
qed

lemma proc_wait_cases:
  assumes inv: "proc_inv ps s L" and eq: "proc_wait ps s = (r, ps', s')"
  obtains (none) "r = (-1, None)" "ps' = ps" "s' = s"
      "\<nexists>i. 0 < i \<and> i < MAX_PROCS \<and> p_state (slot_of ps i) = PROC_ZOMBIE \<and>
         p_ppid (slot_of ps i) = p_pid (proc_current ps)"
  | (reaped) i where "0 < i" "i < MAX_PROCS" "i \<noteq> current_idx ps" "used (slot_of ps i)"
      "p_state (slot_of ps i) = PROC_ZOMBIE" "p_ppid (slot_of ps i) = p_pid (proc_current ps)"
      "r = (p_pid (slot_of ps i), Some (p_exit_code (slot_of ps i)))" "proc_free (Some i) ps s = (ps', s')"
      "\<forall>j. 0 < j \<and> j < i \<longrightarrow> \<not> (p_state (slot_of ps j) = PROC_ZOMBIE \<and> p_ppid (slot_of ps j) = p_pid (proc_current ps))"
proof (cases "find (\<lambda>i. \<not> (p_state (slot_of ps i) \<noteq> PROC_ZOMBIE \<or>
    p_ppid (slot_of ps i) \<noteq> p_pid (proc_current ps))) [1..<MAX_PROCS]")
  case None
  then have "\<nexists>i. 0 < i \<and> i < MAX_PROCS \<and> p_state (slot_of ps i) = PROC_ZOMBIE \<and>
         p_ppid (slot_of ps i) = p_pid (proc_current ps)"
    unfolding find_upt_None by auto
  then show thesis
    using None eq none by (simp add: proc_wait_def)
next
  case (Some i)
  then have i: "0 < i" "i < MAX_PROCS" "p_state (slot_of ps i) = PROC_ZOMBIE"
      "p_ppid (slot_of ps i) = p_pid (proc_current ps)"
    "\<forall>j. 0 < j \<and> j < i \<longrightarrow> \<not> (p_state (slot_of ps j) = PROC_ZOMBIE \<and> p_ppid (slot_of ps j) = p_pid (proc_current ps))"
    using find_upt_Some [OF Some] by auto
  moreover have "i \<noteq> current_idx ps" "used (slot_of ps i)"
    using i(3) tab_invD(8) [OF proc_invD(1) [OF inv]] by (auto simp: used_def)
  ultimately show thesis
    using Some eq reaped [of i] by (auto simp: proc_wait_def Let_def)
qed

subsection \<open>Exit\<close>

lemma used_update [simp]:
  "used (p\<lparr>p_ppid := n\<rparr>) = used p" "owns k (p\<lparr>p_ppid := n\<rparr>) = owns k p" "used (p\<lparr>p_dir := d\<rparr>) = used p"
  by (simp_all add: used_def owns_def)

lemma reparent_fields [simp]:
  "length (table (reparent p i ps)) = length (table ps)" "next_pid (reparent p i ps) = next_pid ps"
  "current_idx (reparent p i ps) = current_idx ps"
  by (simp_all add: reparent_def)

lemma fold_reparent_fields [simp]:
  "length (table (fold (reparent p) is ps)) = length (table ps)"
  "next_pid (fold (reparent p) is ps) = next_pid ps" "current_idx (fold (reparent p) is ps) = current_idx ps"
  by (induction "is" arbitrary: ps) simp_all

lemma slot_of_reparent:
  "\<forall>i\<in>set is. i < length (table ps) \<Longrightarrow> slot_of (fold (reparent p) is ps) j =
    (if j \<in> set is \<and> used (slot_of ps j) \<and> p_ppid (slot_of ps j) = p_pid (slot_of ps p)
     then (slot_of ps j)\<lparr>p_ppid := 0\<rparr> else slot_of ps j)"
proof (induction "is" arbitrary: ps)
  case (Cons i "is")
  have i: "slot_of (reparent p i ps) l = (if l = i \<and> used (slot_of ps i) \<and> p_ppid (slot_of ps i) = p_pid (slot_of ps p)
     then (slot_of ps i)\<lparr>p_ppid := 0\<rparr> else slot_of ps l)" for l
    using Cons.prems by (simp add: reparent_def used_def)
  have pid: "p_pid (slot_of (reparent p i ps) p) = p_pid (slot_of ps p)"
    by (simp add: i)
  show ?case
    using Cons.prems by (subst fold_simps, subst Cons.IH) (auto simp: i pid used_def)
qed simp

lemma proc_exit_kernel: "p_pid (proc_current ps) = 0 \<Longrightarrow> proc_exit code ps s = (ps, s)"
  by (simp add: proc_exit_def proc_current_def Let_def)

lemma proc_exit_cases:
  assumes inv: "proc_inv ps s L" and eq: "proc_exit code ps s = (ps', s')"
  obtains (kernel) "current_idx ps = 0" "ps' = ps" "s' = s"
  | (dead) c where "c = current_idx ps" "0 < c" "c < MAX_PROCS" "p_pid (slot_of ps c) \<noteq> 0"
      "proc_inv ps' s' L" "current_idx ps' = 0" "next_pid ps' = next_pid ps"
      "p_state (slot_of ps' c) = PROC_ZOMBIE" "p_exit_code (slot_of ps' c) = code"
      "p_pid (slot_of ps' c) = p_pid (slot_of ps c)" "\<not> owns (kernel_dir s) (slot_of ps' c)"
      "\<And>j. j < MAX_PROCS \<Longrightarrow> p_ppid (slot_of ps' j) =
         (if 0 < j \<and> used (slot_of ps j) \<and> p_ppid (slot_of ps j) = p_pid (slot_of ps c) then 0 else p_ppid (slot_of ps j))"
      "\<And>j. j < MAX_PROCS \<Longrightarrow> 0 < j \<Longrightarrow> j \<noteq> c \<Longrightarrow>
         slot_of ps' j = (slot_of ps j)\<lparr>p_ppid := p_ppid (slot_of ps' j)\<rparr>"
      "slot_of ps' 0 = (slot_of ps 0)\<lparr>p_state := PROC_RUNNING\<rparr>"
      "spaces (kernel_dir s) ps' = spaces (kernel_dir s) ps - {p_dir (slot_of ps c)}"
      "s' = (let t = vmm_switch (kernel_dir s) s
             in if owns (kernel_dir s) (slot_of ps c) then vmm_destroy_dir (p_dir (slot_of ps c)) t else t)"
proof (cases "p_pid (proc_current ps) = 0")
  case True
  have "current_idx ps = 0"
    using True tab_invD(5,7,8) [OF proc_invD(1) [OF inv]]
    by (auto simp: pids_ok_def proc_current_def used_def)
  moreover have "ps' = ps" "s' = s"
    using eq proc_exit_kernel [OF True] by simp_all
  ultimately show thesis
    by (rule kernel)
next
  case False
  let ?k = "kernel_dir s" let ?c = "current_idx ps"
  note t = tab_invD [OF proc_invD(1) [OF inv]]
  have c: "0 < ?c" "?c < MAX_PROCS" "p_pid (slot_of ps ?c) \<noteq> 0" "used (slot_of ps ?c)"
    using False t(7-9) by (auto simp: proc_current_def used_def intro: gr0I)
  define z where "z = (slot_of ps ?c)\<lparr>p_exit_code := code, p_state := PROC_ZOMBIE,
    p_dir := if owns ?k (slot_of ps ?c) then 0 else p_dir (slot_of ps ?c)\<rparr>"
  define q where "q = set_slot ?c z (set_slot 0 ((slot_of ps 0)\<lparr>p_state := PROC_RUNNING\<rparr>) (ps\<lparr>current_idx := 0\<rparr>))"
  have fields: "ps' = fold (reparent ?c) [1..<MAX_PROCS] q"
    "s' = (let t = vmm_switch ?k s
       in if owns ?k (slot_of ps ?c) then vmm_destroy_dir (p_dir (slot_of ps ?c)) t else t)"
    using eq c t(1) by (auto simp: proc_exit_def Let_def q_def z_def owns_def set_slot_def slot_of_def
        list_update_swap split: if_splits)
  have z: "used z" "p_state z = PROC_ZOMBIE" "p_pid z = p_pid (slot_of ps ?c)" "p_ppid z = p_ppid (slot_of ps ?c)"
    "\<not> owns ?k z" "p_exit_code z = code"
    using c(4) by (simp_all add: z_def used_def owns_def)
  have q: "slot_of q j = (if j = ?c then z else if j = 0 then (slot_of ps 0)\<lparr>p_state := PROC_RUNNING\<rparr> else slot_of ps j)"
      for j
    using c t(1) by (auto simp: q_def MAX_PROCS_def)
  have usq: "used (slot_of q j) = used (slot_of ps j)" for j
    using c(4) z(1) t(2) by (simp add: q used_def)
  have sl: "slot_of ps' j = (if 0 < j \<and> used (slot_of ps j) \<and> p_ppid (slot_of ps j) = p_pid (slot_of ps ?c)
      then (slot_of q j)\<lparr>p_ppid := 0\<rparr> else slot_of q j)" if "j < MAX_PROCS" for j
  proof -
    have "p_ppid (slot_of q j) = p_ppid (slot_of ps j)" "length (table q) = MAX_PROCS"
      using z(4) t(1) by (simp_all add: q) (simp add: q_def)
    then show ?thesis
      using that z(1,3) c(4) unfolding fields(1) by (subst slot_of_reparent) (auto simp: usq q)
  qed
  have us: "used (slot_of ps' j) = used (slot_of ps j)" and pid: "p_pid (slot_of ps' j) = p_pid (slot_of ps j)"
    if "j < MAX_PROCS" for j
    using that usq [of j] z(3) by (simp_all add: sl q used_def)
  have ow: "owns ?k (slot_of ps' j) \<longleftrightarrow> owns ?k (slot_of ps j) \<and> j \<noteq> ?c" if "j < MAX_PROCS" for j
    using that z(5) us [OF that] by (auto simp: sl q owns_def [of ?k "(slot_of ps 0)\<lparr>p_state := PROC_RUNNING\<rparr>"] owns_def [of ?k "slot_of ps 0"])
  have dir: "p_dir (slot_of ps' j) = p_dir (slot_of ps j)" if "j < MAX_PROCS" "j \<noteq> ?c" for j
    using that by (simp add: sl q)
  have st: "p_state (slot_of ps' j) = (if j = ?c then PROC_ZOMBIE else if j = 0 then PROC_RUNNING
      else p_state (slot_of ps j))" if "j < MAX_PROCS" for j
    using that z(2) by (simp add: sl q)
  have cur: "current_idx ps' = 0" "next_pid ps' = next_pid ps" "length (table ps') = MAX_PROCS" "0 < MAX_PROCS"
    using t(1) by (simp_all add: fields(1) q_def) (simp add: MAX_PROCS_def)
  have "one_running ps'"
    using t(4) c(1) cur(1,4) by (auto simp: one_running_def st)
  moreover have "pids_ok ps'"
    using us pid t(9) cur by (intro pids_ok_cong [OF t(5)]) simp_all
  moreover have "dirs_ok ?k ps'"
    using ow dir t(10,11) cur c(1) by (intro dirs_ok_cong [OF t(6)]) simp_all
  moreover have "zombies_ok ?k ps'"
    using t(13) ow cur(1) by (auto simp: zombies_ok_def st)
  ultimately have tab: "tab_inv ?k ps'"
    using us [OF cur(4)] t(2) st [OF cur(4)] c(1) cur by (simp add: tab_inv_def)
  have other: "p_dir (slot_of ps j) \<noteq> p_dir (slot_of ps ?c)" if "j < MAX_PROCS" "owns ?k (slot_of ps j)" "j \<noteq> ?c" for j
    using that t(6,7,12) c(4) by (auto simp: dirs_ok_def owns_def)
  have sp: "spaces ?k ps' = spaces ?k ps - {p_dir (slot_of ps ?c)}"
  proof -
    have "spaces ?k ps' = {p_dir (slot_of ps j) | j. j < MAX_PROCS \<and> owns ?k (slot_of ps j) \<and> j \<noteq> ?c}"
      unfolding spaces_def using ow dir by (intro Collect_cong) metis
    then show ?thesis
      using other by (auto simp: spaces_def)
  qed
  have d: "p_dir (slot_of ps ?c) \<in> spaces ?k ps" if "owns ?k (slot_of ps ?c)"
    using in_spaces [OF c(2) that] .
  have vm: "vm_inv (vmm_switch ?k s) (spaces ?k ps) L" "bare (vmm_switch ?k s)"
    using proc_invD [OF inv] by simp_all
  have "vm_inv s' (spaces ?k ps') L \<and> modifies {p_dir (slot_of ps ?c)} (vmm_switch ?k s) s' \<and> bare s'"
  proof (cases "owns ?k (slot_of ps ?c)")
    case True
    note des = vmm_destroy_dir_inv [OF vm(1) d [OF True]]
    have "{p_dir (slot_of ps ?c)} \<subseteq> pool (pmm_st (vmm_switch ?k s))"
      using vm_inv_pool(2) [OF vm(1) d [OF True]] by simp
    then show ?thesis
      using bare_modifies [OF des(2) vm(1) _ vm(2)] des True by (simp add: fields(2) sp)
  next
    case False
    then have "p_dir (slot_of ps ?c) \<notin> spaces ?k ps"
      using c(4) t(12) by (auto simp: owns_def spaces_def)
    then show ?thesis
      using vm False by (simp add: fields(2) sp)
  qed
  moreover have "p_dir (proc_current ps') = ?k"
    using dir [OF cur(4)] c(1) t(10) cur(1) by (simp add: proc_current_def)
  ultimately have inv': "proc_inv ps' s' L"
    using tab proc_invD(5) [OF inv] by (simp add: proc_inv_def modifies_def)
  show thesis
    by (rule dead [OF refl c(1-3) inv' cur(1,2) _ _ _ _ _ _ _ sp fields(2)])
      (use c sl q z ow cur in \<open>auto simp: st pid\<close>)
qed

subsection \<open>Fork\<close>

lemma spaces_card: "finite (spaces k ps)" "card (spaces k ps) \<le> MAX_PROCS"
proof -
  have sub: "spaces k ps \<subseteq> (\<lambda>i. p_dir (slot_of ps i)) ` {..<MAX_PROCS}"
    by (auto simp: spaces_def)
  then show "finite (spaces k ps)" "card (spaces k ps) \<le> MAX_PROCS"
    using card_mono [OF _ sub] card_image_le [of "{..<MAX_PROCS}" "\<lambda>i. p_dir (slot_of ps i)"]
    by (simp_all add: finite_subset [OF sub])
qed

lemma few_owners:
  assumes inv: "vm_inv s D L" and "card D \<le> MAX_PROCS" and few: "\<forall>f. count L f \<le> 238"
  shows "\<forall>f\<in>pool (pmm_st s). owners (pmm_st s) f < 255"
proof
  fix f
  assume f: "f \<in> pool (pmm_st s)"
  have "owners (pmm_st s) f = (\<Sum>d\<in>D. count (held s d) f) + count L f"
    using inv f by (simp add: vm_inv_def all_held_def count_sum)
  also have "\<dots> \<le> (\<Sum>d\<in>D. 1) + 238"
    using inv few by (intro add_mono sum_mono) (simp_all add: vm_inv_def)
  finally show "owners (pmm_st s) f < 255"
    using assms(2) by (simp add: MAX_PROCS_def)
qed

lemma cow_slots_absent:
  "\<forall>i\<in>set is. \<not> bit (get_entry s src i) 0 \<Longrightarrow> cow_slots is src dst s = (True, s)"
  by (induction "is") (simp_all add: cow_slots.simps flag_simps)

lemma clone_kernel:
  assumes inv: "vm_inv s D L" and "bare s" "kernel_dir s \<noteq> 0"
  shows "vmm_clone_cow (kernel_dir s) s = vmm_create_dir s"
proof -
  obtain d t where c: "vmm_create_dir s = (d, t)"
    by (cases "vmm_create_dir s")
  have "bare t \<and> kernel_dir t = kernel_dir s" if "d \<noteq> 0"
    using inv c
  proof (cases rule: vmm_create_dir_cases)
    case created
    then show ?thesis
      using bare_modifies [OF created(4) inv _ assms(2)] by (simp add: modifies_def)
  qed (use that in simp)
  then have "cow_slots (idx 2 1024) (kernel_dir s) d t = (True, t)" if "d \<noteq> 0"
    using that by (intro cow_slots_absent) (auto simp: bare_def set_idx)
  then show ?thesis
    using assms(3) c by (auto simp: vmm_clone_cow_def)
qed

text \<open>The clone of the current process, whether it has a space of its own or runs in the kernel's.\<close>

lemma clone_current:
  assumes inv: "proc_inv ps s L" and p: "p = p_dir (proc_current ps)" and eq: "vmm_clone_cow p s = (d, s')"
  defines "D \<equiv> spaces (kernel_dir s) ps"
  shows "modifies (pool (pmm_st s)) s s'" "bare s'" "\<forall>c\<in>D - {p}. unchanged s s' c"
    "\<forall>v\<ge>0x800000. bit (pte s p v) 0 \<longrightarrow> byte_at s' p v = byte_at s p v"
    "d = 0 \<Longrightarrow> vm_inv s' D L \<and> (\<forall>c\<in>D. held s' c = held s c)"
    "d \<noteq> 0 \<Longrightarrow> d \<notin> D \<and> d \<noteq> kernel_dir s \<and> vm_inv s' (insert d D) L \<and>
       (\<forall>v\<ge>0x800000. (bit (pte s' d v) 0 \<longleftrightarrow> bit (pte s p v) 0) \<and>
          (bit (pte s p v) 0 \<longrightarrow> byte_at s' d v = byte_at s p v))"
    "\<forall>v\<ge>0x800000. pte s' p v \<in> {pte s p v, share (pte s p v)}"
proof -
  note i = proc_invD [OF inv] and t = tab_invD [OF proc_invD(1) [OF inv]]
  have vm: "vm_inv s D L"
    using i(4) by (simp add: D_def)
  have few: "\<forall>f\<in>pool (pmm_st s). owners (pmm_st s) f < 255"
    using few_owners [OF i(4) spaces_card(2) i(5)] .
  have key: "modifies (pool (pmm_st s)) s s' \<and> (\<forall>c\<in>D - {p}. unchanged s s' c) \<and>
    (\<forall>v\<ge>0x800000. bit (pte s p v) 0 \<longrightarrow> byte_at s' p v = byte_at s p v) \<and>
    (d = 0 \<longrightarrow> vm_inv s' D L \<and> (\<forall>c\<in>D. held s' c = held s c)) \<and>
    (p \<noteq> kernel_dir s \<longrightarrow> (\<forall>v\<ge>0x800000. pte s' p v \<in> {pte s p v, share (pte s p v)})) \<and>
    (d \<noteq> 0 \<longrightarrow> d \<notin> D \<and> vm_inv s' (insert d D) L \<and>
       (\<forall>v\<ge>0x800000. (bit (pte s' d v) 0 \<longleftrightarrow> bit (pte s p v) 0) \<and>
          (bit (pte s p v) 0 \<longrightarrow> byte_at s' d v = byte_at s p v)))"
  proof (cases "p = kernel_dir s")
    case True
    have abs: "\<not> bit (pte s p v) 0" if "0x800000 \<le> v" for v
      using that i(3) user_addr_range [of v] by (simp add: True bare_def pte_def Let_def user_addr_iff)
    have c: "vmm_create_dir s = (d, s')"
      using eq clone_kernel [OF vm i(3) t(11)] True by simp
    from vm c show ?thesis
    proof (cases rule: vmm_create_dir_cases)
      case full
      then show ?thesis
        using vm True by simp
    next
      case created
      have "unchanged s s' c" if "c \<in> D" for c
        using fresh_not_held [OF vm _ that, of d] created(6,7)
        by (intro modifies_unchanged [OF vm that created(4)]) (simp add: fresh_def)
      moreover have "\<not> bit (pte s' d v) 0" if "0x800000 \<le> v" for v
        using that created(8) user_addr_range [of v] by (simp add: pte_def Let_def user_addr_iff)
      ultimately show ?thesis
        using created abs True modifies_mono [OF created(4), of "pool (pmm_st s)"] by auto
    qed
  next
    case False
    then have "p \<in> D"
      using p t(7,8,12) in_spaces [of "current_idx ps" "kernel_dir s" ps]
      by (auto simp: D_def owns_def proc_current_def used_def)
    then show ?thesis
      using vmm_clone_cow_ok [OF vm _ few eq] vmm_clone_cow_modifies [OF vm _ few eq] by (auto simp: bit_share)
  qed
  show "modifies (pool (pmm_st s)) s s'" "\<forall>c\<in>D - {p}. unchanged s s' c"
    "\<forall>v\<ge>0x800000. bit (pte s p v) 0 \<longrightarrow> byte_at s' p v = byte_at s p v" "d = 0 \<Longrightarrow> vm_inv s' D L \<and> (\<forall>c\<in>D. held s' c = held s c)"
    using key by blast+
  then show b: "bare s'"
    using bare_modifies [OF _ vm _ i(3)] by blast
  show "\<forall>v\<ge>0x800000. pte s' p v \<in> {pte s p v, share (pte s p v)}"
  proof (cases "p = kernel_dir s")
    case True
    moreover have "kernel_dir s' = kernel_dir s"
      using key by (simp add: modifies_def)
    ultimately have "pte s' p v = pte s p v" if "0x800000 \<le> v" for v
      using that b i(3) user_addr_range [of v] by (simp add: bare_def pte_def Let_def user_addr_iff)
    then show ?thesis
      by simp
  qed (use key in blast)
  show "d \<notin> D \<and> d \<noteq> kernel_dir s \<and> vm_inv s' (insert d D) L \<and>
       (\<forall>v\<ge>0x800000. (bit (pte s' d v) 0 \<longleftrightarrow> bit (pte s p v) 0) \<and>
          (bit (pte s p v) 0 \<longrightarrow> byte_at s' d v = byte_at s p v))" if "d \<noteq> 0"
  proof -
    have "kernel_dir s' = kernel_dir s" "vm_inv s' (insert d D) L"
      using key that by (auto simp: modifies_def)
    then have "d \<noteq> kernel_dir s"
      using vm_inv_kernel(2) [of s' "insert d D" "L"] vm_inv_pool(2) [of s' "insert d D" "L" d d] by auto
    then show ?thesis
      using key that by blast
  qed
qed

lemma proc_fork_cases:
  assumes inv: "proc_inv ps s L" and eq: "proc_fork ps s = (r, ps', s')" and pid: "next_pid ps < 0x7FFFFFFF"
  obtains (full) "r = -1" "ps' = ps" "s' = s" "\<forall>i<MAX_PROCS. used (slot_of ps i)"
  | (no_memory) c where "r = -1" "0 < c" "c < MAX_PROCS" "\<not> used (slot_of ps c)" "\<not> used (slot_of ps' c)"
      "vmm_clone_cow (p_dir (proc_current ps)) s = (0, s')"
      "\<And>j. j \<noteq> c \<Longrightarrow> slot_of ps' j = slot_of ps j" "proc_inv ps' s' L" "current_idx ps' = current_idx ps"
  | (forked) c d t where "r = next_pid ps" "0 < c" "c < MAX_PROCS" "\<not> used (slot_of ps c)" "d \<noteq> 0"
      "vmm_clone_cow (p_dir (proc_current ps)) s = (d, t)" "s' = vmm_switch (p_dir (proc_current ps)) t"
      "\<And>j. j \<noteq> c \<Longrightarrow> slot_of ps' j = slot_of ps j"
      "p_pid (slot_of ps' c) = next_pid ps" "p_ppid (slot_of ps' c) = p_pid (proc_current ps)"
      "p_state (slot_of ps' c) = PROC_READY" "p_dir (slot_of ps' c) = d"
      "p_entry (slot_of ps' c) = p_entry (proc_current ps)" "p_brk (slot_of ps' c) = p_brk (proc_current ps)"
      "proc_inv ps' s' L" "current_idx ps' = current_idx ps" "next_pid ps' = next_pid ps + 1"
proof -
  let ?k = "kernel_dir s" let ?p = "current_idx ps" let ?P = "slot_of ps (current_idx ps)"
  note i = proc_invD [OF inv] and t = tab_invD [OF proc_invD(1) [OF inv]]
  obtain a q where a: "proc_alloc (Some (bytes_of (p_name ?P))) ps = (a, q)"
    by (cases "proc_alloc (Some (bytes_of (p_name ?P))) ps")
  from i(1) a pid show thesis
  proof (cases rule: proc_alloc_cases)
    case full
    then show thesis
      using eq a that(1) by (simp add: proc_fork_def Let_def)
  next
    case (slot c x)
    note ne = slot(16)
    have q: "slot_of q ?p = ?P" "length (table q) = MAX_PROCS" "slot_of q c = x"
      using ne slot(11,12) t(1) by simp_all
    obtain d u where cl: "vmm_clone_cow (p_dir ?P) s = (d, u)"
      by (cases "vmm_clone_cow (p_dir ?P) s")
    note clone = clone_current [OF inv refl cl [folded proc_current_def]]
    have k: "kernel_dir u = ?k" "cr3 u = cr3 s"
      using clone(1) by (simp_all add: modifies_def)
    have tq: "tab_inv ?k q" "spaces ?k q = spaces ?k ps"
      using slot(13,14) by simp_all
    note pids = slot(17,18,20)
    show thesis
    proof (cases "d = 0")
      case True
      define y where "y = x\<lparr>p_dir := d, p_state := PROC_UNUSED\<rparr>"
      have y: "\<not> used y" "\<not> owns ?k y"
        by (simp_all add: y_def used_def owns_def)
      have res: "r = -1" "ps' = set_slot c y q" "s' = u"
        using eq a slot(1,3) q cl True ne
        by (auto simp: proc_fork_def Let_def y_def set_slot_def slot_of_def)
      have "tab_inv ?k ps'"
        unfolding res by (rule tab_inv_set_slot [OF tq(1) slot(3)]) (use slot(2,15) ne y in \<open>auto simp: y_def used_def\<close>)
      moreover have "spaces ?k ps' = spaces ?k ps"
        using spaces_keep [of ?k y q c] y q(2,3) slot(8) tq(2) by (simp add: res owns_def [of _ x])
      ultimately have "proc_inv ps' s' L"
        using clone(2) clone(5) True i(2,5) k ne slot(15) q by (simp add: proc_inv_def res proc_current_def)
      then show thesis
        using that(2) [of c] res slot(2-4,12,15) y(1) cl True q(2) by (auto simp: proc_current_def)
    next
      case False
      define y where "y = x\<lparr>p_dir := d, p_ppid := p_pid ?P, p_entry := p_entry ?P, p_brk := p_brk ?P,
        p_state := PROC_READY\<rparr>"
      have y: "used y" "owns ?k y" "p_dir y = d" "p_pid y = next_pid ps" "p_ppid y = p_pid ?P" "p_state y = PROC_READY"
          "p_entry y = p_entry ?P" "p_brk y = p_brk ?P"
        using clone(6) False slot(5) by (simp_all add: y_def used_def owns_def)
      have res: "r = p_pid y" "ps' = set_slot c y q" "s' = vmm_switch (p_dir ?P) u"
        using eq a slot(1,3) q cl False ne
        by (auto simp: proc_fork_def Let_def y_def set_slot_def slot_of_def)
      have dirs: "\<forall>j<MAX_PROCS. j \<noteq> c \<and> owns ?k (slot_of q j) \<longrightarrow> p_dir (slot_of q j) \<noteq> d"
        using clone(6) [OF False] in_spaces [of _ ?k q] tq(2) by auto
      have "tab_inv ?k ps'"
        unfolding res
        by (rule tab_inv_set_slot [OF tq(1) slot(3)])
          (use slot(2,15) ne y dirs pids in auto)
      moreover have "spaces ?k ps' = insert d (spaces ?k ps)"
        using spaces_insert [of ?k q c y] y q(2,3) slot(3,8) tq(2) by (simp add: res owns_def [of _ x])
      ultimately have "proc_inv ps' s' L"
        using clone(2,6) False i(2,5) k ne slot(15) q by (simp add: proc_inv_def res proc_current_def)
      then show thesis
        using that(3) [of c d u] res slot(2-4,12,15) y cl False q(2) by (auto simp: proc_current_def)
    qed
  qed
qed

subsection \<open>Starting processes\<close>

lemma proc_spawn_inv:
  assumes inv: "proc_inv ps s L" and eq: "proc_spawn name ps s = (r, ps', s')" and pid: "next_pid ps < 0x7FFFFFFF"
  shows "proc_inv ps' s' L"
proof -
  let ?k = "kernel_dir s"
  note i = proc_invD [OF inv] and t = tab_invD [OF proc_invD(1) [OF inv]]
  obtain a q where a: "proc_alloc (Some name) ps = (a, q)"
    by (cases "proc_alloc (Some name) ps")
  from i(1) a pid show ?thesis
  proof (cases rule: proc_alloc_cases)
    case full
    then show ?thesis
      using eq a inv by (simp add: proc_spawn_def)
  next
    case (slot c x)
    note ne = slot(16) and pids = slot(17,18,20) and x = slot(19)
    note tq = tab_invD [OF slot(13)]
    obtain d u where cr: "vmm_create_dir s = (d, u)"
      by (cases "vmm_create_dir s")
    define y where "y = x\<lparr>p_dir := d\<rparr>"
    have y: "used y" "p_pid y = next_pid ps" "p_dir y = d" "p_state y = PROC_READY"
      using slot(5,7) by (simp_all add: y_def used_def)
    have res: "ps' = set_slot c y q" "s' = u"
      using eq a slot(1,3,11) cr by (simp_all add: proc_spawn_def y_def)
    have vm: "vm_inv u (if d = 0 then spaces ?k ps else insert d (spaces ?k ps)) L \<and> modifies (pool (pmm_st s)) s u \<and>
        (d \<noteq> 0 \<longrightarrow> d \<notin> spaces ?k ps \<and> d \<noteq> ?k)"
      using i(4) cr
    proof (cases rule: vmm_create_dir_cases)
      case created
      then show ?thesis
        using modifies_mono [OF created(4), of "pool (pmm_st s)"] vm_inv_kernel(2) [OF i(4)] by auto
    qed (use i(4) in simp)
    have dirs: "owns ?k y \<Longrightarrow> \<forall>j<MAX_PROCS. j \<noteq> c \<and> owns ?k (slot_of q j) \<longrightarrow> p_dir (slot_of q j) \<noteq> p_dir y"
      using vm in_spaces [of _ ?k q] slot(14) y(3) by (metis owns_def)
    have tab: "tab_inv ?k ps'"
      unfolding res by (rule tab_inv_set_slot [OF slot(13,3)]) (use slot(2,15) ne y pids dirs in auto)
    have "spaces ?k ps' = (if d = 0 then spaces ?k ps else insert d (spaces ?k ps))"
      using spaces_insert [OF x slot(3) tq(1), of y] spaces_keep [of ?k y q c] vm x y(1,3) slot(14) tq(1)
      by (auto simp: res owns_def [of ?k y])
    then show ?thesis
      using tab vm i(2,5) bare_modifies [OF _ i(4) _ i(3), of "pool (pmm_st s)" u] ne slot(15) slot(12) tq(1)
      by (simp add: proc_inv_def res proc_current_def modifies_def)
  qed
qed

lemma proc_begin_user_cases:
  assumes inv: "proc_inv ps s L" and eq: "proc_begin_user name ps s = (r, ps', s')" and pid: "next_pid ps < 0x7FFFFFFF"
  obtains (full) "r = -1" "ps' = ps" "s' = s"
  | (begun) c where "r = next_pid ps" "0 < c" "c < MAX_PROCS" "\<not> used (slot_of ps c)" "proc_inv ps' s' L"
      "current_idx ps' = c" "p_pid (slot_of ps' c) = next_pid ps" "p_brk (slot_of ps' c) = USER_HEAP_BASE"
      "p_dir (slot_of ps' c) = kernel_dir s" "spaces (kernel_dir s) ps' = spaces (kernel_dir s) ps"
      "s' = vmm_switch (kernel_dir s) s" "p_ppid (slot_of ps' c) = p_pid (proc_current ps)"
proof -
  let ?k = "kernel_dir s"
  note i = proc_invD [OF inv] and t = tab_invD [OF proc_invD(1) [OF inv]]
  obtain a q where a: "proc_alloc name ps = (a, q)"
    by (cases "proc_alloc name ps")
  from i(1) a pid show thesis
  proof (cases rule: proc_alloc_cases)
    case full
    then show thesis
      using eq a that(1) by (simp add: proc_begin_user_def)
  next
    case (slot c x)
    note ne = slot(16) and pids = slot(17,18,20) and x = slot(19)
    note tq = tab_invD [OF slot(13)]
    define y where "y = x\<lparr>p_dir := ?k, p_brk := USER_HEAP_BASE\<rparr>"
    have y: "used y" "p_pid y = next_pid ps" "p_dir y = ?k" "p_state y = PROC_READY" "\<not> owns ?k y"
        "p_brk y = USER_HEAP_BASE" "p_ppid y = p_pid (proc_current ps)"
      using slot(5-7) by (simp_all add: y_def used_def owns_def)
    define q' where "q' = set_slot c y q"
    have q': "slot_of q' c = y" "current_idx q' = current_idx ps"
      using tq(1) slot(3,15) by (simp_all add: q'_def)
    have "tab_inv ?k q'"
      unfolding q'_def by (rule tab_inv_set_slot [OF slot(13,3)]) (use slot(2,15) ne y pids in auto)
    moreover have sp: "spaces ?k q' = spaces ?k ps"
      using spaces_keep [of ?k y q c] x y(5) slot(14) tq(1) by (simp add: q'_def)
    ultimately have inv': "proc_inv q' s L"
      using i(2-5) ne slot(12,15) tq(1) by (simp add: proc_inv_def proc_current_def q'_def)
    obtain r2 where sw: "proc_switch_to (next_pid ps) q' s = (r2, ps', s')"
      using eq a slot(1,11) q'(1) y(2) tq(1) slot(3)
      by (auto simp: proc_begin_user_def Let_def y_def q'_def split: prod.splits)
    from inv' sw show thesis
    proof (cases rule: proc_switch_to_cases)
      case refused
      then show thesis
        using q'(1) y(1-4) slot(3) t(11) by (metis proc_state.distinct(9))
    next
      case (switched j)
      have "j = c"
        using tab_invD(5) [OF proc_invD(1) [OF inv']] switched(2-4) q'(1) y(1,2) slot(3)
        by (auto simp: pids_ok_def)
      have "r = next_pid ps"
        using eq a slot(1,11) q'(1) y(2) tq(1) slot(3) sw switched(10) [OF slot(3)]
        by (auto simp: proc_begin_user_def Let_def y_def [symmetric] q'_def [symmetric] split: prod.splits)
      then show thesis
        using that(2) [of c] slot(2-4) switched sp q' y \<open>j = c\<close> by simp
    qed
  qed
qed

lemma proc_end_user_inv:
  assumes inv: "proc_inv ps s L" and eq: "proc_end_user pid ps s = (ps', s')"
  shows "proc_inv ps' s' L \<and> current_idx ps' = 0 \<and>
    (pid \<noteq> 0 \<longrightarrow> (\<forall>i<MAX_PROCS. used (slot_of ps' i) \<longrightarrow> p_pid (slot_of ps' i) \<noteq> pid))"
proof -
  note t = tab_invD [OF proc_invD(1) [OF inv]]
  obtain r q u where sw: "proc_switch_to 0 ps s = (r, q, u)"
    by (cases "proc_switch_to 0 ps s")
  have q: "proc_inv q u L \<and> current_idx q = 0"
    using inv sw
  proof (cases rule: proc_switch_to_cases)
    case refused
    then show ?thesis
      using t(2,3,9-11) by (metis MAX_PROCS_def zero_less_numeral)
  next
    case (switched i)
    then have "i = 0"
      using t(2,5,9) by (auto simp: pids_ok_def MAX_PROCS_def)
    then show ?thesis
      using switched by simp
  qed
  note tq = tab_invD [OF proc_invD(1) [OF conjunct1 [OF q]]]
  note get = proc_get_Some [OF proc_invD(1) [OF conjunct1 [OF q]], of pid]
  show ?thesis
  proof (cases "proc_get pid q")
    case None
    then show ?thesis
      using eq sw q get by (auto simp: proc_end_user_def)
  next
    case (Some i)
    then have i: "i < MAX_PROCS" "used (slot_of q i)" "p_pid (slot_of q i) = pid"
      using get by auto
    have fr: "proc_free (Some i) q u = (ps', s')"
      using eq sw Some by (simp add: proc_end_user_def)
    show ?thesis
    proof (cases "i = 0")
      case True
      then show ?thesis
        using fr q i(3) tq(9) by (simp add: proc_free_def)
    next
      case False
      note free = proc_free_inv [OF conjunct1 [OF q] i(1) False _ i(2) fr]
      have "p_pid (slot_of ps' j) \<noteq> pid" if "j < MAX_PROCS" "used (slot_of ps' j)" for j
        using that free(2,3) tq(5) i q False by (cases "j = i") (auto simp: pids_ok_def)
      then show ?thesis
        using free(1,4) q False by simp
    qed
  qed
qed

subsection \<open>Memory of the running processes\<close>

lemma scratch_pool: "vm_inv s D L \<Longrightarrow> d \<in> D \<Longrightarrow> scratch s d \<subseteq> pool (pmm_st s)"
  using table_in_held held_self vm_inv_pool(2) by (fastforce simp: fresh_def)

lemma proc_inv_memory:
  assumes inv: "proc_inv ps s L" and m: "modifies (pool (pmm_st s)) s s'"
    and vm: "vm_inv s' (spaces (kernel_dir s) ps) L'" and few: "\<forall>f. count L' f \<le> 238"
  shows "proc_inv ps s' L'"
  using proc_invD [OF inv] vm m few bare_modifies [OF m _ _ proc_invD(3) [OF inv]]
  by (auto simp: proc_inv_def modifies_def)

text \<open>
  The frames that \<open>vmm_map_alloc\<close> loses: a page that was mapped at the address is replaced and not given back, and a frame for
  which no page table can be had stays allocated.
\<close>

definition lost_by_map :: "u32 \<Rightarrow> u32 \<Rightarrow> bool \<Rightarrow> vm \<Rightarrow> u32 multiset" where
  "lost_by_map d v ok s =
     (if ok then page_ms (pte s d v) else if fst (alloc_frame s) = 0 then {#} else {#fst (alloc_frame s)#})"

lemma proc_inv_map:
  assumes inv: "proc_inv ps s L" and d: "d \<in> spaces (kernel_dir s) ps" and v: "0x800000 \<le> v"
    and few: "count L (FRAME_OF (pte s d v)) < 238" and eq: "vmm_map_alloc d v flags s = (ok, s')"
  shows "proc_inv ps s' (lost_by_map d v ok s + L)"
proof -
  note vm = proc_invD(4) [OF inv]
  have v: "user_addr v"
    using v by (simp add: user_addr_iff)
  from vm d v eq show ?thesis
  proof (cases rule: vmm_map_alloc_cases)
    case (leak p)
    have "{p} \<subseteq> pool (pmm_st s)" "owners (pmm_st s) p = 0"
      using leak(4) by (simp_all add: fresh_def)
    then have "count L p = 0"
      using vm_inv_ledger [OF vm, of p] by simp
    then have "count (add_mset p L) f \<le> 238" for f
      using proc_invD(5) [OF inv] by (cases "f = p") auto
    then show ?thesis
      using leak(1,2,6,7) \<open>{p} \<subseteq> pool (pmm_st s)\<close>
      by (intro proc_inv_memory [OF inv modifies_mono [OF leak(3)]]) (simp_all add: lost_by_map_def)
  next
    case (mapped p)
    have "count (page_ms (pte s d v) + L) f \<le> 238" for f
      using proc_invD(5) [OF inv] few by (auto simp: page_ms_def)
    then show ?thesis
      using mapped(1,2) scratch_pool [OF vm d]
      by (intro proc_inv_memory [OF inv modifies_mono [OF mapped(8)]]) (simp_all add: lost_by_map_def)
  qed (use inv in \<open>simp add: lost_by_map_def\<close>)
qed

lemma proc_inv_unmap:
  assumes inv: "proc_inv ps s L" and d: "d \<in> spaces (kernel_dir s) ps" and v: "0x800000 \<le> v"
  shows "proc_inv ps (vmm_unmap d v s) L"
proof -
  note vm = proc_invD(4) [OF inv]
  have v: "user_addr v"
    using v by (simp add: user_addr_iff)
  from vm d v show ?thesis
  proof (cases rule: vmm_unmap_cases)
    case present
    have "tables s d \<subseteq> pool (pmm_st s)"
      using scratch_pool [OF vm d] by blast
    then show ?thesis
      using present(2) proc_invD(5) [OF inv] by (intro proc_inv_memory [OF inv modifies_mono [OF present(4)]])
  qed (use inv in simp)
qed

lemma proc_inv_cow:
  assumes inv: "proc_inv ps s L" and d: "active_dir s \<in> spaces (kernel_dir s) ps" and v: "0x800000 \<le> v"
    and eq: "vmm_cow_handle v err s = (ok, s')"
  shows "proc_inv ps s' L"
proof -
  note vm = proc_invD(4) [OF inv]
  have v: "user_addr v"
    using v by (simp add: user_addr_iff)
  from vm d v eq show ?thesis
  proof (cases rule: vmm_cow_handle_cases)
    case (handled f)
    then show ?thesis
      using scratch_pool [OF vm d] proc_invD(5) [OF inv] by (intro proc_inv_memory [OF inv]) (auto intro: modifies_mono)
  qed (use inv in simp)
qed

lemma proc_inv_store:
  assumes inv: "proc_inv ps s L" and d: "d \<in> spaces (kernel_dir s) ps" and v: "0x800000 \<le> v"
    and wr: "bit (pte s d v) 0" "bit (pte s d v) 1"
  shows "proc_inv ps (user_store d v b s) L"
proof -
  note vm = proc_invD(4) [OF inv]
  have "FRAME_OF (pte s d v) \<in> pool (pmm_st s)"
    using pte_held [OF _ wr(1)] vm_inv_pool(2) [OF vm d] v by (metis user_addr_iff)
  then have "modifies (pool (pmm_st s)) s (user_store d v b s)"
    by (auto simp: modifies_def user_store_def FRAME_OF_phys)
  then show ?thesis
    using user_store_ok [OF vm d v wr] proc_invD(5) [OF inv] by (intro proc_inv_memory [OF inv]) auto
qed

section \<open>Reachable states\<close>

text \<open>
  Every state the kernel gets into by the calls of this theory from the moment \<open>kmain\<close> has set up
  memory and processes: processes start, fork, exit, wait and are switched; a page of a process is mapped, replaced or
  unmapped, with success or not; a process takes a copy-on-write fault and stores to its memory.  \<open>L\<close> counts the references to
  frames that mappings have lost.  Two counters of the kernel are taken to have room: \<open>next_pid\<close> has not reached the largest \<open>int\<close>, whose
  increment C leaves undefined, and no frame is lost more than 238 times.
\<close>

inductive kernel_reach :: "procs \<Rightarrow> vm \<Rightarrow> u32 multiset \<Rightarrow> bool" where
  boot: "boot_layout s \<Longrightarrow> page_directory s \<noteq> 0 \<Longrightarrow>
    kernel_reach (proc_install (kernel_boot s) procs_boot) (kernel_boot s) {#}"
| spawn: "kernel_reach ps s L \<Longrightarrow> next_pid ps < 0x7FFFFFFF \<Longrightarrow> proc_spawn name ps s = (r, ps', s') \<Longrightarrow> kernel_reach ps' s' L"
| fork: "kernel_reach ps s L \<Longrightarrow> next_pid ps < 0x7FFFFFFF \<Longrightarrow> proc_fork ps s = (pid, ps', s') \<Longrightarrow> kernel_reach ps' s' L"
| exit: "kernel_reach ps s L \<Longrightarrow> proc_exit code ps s = (ps', s') \<Longrightarrow> kernel_reach ps' s' L"
| wait: "kernel_reach ps s L \<Longrightarrow> proc_wait ps s = (st, ps', s') \<Longrightarrow> kernel_reach ps' s' L"
| switch: "kernel_reach ps s L \<Longrightarrow> proc_switch_to pid ps s = (rc, ps', s') \<Longrightarrow> kernel_reach ps' s' L"
| begin_user: "kernel_reach ps s L \<Longrightarrow> next_pid ps < 0x7FFFFFFF \<Longrightarrow> proc_begin_user n ps s = (pid, ps', s') \<Longrightarrow> kernel_reach ps' s' L"
| end_user: "kernel_reach ps s L \<Longrightarrow> proc_end_user pid ps s = (ps', s') \<Longrightarrow> kernel_reach ps' s' L"
| map_page: "kernel_reach ps s L \<Longrightarrow> d \<in> spaces (kernel_dir s) ps \<Longrightarrow> 0x800000 \<le> v \<Longrightarrow> count L (FRAME_OF (pte s d v)) < 238 \<Longrightarrow>
    vmm_map_alloc d v flags s = (ok, s') \<Longrightarrow> kernel_reach ps s' (lost_by_map d v ok s + L)"
| unmap_page: "kernel_reach ps s L \<Longrightarrow> d \<in> spaces (kernel_dir s) ps \<Longrightarrow> 0x800000 \<le> v \<Longrightarrow> kernel_reach ps (vmm_unmap d v s) L"
| write_fault: "kernel_reach ps s L \<Longrightarrow> active_dir s \<in> spaces (kernel_dir s) ps \<Longrightarrow> 0x800000 \<le> v \<Longrightarrow>
    vmm_cow_handle v err s = (ok, s') \<Longrightarrow> kernel_reach ps s' L"
| store: "kernel_reach ps s L \<Longrightarrow> d \<in> spaces (kernel_dir s) ps \<Longrightarrow> 0x800000 \<le> v \<Longrightarrow>
    bit (pte s d v) 0 \<Longrightarrow> bit (pte s d v) 1 \<Longrightarrow> kernel_reach ps (user_store d v b s) L"

lemma proc_inv_boot:
  assumes "boot_layout s" "page_directory s \<noteq> 0"
  shows "proc_inv (proc_install (kernel_boot s) procs_boot) (kernel_boot s) {#}"
proof -
  let ?ps = "proc_install (kernel_boot s) procs_boot" let ?k = "page_directory s"
  have k: "kernel_dir (kernel_boot s) = ?k" "cr3 (kernel_boot s) = ?k"
    by (simp_all add: kernel_boot_def vmm_install_def)
  define z where "z = zero_proc\<lparr>p_state := PROC_RUNNING, p_dir := ?k,
    p_name := strncpy_z (p_name zero_proc) (bytes_of (str ''kernel'')) PROC_NAME\<rparr>"
  have z: "used z" "p_pid z = 0" "p_dir z = ?k" "p_state z = PROC_RUNNING" "\<not> owns ?k z"
    by (simp_all add: z_def used_def zero_proc_def owns_def)
  have u: "\<not> used zero_proc" "\<not> owns ?k zero_proc" "p_state zero_proc \<noteq> PROC_RUNNING"
    by (simp_all add: zero_proc_def used_def owns_def)
  have sl: "slot_of ?ps i = (if i = 0 then z else zero_proc)" if "i < MAX_PROCS" for i
    using that by (simp add: slot_of_def proc_install_def k z_def zero_proc_def nth_list_update)
  have f: "length (table ?ps) = MAX_PROCS" "current_idx ?ps = 0" "next_pid ?ps = 1" "0 < MAX_PROCS"
    by (simp_all add: proc_install_def procs_boot_def MAX_PROCS_def)
  have "tab_inv ?k ?ps"
    using z u f assms(2) by (auto simp: tab_inv_def one_running_def pids_ok_def dirs_ok_def zombies_ok_def sl)
  moreover have "spaces ?k ?ps = {}"
    using z(5) u(2) by (auto simp: spaces_def sl)
  moreover have "bare (kernel_boot s)"
  proof -
    have "get_entry (kernel_boot s) a i = get_entry (paging_install s) a i" for a i
      by (simp add: kernel_boot_def vmm_install_def get_entry_def)
    moreover have "i \<noteq> 0" "i \<noteq> 1" if "i \<in> {2..<1024}" for i :: u32
      using that by (auto simp: word_le_nat_alt)
    ultimately show ?thesis
      using paging_install_entries(1) [OF assms(1)] by (simp add: bare_def k)
  qed
  ultimately show ?thesis
    using kernel_boot_inv [OF assms(1)] f(2,4) z(3) by (simp add: proc_inv_def k proc_current_def sl)
qed

lemma kernel_reach_inv: "kernel_reach ps s L \<Longrightarrow> proc_inv ps s L"
proof (induction rule: kernel_reach.induct)
  case (boot s)
  then show ?case by (rule proc_inv_boot)
next
  case (spawn ps s L name r ps' s')
  then show ?case using proc_spawn_inv by blast
next
  case (fork ps s L pid ps' s')
  from fork(4,3,2) show ?case by (cases rule: proc_fork_cases) (use fork(4) in simp_all)
next
  case (exit ps s L code ps' s')
  from exit(3,2) show ?case by (cases rule: proc_exit_cases) (use exit(3) in simp_all)
next
  case (wait ps s L st ps' s')
  from wait(3,2) show ?case
  proof (cases rule: proc_wait_cases)
    case (reaped i)
    then show ?thesis using proc_free_inv(1) [OF wait(3)] by blast
  qed (use wait(3) in simp)
next
  case (switch ps s L pid rc ps' s')
  from switch(3,2) show ?case by (cases rule: proc_switch_to_cases) (use switch(3) in simp_all)
next
  case (begin_user ps s L n pid ps' s')
  from begin_user(4,3,2) show ?case by (cases rule: proc_begin_user_cases) (use begin_user(4) in simp_all)
next
  case (end_user ps s L pid ps' s')
  then show ?case using proc_end_user_inv by blast
next
  case (map_page ps s L d v flags ok s')
  then show ?case using proc_inv_map by blast
next
  case (unmap_page ps s L d v)
  then show ?case using proc_inv_unmap by blast
next
  case (write_fault ps s L v err ok s')
  then show ?case using proc_inv_cow by blast
next
  case (store ps s L d v b)
  then show ?case using proc_inv_store by blast
qed

section \<open>Properties of the process table\<close>

text \<open>
  C1.  In every reachable state exactly one process is running, it is the current one and its page
  directory is in CR3; live processes have different pids and different address spaces.  The owner
  count of every frame is the number of processes whose address space holds it, plus the references to it that mappings have
  lost, by failing for want of a page table or by replacing a page; nothing else loses a frame: once no process has an address space of its
  own, every frame of the pool that was not lost in this way is free again.
\<close>

theorem kernel_reach_correct:
  assumes "kernel_reach ps s L"
  shows "(\<forall>i<MAX_PROCS. p_state (slot_of ps i) = PROC_RUNNING \<longleftrightarrow> i = current_idx ps) \<and>
    current_idx ps < MAX_PROCS \<and> cr3 s = p_dir (proc_current ps) \<and>
    (\<forall>i<MAX_PROCS. \<forall>j<MAX_PROCS. used (slot_of ps i) \<and> used (slot_of ps j) \<and> i \<noteq> j \<longrightarrow>
       p_pid (slot_of ps i) \<noteq> p_pid (slot_of ps j) \<and>
       (owns (kernel_dir s) (slot_of ps i) \<longrightarrow> p_dir (slot_of ps i) \<noteq> p_dir (slot_of ps j))) \<and>
    (\<forall>f\<in>pool (pmm_st s). owners (pmm_st s) f = card {d \<in> spaces (kernel_dir s) ps. f \<in># held s d} + count L f) \<and>
    set_mset L \<subseteq> pool (pmm_st s) \<and>
    ((\<forall>i<MAX_PROCS. \<not> owns (kernel_dir s) (slot_of ps i)) \<longrightarrow>
       unat (pmm_free_frames (pmm_st s)) = card (pool (pmm_st s) - set_mset L))"
proof -
  let ?k = "kernel_dir s" let ?D = "spaces (kernel_dir s) ps"
  note i = proc_invD [OF kernel_reach_inv [OF assms]] and t = tab_invD [OF proc_invD(1) [OF kernel_reach_inv [OF assms]]]
  have own: "owners (pmm_st s) f = card {d \<in> ?D. f \<in># held s d} + count L f" if "f \<in> pool (pmm_st s)" for f
  proof -
    have "count (held s d) f = (if f \<in># held s d then 1 else 0)" if "d \<in> ?D" for d
      using vm_inv_once [OF i(4) that, of f] by (auto simp: not_in_iff le_Suc_eq simp flip: count_greater_zero_iff)
    then have "(\<Sum>d\<in>?D. count (held s d) f) = card {d \<in> ?D. f \<in># held s d}"
      using spaces_card(1) by (simp add: sum.If_cases Int_def)
    then show ?thesis
      using vm_inv_ledger [OF i(4) that] by (simp add: all_held_def count_sum)
  qed
  have "unat (pmm_free_frames (pmm_st s)) = card (pool (pmm_st s) - set_mset L)" if "\<forall>i<MAX_PROCS. \<not> owns ?k (slot_of ps i)"
  proof -
    have "?D = {}"
      using that by (auto simp: spaces_def)
    then have "fp.free_frames (pmm_st s) = pool (pmm_st s) - set_mset L"
      using own by (auto simp: fp.free_frames_def count_eq_zero_iff)
    then show ?thesis
      using pmm_free_frames_card [OF vm_inv_pmm [OF i(4)]] by simp
  qed
  moreover have "p_dir (slot_of ps a) \<noteq> p_dir (slot_of ps b)"
    if "a < MAX_PROCS" "b < MAX_PROCS" "a \<noteq> b" "owns ?k (slot_of ps a)" "used (slot_of ps b)" for a b
    using that t(6) by (auto simp: dirs_ok_def owns_def)
  moreover have "set_mset L \<subseteq> pool (pmm_st s)"
    using vm_inv_pool(1) [OF i(4)] by blast
  ultimately show ?thesis
    using own i(2) t(4,5,7) by (auto simp: one_running_def pids_ok_def)
qed

text \<open>
  C17.  \<open>proc_fork\<close>, as long as \<open>next_pid\<close> is not the largest \<open>int\<close>, makes one new process with the next pid: a ready child of the
  caller with an address space of its own, in which every address the parent had mapped holds the parent's bytes.  Or it fails with -1:
  then no process appears, and every address space holds the frames it held.  Either way the parent stays the current process, no slot of an existing process changes, no byte
  of any process changes, and neither do the page table entries of other processes; those of the parent stay or become read-only and, if they
  were writable, copy-on-write.
\<close>

theorem proc_fork_correct:
  assumes "proc_inv ps s L" "proc_fork ps s = (pid, ps', s')" "next_pid ps < 0x7FFFFFFF"
  shows "proc_inv ps' s' L \<and> current_idx ps' = current_idx ps \<and>
    (\<forall>i<MAX_PROCS. used (slot_of ps i) \<longrightarrow> slot_of ps' i = slot_of ps i) \<and>
    (\<forall>d\<in>spaces (kernel_dir s) ps - {p_dir (proc_current ps)}. unchanged s s' d) \<and>
    (\<forall>v\<ge>0x800000. bit (pte s (p_dir (proc_current ps)) v) 0 \<longrightarrow>
       byte_at s' (p_dir (proc_current ps)) v = byte_at s (p_dir (proc_current ps)) v) \<and>
    (\<forall>v\<ge>0x800000. pte s' (p_dir (proc_current ps)) v \<in> {pte s (p_dir (proc_current ps)) v, share (pte s (p_dir (proc_current ps)) v)}) \<and>
    (if pid = -1 then (\<forall>i<MAX_PROCS. used (slot_of ps' i) \<longrightarrow> used (slot_of ps i)) \<and>
       (\<forall>d\<in>spaces (kernel_dir s) ps. held s' d = held s d)
     else pid = next_pid ps \<and>
       (\<exists>c<MAX_PROCS. \<not> used (slot_of ps c) \<and> p_pid (slot_of ps' c) = pid \<and> p_state (slot_of ps' c) = PROC_READY \<and>
          (\<forall>i<MAX_PROCS. used (slot_of ps' i) \<longleftrightarrow> used (slot_of ps i) \<or> i = c) \<and>
          p_ppid (slot_of ps' c) = p_pid (proc_current ps) \<and> p_brk (slot_of ps' c) = p_brk (proc_current ps) \<and>
          p_entry (slot_of ps' c) = p_entry (proc_current ps) \<and> owns (kernel_dir s) (slot_of ps' c) \<and>
          (\<forall>v\<ge>0x800000.
             (bit (pte s' (p_dir (slot_of ps' c)) v) 0 \<longleftrightarrow> bit (pte s (p_dir (proc_current ps)) v) 0) \<and>
             (bit (pte s (p_dir (proc_current ps)) v) 0 \<longrightarrow>
                byte_at s' (p_dir (slot_of ps' c)) v = byte_at s (p_dir (proc_current ps)) v))))"
  using assms
proof (cases rule: proc_fork_cases)
  case full
  then show ?thesis
    using assms(1) by simp
next
  case (no_memory c)
  have slots: "\<forall>i<MAX_PROCS. used (slot_of ps i) \<longrightarrow> slot_of ps' i = slot_of ps i"
    "\<forall>i<MAX_PROCS. used (slot_of ps' i) \<longrightarrow> used (slot_of ps i)"
    using no_memory(4,5,7) by metis+
  show ?thesis
    unfolding if_P [OF no_memory(1)]
    by (intro conjI; (rule no_memory slots clone_current(3,4,7) [OF assms(1) refl no_memory(6)]
      conjunct2 [OF clone_current(5) [OF assms(1) refl no_memory(6) refl]]))
next
  case (forked c d t)
  note clone = clone_current [OF assms(1) refl forked(6)]
  have pid: "pid \<noteq> -1"
    using forked(1) tab_invD(5) [OF proc_invD(1) [OF assms(1)]] by (simp add: pids_ok_def)
  have slots: "\<forall>i<MAX_PROCS. used (slot_of ps i) \<longrightarrow> slot_of ps' i = slot_of ps i"
    using forked(4,8) by metis
  have child: "p_pid (slot_of ps' c) = pid" "owns (kernel_dir s) (slot_of ps' c)"
    using clone(6) [OF forked(5)] forked(1,5,9,11,12) by (simp_all add: owns_def used_def)
  have others: "\<forall>d\<in>spaces (kernel_dir s) ps - {p_dir (proc_current ps)}. unchanged s s' d"
    using clone(3) by (simp add: forked(7) unchanged_def same_view_def)
  have view: "\<forall>v\<ge>0x800000.
     (bit (pte s' (p_dir (slot_of ps' c)) v) 0 \<longleftrightarrow> bit (pte s (p_dir (proc_current ps)) v) 0) \<and>
     (bit (pte s (p_dir (proc_current ps)) v) 0 \<longrightarrow>
        byte_at s' (p_dir (slot_of ps' c)) v = byte_at s (p_dir (proc_current ps)) v)"
    using clone(6) [OF forked(5)] by (simp add: forked(7,12))
  have kept: "\<forall>v\<ge>0x800000. bit (pte s (p_dir (proc_current ps)) v) 0 \<longrightarrow>
       byte_at s' (p_dir (proc_current ps)) v = byte_at s (p_dir (proc_current ps)) v"
    using clone(4) by (simp add: forked(7))
  have entries: "\<forall>v\<ge>0x800000. pte s' (p_dir (proc_current ps)) v \<in> {pte s (p_dir (proc_current ps)) v, share (pte s (p_dir (proc_current ps)) v)}"
    using clone(7) by (simp add: forked(7))
  have used: "\<forall>i<MAX_PROCS. used (slot_of ps' i) \<longleftrightarrow> used (slot_of ps i) \<or> i = c"
    using forked(8,11) by (metis proc_state.distinct(1) used_def)
  show ?thesis
    unfolding if_not_P [OF pid]
    by (intro conjI exI [of _ c]; (rule forked slots child others view kept entries used))
qed

lemma unchanged_into_switch [simp]: "unchanged s (vmm_switch d t) c \<longleftrightarrow> unchanged s t c"
  by (simp add: unchanged_def same_view_def)

text \<open>The last of \<open>n + 1\<close> calls of \<open>proc_wait\<close> in a row.\<close>

primrec proc_waits :: "nat \<Rightarrow> procs \<Rightarrow> vm \<Rightarrow> (int \<times> int option) \<times> procs \<times> vm" where
  "proc_waits 0 ps s = proc_wait ps s"
| "proc_waits (Suc n) ps s = (case proc_wait ps s of (_, ps, s) \<Rightarrow> proc_waits n ps s)"

text \<open>The slots below \<open>c\<close> with a finished child of the process with pid \<open>me\<close>, which \<open>proc_wait\<close> finds first.\<close>

definition ahead_of :: "nat \<Rightarrow> int \<Rightarrow> procs \<Rightarrow> nat set" where
  "ahead_of c me ps = {i. 0 < i \<and> i < c \<and> p_state (slot_of ps i) = PROC_ZOMBIE \<and> p_ppid (slot_of ps i) = me}"

lemma finite_ahead_of [simp]: "finite (ahead_of c me ps)"
  by (rule finite_subset [of _ "{..<c}"]) (auto simp: ahead_of_def)

lemma proc_wait_zombie:
  assumes "proc_inv ps s L" "0 < c" "c < MAX_PROCS" "p_state (slot_of ps c) = PROC_ZOMBIE" "p_ppid (slot_of ps c) = p_pid (proc_current ps)"
  obtains i ps' where "proc_wait ps s = ((p_pid (slot_of ps i), Some (p_exit_code (slot_of ps i))), ps', s)" "proc_inv ps' s L"
    "0 < i" "i \<le> c" "i = c \<or> i \<in> ahead_of c (p_pid (proc_current ps)) ps" "ahead_of i (p_pid (proc_current ps)) ps = {}"
    "\<not> used (slot_of ps' i)" "\<forall>j. j \<noteq> i \<longrightarrow> slot_of ps' j = slot_of ps j" "proc_current ps' = proc_current ps"
proof -
  obtain r ps' s' where w: "proc_wait ps s = (r, ps', s')"
    by (cases "proc_wait ps s")
  from assms(1) w show thesis
  proof (cases rule: proc_wait_cases)
    case none
    then show thesis
      using assms(2-5) by blast
  next
    case (reaped i)
    note free = proc_free_inv [OF assms(1) reaped(2) _ reaped(3,4,8)]
    have "\<not> owns (kernel_dir s) (slot_of ps i)"
      using tab_invD(13) [OF proc_invD(1) [OF assms(1)]] reaped(2,5) by (simp add: zombies_ok_def)
    then have "s' = s"
      using free(8) reaped(1) by simp
    moreover have "i \<le> c"
      using reaped(9) assms(2,4,5) by (metis not_le)
    moreover have "proc_current ps' = proc_current ps"
      using free(3,4) reaped(1,3) by (simp add: proc_current_def)
    moreover have "i = c \<or> i \<in> ahead_of c (p_pid (proc_current ps)) ps" "ahead_of i (p_pid (proc_current ps)) ps = {}"
      using \<open>i \<le> c\<close> reaped(1,5,6,9) unfolding ahead_of_def by (force, blast)
    ultimately show thesis
      using that [of i ps'] w reaped(1,7) free(1-3) by simp
  qed
qed

lemma proc_waits_zombie:
  assumes "proc_inv ps s L" "0 < c" "c < MAX_PROCS" "p_state (slot_of ps c) = PROC_ZOMBIE" "p_ppid (slot_of ps c) = p_pid (proc_current ps)"
    and "n = card (ahead_of c (p_pid (proc_current ps)) ps)"
  shows "\<exists>ps'. proc_waits n ps s = ((p_pid (slot_of ps c), Some (p_exit_code (slot_of ps c))), ps', s) \<and> proc_inv ps' s L \<and>
    \<not> used (slot_of ps' c) \<and> (\<forall>j. used (slot_of ps' j) \<longrightarrow> slot_of ps' j = slot_of ps j)"
  using assms
proof (induction n arbitrary: ps)
  case 0
  obtain i ps' where i: "proc_wait ps s = ((p_pid (slot_of ps i), Some (p_exit_code (slot_of ps i))), ps', s)" "proc_inv ps' s L"
    "i = c \<or> i \<in> ahead_of c (p_pid (proc_current ps)) ps" "\<not> used (slot_of ps' i)" "\<forall>j. j \<noteq> i \<longrightarrow> slot_of ps' j = slot_of ps j"
    using proc_wait_zombie [OF 0(1-5)] by metis
  then have "i = c"
    using 0(6) by simp
  then show ?case
    using i by (metis proc_waits.simps(1))
next
  case (Suc n)
  let ?me = "p_pid (proc_current ps)"
  obtain i ps' where i: "proc_wait ps s = ((p_pid (slot_of ps i), Some (p_exit_code (slot_of ps i))), ps', s)" "proc_inv ps' s L"
    "i = c \<or> i \<in> ahead_of c ?me ps" "ahead_of i ?me ps = {}" "\<not> used (slot_of ps' i)" "\<forall>j. j \<noteq> i \<longrightarrow> slot_of ps' j = slot_of ps j"
    "proc_current ps' = proc_current ps"
    using proc_wait_zombie [OF Suc(2-6)] by metis
  have ne: "i \<noteq> c"
    using Suc(7) i(4) by auto
  have "ahead_of c ?me ps' = ahead_of c ?me ps - {i}"
    using i(5,6) by (auto simp: ahead_of_def used_def) (metis proc_state.distinct(5))+
  then have "n = card (ahead_of c (p_pid (proc_current ps')) ps')"
    using Suc(7) i(3,7) ne by simp
  moreover have "slot_of ps' c = slot_of ps c"
    using i(6) ne by simp
  ultimately obtain ps'' where "proc_waits n ps' s = ((p_pid (slot_of ps c), Some (p_exit_code (slot_of ps c))), ps'', s)" "proc_inv ps'' s L"
    "\<not> used (slot_of ps'' c)" "\<forall>j. used (slot_of ps'' j) \<longrightarrow> slot_of ps'' j = slot_of ps' j"
    using Suc(1) [OF i(2) Suc(3,4)] Suc(5,6) i(7) by auto
  then show ?case
    using i(1,5,6) by (metis case_prod_conv proc_waits.simps(2))
qed

text \<open>
  C18.  The exit handshake.  A process that exits gives back its address space at once: every frame
  loses exactly the owner this process was, and no other process's memory changes.  Its children go to
  the kernel.  When its parent is then switched to and calls \<open>proc_wait\<close>, once for every finished child in a lower slot and once
  more, it receives the pid and the exit code, and the slot is free again.
\<close>

theorem proc_exit_wait:
  assumes inv: "proc_inv ps s L" and run: "p_pid (proc_current ps) \<noteq> 0"
    and ex: "proc_exit code ps s = (ps1, s1)"
    and sw: "proc_switch_to (p_ppid (proc_current ps)) ps1 s1 = (0, ps2, s2)"
    and wt: "proc_waits (card (ahead_of (current_idx ps) (p_ppid (proc_current ps)) ps1)) ps2 s2 = (r, ps3, s3)"
  shows "r = (p_pid (proc_current ps), Some code) \<and> proc_inv ps3 s3 L \<and>
    proc_get (p_pid (proc_current ps)) ps3 = None \<and> \<not> used (slot_of ps3 (current_idx ps)) \<and>
    (\<forall>i<MAX_PROCS. 0 < i \<and> used (slot_of ps i) \<and> p_ppid (slot_of ps i) = p_pid (proc_current ps) \<longrightarrow>
       p_ppid (slot_of ps1 i) = 0) \<and>
    (\<forall>d\<in>spaces (kernel_dir s) ps - {p_dir (proc_current ps)}. unchanged s s3 d) \<and>
    (\<forall>f\<in>pool (pmm_st s). owners (pmm_st s) f = owners (pmm_st s3) f +
       (if owns (kernel_dir s) (proc_current ps) then count (held s (p_dir (proc_current ps))) f else 0))"
  using inv ex
proof (cases rule: proc_exit_cases)
  case kernel
  then show ?thesis
    using run tab_invD(9) [OF proc_invD(1) [OF inv]] by (simp add: proc_current_def)
next
  case (dead c)
  let ?k = "kernel_dir s" let ?P = "slot_of ps c"
  have P: "proc_current ps = ?P"
    by (simp add: proc_current_def dead(1))
  note t1 = tab_invD [OF proc_invD(1) [OF dead(5)]]
  let ?t = "vmm_switch ?k s"
  have inv_t: "vm_inv ?t (spaces ?k ps) L"
    using proc_invD(4) [OF inv] by simp
  have vm: "(\<forall>d\<in>spaces ?k ps - {p_dir ?P}. unchanged s s1 d) \<and>
    (\<forall>f\<in>pool (pmm_st s). owners (pmm_st s) f = owners (pmm_st s1) f +
       (if owns ?k ?P then count (held s (p_dir ?P)) f else 0))"
  proof (cases "owns ?k ?P")
    case True
    then show ?thesis
      using vmm_destroy_dir_ok [OF inv_t, of "p_dir ?P"] in_spaces [OF dead(3) True]
      by (simp add: dead(16))
  qed (simp add: dead(16) unchanged_def same_view_def)
  from dead(5) sw show ?thesis
  proof (cases rule: proc_switch_to_cases)
    case (switched i)
    have ic: "i \<noteq> c"
      using switched(5) dead(8) by auto
    have c2: "slot_of ps2 c = slot_of ps1 c"
      using switched(10) [OF dead(3)] ic dead(2,6) by simp
    have q: "p_pid (proc_current ps2) = p_ppid ?P"
      using switched(4,7) switched(10) [OF switched(2)] P by (simp add: proc_current_def)
    have pp: "p_ppid ?P \<noteq> p_pid ?P"
      using ic t1(5) switched(2-4) dead(3,8,10) by (auto simp: pids_ok_def P used_def)
    have zc: "p_state (slot_of ps2 c) = PROC_ZOMBIE" "p_ppid (slot_of ps2 c) = p_pid (proc_current ps2)"
      using dead(8) dead(12) [OF dead(3)] pp q by (simp_all add: c2)
    have st: "p_state (slot_of ps2 j) = PROC_ZOMBIE \<longleftrightarrow> p_state (slot_of ps1 j) = PROC_ZOMBIE" "p_ppid (slot_of ps2 j) = p_ppid (slot_of ps1 j)"
      if "j < MAX_PROCS" for j
      using switched(10) [OF that] switched(5) t1(8) by (auto split: if_splits)
    then have "ahead_of c (p_ppid ?P) ps2 = ahead_of c (p_ppid ?P) ps1"
      using dead(3) by (auto simp: ahead_of_def)
    from proc_waits_zombie [OF switched(12) dead(2,3) zc refl] this obtain ps' where
      w: "proc_waits (card (ahead_of c (p_ppid ?P) ps1)) ps2 s2 = ((p_pid (slot_of ps2 c), Some (p_exit_code (slot_of ps2 c))), ps', s2)"
        "proc_inv ps' s2 L" "\<not> used (slot_of ps' c)" "\<forall>j. used (slot_of ps' j) \<longrightarrow> slot_of ps' j = slot_of ps2 j"
      unfolding q by metis
    then have r: "r = (p_pid ?P, Some code)" "ps3 = ps'" "s3 = s2"
      using wt dead(9,10) c2 by (simp_all add: P dead(1) [symmetric])
    have "p_pid (slot_of ps' l) \<noteq> p_pid ?P" if "l < MAX_PROCS" "used (slot_of ps' l)" for l
    proof -
      have "l \<noteq> c" "slot_of ps' l = slot_of ps2 l" "used (slot_of ps2 l)"
        using w(3,4) that(2) by auto
      then show ?thesis
        using that(1) tab_invD(5) [OF proc_invD(1) [OF switched(12)]] dead(3,8,10) c2
        by (auto simp: pids_ok_def used_def)
    qed
    then have "proc_get (p_pid ?P) ps' = None"
      using proc_get_Some [OF proc_invD(1) [OF w(2)], of "p_pid ?P"] by (cases "proc_get (p_pid ?P) ps'") auto
    moreover have "pmm_st s2 = pmm_st s1"
      by (simp add: switched(8) vmm_switch_def)
    moreover have "unchanged s s2 d = unchanged s s1 d" for d
      by (simp add: switched(8))
    ultimately show ?thesis
      using r w(2,3) vm dead(12) by (simp add: P dead(1) [symmetric])
  qed simp
qed

section \<open>Witnesses\<close>

text \<open>The booted kernel, its first fork, and the child running.\<close>

definition booted :: "procs \<times> vm" where
  "booted = (proc_install (kernel_boot boot_vm) procs_boot, kernel_boot boot_vm)"

definition first_fork :: "int \<times> procs \<times> vm" where
  "first_fork = proc_fork (fst booted) (snd booted)"

definition first_child :: "procs \<times> vm" where
  "first_child = snd (proc_switch_to 1 (fst (snd first_fork)) (snd (snd first_fork)))"

lemma booted_inv:
  "kernel_reach (fst booted) (snd booted) {#}" "proc_inv (fst booted) (snd booted) {#}" "next_pid (fst booted) = 1"
  "i < MAX_PROCS \<Longrightarrow> used (slot_of (fst booted) i) \<longleftrightarrow> i = 0" "current_idx (fst booted) = 0"
  "spaces (kernel_dir (snd booted)) (fst booted) = {}"
proof -
  show r: "kernel_reach (fst booted) (snd booted) {#}"
    unfolding booted_def fst_conv snd_conv
    by (rule kernel_reach.boot [OF boot_vm_layout]) (simp add: boot_vm_def)
  then show "proc_inv (fst booted) (snd booted) {#}"
    by (rule kernel_reach_inv)
  show "next_pid (fst booted) = 1" "current_idx (fst booted) = 0"
    by (simp_all add: booted_def proc_install_def procs_boot_def)
  show us: "used (slot_of (fst booted) i) \<longleftrightarrow> i = 0" if "i < MAX_PROCS" for i
    using that by (simp add: booted_def proc_install_def slot_of_def nth_list_update used_def zero_proc_def)
  show "spaces (kernel_dir (snd booted)) (fst booted) = {}"
    using us tab_invD(10) [OF proc_invD(1) [OF kernel_reach_inv [OF r]]] by (auto simp: spaces_def owns_def)
qed

lemma first_fork_pid: "fst first_fork = 1"
proof -
  let ?ps = "fst booted" let ?s = "snd booted"
  have eq: "proc_fork ?ps ?s = (fst first_fork, fst (snd first_fork), snd (snd first_fork))"
    by (simp add: first_fork_def)
  note i = proc_invD [OF booted_inv(2)] and t = tab_invD [OF proc_invD(1) [OF booted_inv(2)]]
  have pid: "next_pid ?ps < 0x7FFFFFFF"
    by (simp add: booted_inv(3))
  from booted_inv(2) eq pid show ?thesis
  proof (cases rule: proc_fork_cases)
    case full
    then show ?thesis
      using booted_inv(4) [of 1] by (simp add: MAX_PROCS_def)
  next
    case (no_memory c)
    have "vmm_create_dir ?s = (0, snd (snd first_fork))"
      using no_memory(6) clone_kernel [OF i(4,3) t(11)] t(10) booted_inv(5) by (simp add: proc_current_def)
    with i(4) have "pmm_free_frames (pmm_st ?s) = 0"
      by (cases rule: vmm_create_dir_cases) auto
    then show ?thesis
      using boot_free_frames by (simp add: booted_def kernel_boot_fields)
  qed (simp add: booted_inv(3))
qed

lemma first_child_inv:
  "proc_inv (fst first_child) (snd first_child) {#}" "p_pid (proc_current (fst first_child)) = 1"
  "p_ppid (proc_current (fst first_child)) = 0" "\<forall>i<MAX_PROCS. p_state (slot_of (fst first_child) i) \<noteq> PROC_ZOMBIE"
proof -
  have eq: "proc_fork (fst booted) (snd booted) = (fst first_fork, fst (snd first_fork), snd (snd first_fork))"
    by (simp add: first_fork_def)
  obtain rc where sw: "proc_switch_to 1 (fst (snd first_fork)) (snd (snd first_fork)) = (rc, fst first_child, snd first_child)"
    by (cases "proc_switch_to 1 (fst (snd first_fork)) (snd (snd first_fork))") (simp add: first_child_def)
  note t = tab_invD [OF proc_invD(1) [OF booted_inv(2)]]
  have pid: "next_pid (fst booted) < 0x7FFFFFFF"
    by (simp add: booted_inv(3))
  have "proc_inv (fst first_child) (snd first_child) {#} \<and> p_pid (proc_current (fst first_child)) = 1 \<and>
    p_ppid (proc_current (fst first_child)) = 0 \<and>
    (\<forall>i<MAX_PROCS. p_state (slot_of (fst first_child) i) \<noteq> PROC_ZOMBIE)"
    using booted_inv(2) eq pid
  proof (cases rule: proc_fork_cases)
    case (forked c d u)
    have used: "used (slot_of (fst (snd first_fork)) c)"
      using forked(11) by (simp add: used_def)
    have nz: "p_state (slot_of (fst (snd first_fork)) i) \<noteq> PROC_ZOMBIE" if "i < MAX_PROCS" for i
      using forked(8) [of i] forked(11) booted_inv(4) [OF that] t(3) by (cases "i = c"; cases "i = 0") (auto simp: used_def)
    from forked(15) sw show ?thesis
    proof (cases rule: proc_switch_to_cases)
      case refused
      then show ?thesis
        using forked(3,5,9,11,12) used booted_inv(3) by auto
    next
      case (switched i)
      have "i = c"
        using tab_invD(5) [OF proc_invD(1) [OF forked(15)]] switched(2-4) forked(3,9) used booted_inv(3)
        by (auto simp: pids_ok_def)
      moreover have "p_ppid (slot_of (fst (snd first_fork)) c) = 0"
        using forked(10) t(9) booted_inv(5) by (simp add: proc_current_def)
      ultimately show ?thesis
        using switched(2,4,7,12) switched(10) nz by (auto simp: proc_current_def)
    qed
  qed (use first_fork_pid in simp_all)
  then show "proc_inv (fst first_child) (snd first_child) {#}" "p_pid (proc_current (fst first_child)) = 1"
    "p_ppid (proc_current (fst first_child)) = 0" "\<forall>i<MAX_PROCS. p_state (slot_of (fst first_child) i) \<noteq> PROC_ZOMBIE"
    by blast+
qed

lemma first_child_reached: "kernel_reach (fst first_child) (snd first_child) {#}"
proof -
  have "kernel_reach (fst (snd first_fork)) (snd (snd first_fork)) {#}"
    by (rule kernel_reach.fork [OF booted_inv(1), of "fst first_fork"]) (simp_all add: booted_inv(3) first_fork_def)
  then show ?thesis
    by (rule kernel_reach.switch [where pid = 1 and rc = "fst (proc_switch_to 1 (fst (snd first_fork)) (snd (snd first_fork)))"])
      (simp add: first_child_def)
qed

theorem kernel_reach_correct_witness:
  "unat (pmm_free_frames (pmm_st (snd booted))) = card (pool (pmm_st (snd booted))) \<and>
   cr3 (snd first_child) = p_dir (proc_current (fst first_child)) \<and>
   {f \<in> pool (pmm_st (snd first_child)). owners (pmm_st (snd first_child)) f \<noteq>
      card {d \<in> spaces (kernel_dir (snd first_child)) (fst first_child). f \<in># held (snd first_child) d}} = {}"
proof -
  have "\<not> owns (kernel_dir (snd booted)) (slot_of (fst booted) i)" if "i < MAX_PROCS" for i
    using in_spaces [OF that] booted_inv(6) by fastforce
  then show ?thesis
    using kernel_reach_correct [OF booted_inv(1)] kernel_reach_correct [OF first_child_reached] by simp
qed

theorem proc_fork_correct_witness:
  "\<exists>c<MAX_PROCS. p_pid (slot_of (fst (snd first_fork)) c) = 1 \<and>
     p_state (slot_of (fst (snd first_fork)) c) = PROC_READY"
proof -
  have "proc_fork (fst booted) (snd booted) = (1, fst (snd first_fork), snd (snd first_fork))"
    using first_fork_pid by (simp add: first_fork_def prod_eq_iff)
  from proc_fork_correct [OF booted_inv(2) this] show ?thesis
    by (auto simp: booted_inv(3))
qed

theorem proc_exit_wait_witness:
  "case proc_exit 7 (fst first_child) (snd first_child) of (ps1, s1) \<Rightarrow>
     case proc_switch_to 0 ps1 s1 of (rc, ps2, s2) \<Rightarrow> fst (proc_wait ps2 s2) = (1, Some 7)"
proof -
  obtain ps1 s1 where ex: "proc_exit 7 (fst first_child) (snd first_child) = (ps1, s1)"
    by (cases "proc_exit 7 (fst first_child) (snd first_child)")
  obtain rc ps2 s2 where sw: "proc_switch_to 0 ps1 s1 = (rc, ps2, s2)"
    by (cases "proc_switch_to 0 ps1 s1")
  let ?c = "current_idx (fst first_child)"
  have i1: "proc_inv ps1 s1 {#} \<and> ahead_of ?c 0 ps1 = {}"
    using first_child_inv(1) ex
  proof (cases rule: proc_exit_cases)
    case kernel
    then show ?thesis
      using first_child_inv(1) by (simp add: ahead_of_def)
  next
    case (dead c)
    have "p_state (slot_of ps1 j) = p_state (slot_of (fst first_child) j)" if "0 < j" "j < c" for j
      using dead(13) [of j] dead(3) that by (metis less_trans nat_neq_iff proc.select_convs(3) proc.surjective proc.update_convs(2))
    then show ?thesis
      using dead(1,3,5) first_child_inv(4) by (auto simp: ahead_of_def)
  qed
  note t = tab_invD [OF proc_invD(1) [OF conjunct1 [OF i1]]]
  have "rc = 0"
    using conjunct1 [OF i1] sw
  proof (cases rule: proc_switch_to_cases)
    case refused
    then show ?thesis
      using t(2,3,9-11) by (metis MAX_PROCS_def zero_less_numeral)
  qed simp
  obtain r ps3 s3 where wt: "proc_wait ps2 s2 = (r, ps3, s3)"
    by (cases "proc_wait ps2 s2")
  have "proc_waits (card (ahead_of ?c (p_ppid (proc_current (fst first_child))) ps1)) ps2 s2 = (r, ps3, s3)"
    using i1 wt first_child_inv(3) by simp
  from proc_exit_wait [OF first_child_inv(1) _ ex _ this] show ?thesis
    using first_child_inv(2,3) ex sw wt \<open>rc = 0\<close> by simp
qed

end
