(* ===== verification/Keyboard.thy ===== *)
theory Keyboard
  imports Kstring "HOL-Library.Sublist"
begin

text \<open>
  The PS/2 keyboard driver, \<open>kernel/keyboard.c\<close>: the interrupt handler translates scancodes and puts the
  characters into a ring buffer, \<open>keyboard_getchar\<close> takes them out.  The scancode read from port
  \<open>0x60\<close> is an argument of the handler.
\<close>

definition BUF_SIZE :: u32 where
  "BUF_SIZE = 256"

text \<open>The two tables; the entries after the space bar are 0.\<close>

definition scancode_ascii :: "u8 list" where
  "scancode_ascii = [0, 27] @ str ''1234567890-='' @ [8, 9] @ str ''qwertyuiop[]'' @ [10, 0] @
     str ''asdfghjkl;'' @ [0x27, 0x60, 0, 0x5C] @ str ''zxcvbnm,./'' @ [0, 0x2A, 0, 0x20] @ replicate 70 0"

definition scancode_ascii_shift :: "u8 list" where
  "scancode_ascii_shift = [0, 27] @ str ''!@#$%^&*()_+'' @ [8, 9] @ str ''QWERTYUIOP{}'' @ [10, 0] @
     str ''ASDFGHJKL:'' @ [0x22, 0x7E, 0, 0x7C] @ str ''ZXCVBNM<>?'' @ [0, 0x2A, 0, 0x20] @ replicate 70 0"

definition LSHIFT :: u8 where
  "LSHIFT = 0x2A"

definition RSHIFT :: u8 where
  "RSHIFT = 0x36"

definition KEY_UP :: u8 where
  "KEY_UP = 0x11"

definition KEY_DOWN :: u8 where
  "KEY_DOWN = 0x12"

definition KEY_LEFT :: u8 where
  "KEY_LEFT = 0x13"

definition KEY_RIGHT :: u8 where
  "KEY_RIGHT = 0x14"

record keyboard =
  buffer :: "nat \<Rightarrow> u8"
  head :: u32
  tail :: u32
  shift :: bool
  extended :: bool

definition enqueue :: "u8 \<Rightarrow> keyboard \<Rightarrow> keyboard" where
  "enqueue c k =
     (let nxt = (head k + 1) mod BUF_SIZE
      in if nxt \<noteq> tail k then k\<lparr>buffer := (buffer k)(unat (head k) := c), head := nxt\<rparr> else k)"

definition keyboard_callback :: "u8 \<Rightarrow> keyboard \<Rightarrow> keyboard" where
  "keyboard_callback scancode k =
     (if scancode = 0xE0 then k\<lparr>extended := True\<rparr>
      else if scancode AND 0x80 \<noteq> 0 then
        (let code = scancode AND 0x7F;
             k = (if code = LSHIFT \<or> code = RSHIFT then k\<lparr>shift := False\<rparr> else k)
         in k\<lparr>extended := False\<rparr>)
      else if extended k then
        (let k = k\<lparr>extended := False\<rparr>
         in if scancode = 0x48 then enqueue KEY_UP k
            else if scancode = 0x50 then enqueue KEY_DOWN k
            else if scancode = 0x4B then enqueue KEY_LEFT k
            else if scancode = 0x4D then enqueue KEY_RIGHT k
            else k)
      else if scancode = LSHIFT \<or> scancode = RSHIFT then k\<lparr>shift := True\<rparr>
      else let c = (if shift k then scancode_ascii_shift ! unat scancode else scancode_ascii ! unat scancode)
           in if c \<noteq> 0 then enqueue c k else k)"

definition keyboard_getchar :: "keyboard \<Rightarrow> int \<times> keyboard" where
  "keyboard_getchar k =
     (if tail k = head k then (- 1, k)
      else (uint (buffer k (unat (tail k))), k\<lparr>tail := (tail k + 1) mod BUF_SIZE\<rparr>))"

section \<open>Bounded queues\<close>

text \<open>
  The contract between the producer (the interrupt) and the consumer (the main loop): a first-in
  first-out queue that drops what does not fit.
\<close>

datatype 'a qop = Push 'a | Pop

locale bounded_queue =
  fixes inv :: "'s \<Rightarrow> bool"
    and items :: "'s \<Rightarrow> 'a list"
    and push :: "'a \<Rightarrow> 's \<Rightarrow> 's"
    and pop :: "'s \<Rightarrow> 'a option \<times> 's"
    and capacity :: nat
  assumes inv_push: "inv s \<Longrightarrow> inv (push x s)"
    and inv_pop: "inv s \<Longrightarrow> inv (snd (pop s))"
    and items_push: "inv s \<Longrightarrow> items (push x s) = (if length (items s) < capacity then items s @ [x] else items s)"
    and pop_empty: "inv s \<Longrightarrow> items s = [] \<Longrightarrow> pop s = (None, s)"
    and pop_items: "inv s \<Longrightarrow> items s = x # xs \<Longrightarrow> fst (pop s) = Some x \<and> items (snd (pop s)) = xs"
begin

text \<open>A run of the queue: what the pops return, what the pushes were accepted, and the final state.\<close>

fun run :: "'a qop list \<Rightarrow> 's \<Rightarrow> 'a list \<times> 'a list \<times> 's" where
  "run [] s = ([], [], s)"
| "run (Push x # ops) s =
     (let (out, acc, s') = run ops (push x s)
      in (out, (if length (items s) < capacity then [x] else []) @ acc, s'))"
| "run (Pop # ops) s =
     (let (r, s1) = pop s; (out, acc, s') = run ops s1
      in ((case r of None \<Rightarrow> [] | Some x \<Rightarrow> [x]) @ out, acc, s'))"

lemma run_fifo: "inv s \<Longrightarrow> run ops s = (out, acc, s') \<Longrightarrow> inv s' \<and> out @ items s' = items s @ acc"
proof (induction ops arbitrary: s out acc)
  case (Cons op ops)
  show ?case
  proof (cases op)
    case (Push x)
    obtain acc1 where r: "run ops (push x s) = (out, acc1, s')"
      "acc = (if length (items s) < capacity then [x] else []) @ acc1"
      using Cons(3) Push by (auto split: prod.splits)
    show ?thesis
      using Cons(1) [OF inv_push [OF Cons(2)] r(1)] r(2) items_push [OF Cons(2)] by simp
  next
    case Pop
    obtain v s1 where p: "pop s = (v, s1)"
      by fastforce
    obtain out1 where r: "run ops s1 = (out1, acc, s')" "out = (case v of None \<Rightarrow> [] | Some x \<Rightarrow> [x]) @ out1"
      using Cons(3) Pop p by (auto split: prod.splits)
    have i: "inv s1"
      using inv_pop [OF Cons(2)] p by simp
    show ?thesis
      using Cons(1) [OF i r(1)] r(2) p pop_empty [OF Cons(2)] pop_items [OF Cons(2)]
      by (cases "items s") auto
  qed
qed simp

primrec pushed :: "'a qop list \<Rightarrow> 'a list" where
  "pushed [] = []"
| "pushed (op # ops) = (case op of Push x \<Rightarrow> x # pushed ops | Pop \<Rightarrow> pushed ops)"

text \<open>What is accepted was pushed, in that order.\<close>

lemma run_accepted: "run ops s = (out, acc, s') \<Longrightarrow> subseq acc (pushed ops)"
proof (induction ops arbitrary: s out acc)
  case (Cons op ops)
  then show ?case
    by (cases op) (fastforce split: prod.splits if_splits)+
qed simp

text \<open>Nothing is dropped as long as all that is pushed fits.\<close>

lemma run_no_drop:
  "inv s \<Longrightarrow> run ops s = (out, acc, s') \<Longrightarrow> length (items s) + length (pushed ops) \<le> capacity \<Longrightarrow> acc = pushed ops"
proof (induction ops arbitrary: s out acc)
  case (Cons op ops)
  show ?case
  proof (cases op)
    case (Push x)
    then show ?thesis
      using Cons(3,4) Cons(1) [OF inv_push [OF Cons(2), of x]] items_push [OF Cons(2), of x]
      by (auto split: prod.splits)
  next
    case Pop
    have "length (items (snd (pop s))) \<le> length (items s)"
      using pop_empty [OF Cons(2)] pop_items [OF Cons(2)] by (cases "items s") auto
    then show ?thesis
      using Pop Cons(3,4) Cons(1) [OF inv_pop [OF Cons(2)]] by (auto split: prod.splits)
  qed
qed simp

end

section \<open>The ring buffer is a bounded queue\<close>

definition kb_inv :: "keyboard \<Rightarrow> bool" where
  "kb_inv k \<longleftrightarrow> unat (head k) < 256 \<and> unat (tail k) < 256"

definition kb_items :: "keyboard \<Rightarrow> u8 list" where
  "kb_items k = map (\<lambda>i. buffer k ((unat (tail k) + i) mod 256)) [0..<(unat (head k) + 256 - unat (tail k)) mod 256]"

text \<open>\<open>keyboard_getchar\<close> with its \<open>-1\<close> read as nothing.\<close>

definition kb_pop :: "keyboard \<Rightarrow> u8 option \<times> keyboard" where
  "kb_pop k = (let (r, k') = keyboard_getchar k in (if r = - 1 then None else Some (word_of_int r), k'))"

lemma unat_succ_mod: "unat (x :: u32) < 256 \<Longrightarrow> unat ((x + 1) mod BUF_SIZE) = (unat x + 1) mod 256"
  by (simp add: BUF_SIZE_def unat_mod unat_add_u32)

lemma ring_dist: "h < 256 \<Longrightarrow> t < 256 \<Longrightarrow> (h + 256 - t) mod 256 = (if t \<le> h then h - t else h + 256 - (t :: nat))"
  by (auto simp: mod_if)

lemma ring_succ: "h < 256 \<Longrightarrow> (h + 1) mod 256 = (if h = 255 then 0 else h + (1 :: nat))"
  by auto

lemma ring_wrap: "h < 256 \<Longrightarrow> i < 256 \<Longrightarrow> (h + i) mod 256 = (if h + i < 256 then h + i else h + i - (256 :: nat))"
  by (auto simp: mod_if)

lemmas ring_arith = ring_dist ring_succ ring_wrap

lemma ring_empty: "h < 256 \<Longrightarrow> t < 256 \<Longrightarrow> (h + 256 - t) mod 256 = 0 \<longleftrightarrow> h = (t :: nat)"
  by (auto simp: ring_arith)

lemma ring_full: "h < 256 \<Longrightarrow> t < 256 \<Longrightarrow> (h + 256 - t) mod 256 < 255 \<longleftrightarrow> (h + 1) mod 256 \<noteq> (t :: nat)"
  unfolding ring_dist ring_succ by auto

lemma ring_push:
  "h < 256 \<Longrightarrow> t < 256 \<Longrightarrow> (h + 1) mod 256 \<noteq> t \<Longrightarrow>
   ((h + 1) mod 256 + 256 - t) mod 256 = (h + 256 - t) mod 256 + (1 :: nat)"
  unfolding ring_dist ring_succ by (auto simp: mod_if split: if_splits)

lemma ring_pop:
  "h < 256 \<Longrightarrow> t < 256 \<Longrightarrow> h \<noteq> t \<Longrightarrow> (h + 256 - t) mod 256 = (h + 256 - (t + 1) mod 256) mod 256 + (1 :: nat)"
  unfolding ring_dist ring_succ by (auto simp: mod_if split: if_splits)

lemma ring_last: "h < 256 \<Longrightarrow> t < 256 \<Longrightarrow> (t + (h + 256 - t) mod 256) mod 256 = (h :: nat)"
  by (auto simp: ring_dist)

lemma ring_fresh: "h < 256 \<Longrightarrow> t < 256 \<Longrightarrow> i < (h + 256 - t) mod 256 \<Longrightarrow> (t + i) mod 256 \<noteq> (h :: nat)"
  using ring_dist [of h t] ring_wrap [of t i] by (auto split: if_splits)

lemma kb_inv_enqueue: "kb_inv k \<Longrightarrow> kb_inv (enqueue c k)"
  by (auto simp: kb_inv_def enqueue_def Let_def unat_succ_mod)

lemma kb_items_enqueue:
  assumes "kb_inv k"
  shows "kb_items (enqueue c k) = (if length (kb_items k) < 255 then kb_items k @ [c] else kb_items k)"
proof -
  let ?h = "unat (head k)" and ?t = "unat (tail k)"
  have lt: "?h < 256" "?t < 256"
    using assms by (auto simp: kb_inv_def)
  have full: "(head k + 1) mod BUF_SIZE = tail k \<longleftrightarrow> \<not> length (kb_items k) < 255"
    using ring_full [OF lt] unat_succ_mod [OF lt(1)] by (simp add: kb_items_def word_unat_eq_iff)
  show ?thesis
  proof (cases "(head k + 1) mod BUF_SIZE = tail k")
    case False
    then have ne: "(?h + 1) mod 256 \<noteq> ?t"
      using unat_succ_mod [OF lt(1)] by (simp add: word_unat_eq_iff)
    have "kb_items (enqueue c k) =
        map (\<lambda>i. ((buffer k)(?h := c)) ((?t + i) mod 256)) [0..<(?h + 256 - ?t) mod 256 + 1]"
      using False ring_push [OF lt ne] unat_succ_mod [OF lt(1)] by (simp add: kb_items_def enqueue_def)
    also have "\<dots> = kb_items k @ [c]"
      using ring_fresh [OF lt] ring_last [OF lt] by (simp add: kb_items_def)
    finally show ?thesis
      using False full by simp
  qed (use full in \<open>simp add: enqueue_def\<close>)
qed

lemma kb_items_Nil: "kb_inv k \<Longrightarrow> kb_items k = [] \<longleftrightarrow> tail k = head k"
  using ring_empty [of "unat (head k)" "unat (tail k)"] by (auto simp: kb_items_def kb_inv_def word_unat_eq_iff)

lemma kb_getchar_items:
  assumes "kb_inv k" "tail k \<noteq> head k"
  shows "kb_items k = buffer k (unat (tail k)) # kb_items (snd (keyboard_getchar k))"
proof -
  let ?h = "unat (head k)" and ?t = "unat (tail k)"
  have lt: "?h < 256" "?t < 256" "?h \<noteq> ?t"
    using assms by (auto simp: kb_inv_def word_unat_eq_iff)
  have "((?t + 1) mod 256 + i) mod 256 = (?t + Suc i) mod 256" for i
    by (simp add: mod_add_left_eq)
  then have "kb_items (snd (keyboard_getchar k)) =
      map (\<lambda>i. buffer k ((?t + Suc i) mod 256)) [0..<(?h + 256 - (?t + 1) mod 256) mod 256]"
    using assms(2) unat_succ_mod [OF lt(2)] by (simp add: keyboard_getchar_def kb_items_def)
  moreover have "[0..<n + 1] = 0 # map Suc [0..<n]" for n
    by (simp add: map_Suc_upt upt_conv_Cons del: upt_Suc)
  ultimately show ?thesis
    unfolding kb_items_def [of k] ring_pop [OF lt] using lt(2) by (simp add: comp_def)
qed

lemma kb_pop_cases:
  "tail k = head k \<Longrightarrow> kb_pop k = (None, k)"
  "tail k \<noteq> head k \<Longrightarrow> kb_pop k = (Some (buffer k (unat (tail k))), snd (keyboard_getchar k))"
proof -
  have "uint (buffer k (unat (tail k))) \<noteq> - 1"
    using uint_nonnegative [of "buffer k (unat (tail k))"] by linarith
  then show "tail k = head k \<Longrightarrow> kb_pop k = (None, k)"
    "tail k \<noteq> head k \<Longrightarrow> kb_pop k = (Some (buffer k (unat (tail k))), snd (keyboard_getchar k))"
    by (simp_all add: kb_pop_def keyboard_getchar_def)
qed

lemma kb_inv_getchar: "kb_inv k \<Longrightarrow> kb_inv (snd (keyboard_getchar k))"
  by (simp add: kb_inv_def keyboard_getchar_def unat_succ_mod)

interpretation ring: bounded_queue kb_inv kb_items enqueue kb_pop 255
proof
  show "kb_inv (enqueue x k)" if "kb_inv k" for k x
    using that by (rule kb_inv_enqueue)
  show "kb_inv (snd (kb_pop k))" if "kb_inv k" for k
    using that kb_pop_cases [of k] kb_inv_getchar [of k] by (cases "tail k = head k") auto
  show "kb_items (enqueue x k) = (if length (kb_items k) < 255 then kb_items k @ [x] else kb_items k)" if "kb_inv k" for k x
    using that by (rule kb_items_enqueue)
  show "kb_pop k = (None, k)" if "kb_inv k" "kb_items k = []" for k
    using that by (simp add: kb_items_Nil kb_pop_cases)
  show "fst (kb_pop k) = Some x \<and> kb_items (snd (kb_pop k)) = xs" if "kb_inv k" "kb_items k = x # xs" for k x xs
  proof -
    have "tail k \<noteq> head k"
      using that kb_items_Nil [of k] by auto
    then show ?thesis
      using that kb_getchar_items [of k] by (simp add: kb_pop_cases)
  qed
qed

section \<open>From key presses to characters\<close>

text \<open>
  The events of the driver, and what a sequence of them returns from \<open>keyboard_getchar\<close>.
\<close>

datatype key_event = Irq u8 | Getc

fun kb_run :: "key_event list \<Rightarrow> keyboard \<Rightarrow> int list \<times> keyboard" where
  "kb_run [] k = ([], k)"
| "kb_run (Irq sc # es) k = kb_run es (keyboard_callback sc k)"
| "kb_run (Getc # es) k =
     (let (r, k1) = keyboard_getchar k; (rs, k') = kb_run es k1 in (r # rs, k'))"

text \<open>
  The keys as the user sees them: \<open>(held, pre)\<close> says whether Shift is held and whether the next code
  is that of an extended key.  A press gives a character or nothing.
\<close>

fun key :: "bool \<times> bool \<Rightarrow> u8 \<Rightarrow> u8 option \<times> bool \<times> bool" where
  "key (held, pre) sc =
     (if sc = 0xE0 then (None, held, True)
      else if 0x80 \<le> sc then (None, held \<and> sc \<noteq> 0xAA \<and> sc \<noteq> 0xB6, False)
      else if pre then
        (map_of [(0x48, KEY_UP), (0x50, KEY_DOWN), (0x4B, KEY_LEFT), (0x4D, KEY_RIGHT)] sc, held, False)
      else if sc = 0x2A \<or> sc = 0x36 then (None, True, False)
      else let c = (if held then scancode_ascii_shift else scancode_ascii) ! unat sc
           in (if c = 0 then None else Some c, held, False))"

fun typed :: "bool \<times> bool \<Rightarrow> key_event list \<Rightarrow> u8 list" where
  "typed m [] = []"
| "typed m (Getc # es) = typed m es"
| "typed m (Irq sc # es) = (case key m sc of (c, m') \<Rightarrow> (case c of None \<Rightarrow> [] | Some x \<Rightarrow> [x]) @ typed m' es)"

definition mode :: "keyboard \<Rightarrow> bool \<times> bool" where
  "mode k = (shift k, extended k)"

text \<open>The ring without the modifier state.\<close>

definition plain :: "keyboard \<Rightarrow> keyboard" where
  "plain k = k\<lparr>shift := False, extended := False\<rparr>"

lemma enqueue_plain: "enqueue c (plain k) = plain (enqueue c k)"
  by (simp add: enqueue_def plain_def Let_def)

lemma enqueue_mode [simp]: "shift (enqueue c k) = shift k" "extended (enqueue c k) = extended k"
  by (simp_all add: enqueue_def Let_def)

lemma plain_upd [simp]:
  "plain (k\<lparr>shift := b\<rparr>) = plain k" "plain (k\<lparr>extended := b\<rparr>) = plain k" "plain (k\<lparr>shift := b, extended := b'\<rparr>) = plain k"
  by (simp_all add: plain_def)

lemma kb_plain [simp]: "kb_inv (plain k) = kb_inv k" "kb_items (plain k) = kb_items k"
  by (simp_all add: kb_inv_def kb_items_def plain_def)

lemma release_bit: "(sc :: u8) AND 0x80 \<noteq> 0 \<longleftrightarrow> 0x80 \<le> sc"
proof -
  have "sc AND 0x80 \<noteq> 0 \<longleftrightarrow> bit sc 7"
    using and_exp_eq_0_iff_not_bit [of sc 7] by simp
  moreover have "unat sc div 128 = (if 0x80 \<le> unat sc then 1 else 0)"
    using unat_u8_less [of sc] by (auto intro: div_nat_eqI)
  then have "bit sc 7 \<longleftrightarrow> 0x80 \<le> unat sc"
    by (simp add: bit_iff_odd odd_iff_mod_2_eq_one word_unat_eq_iff unat_div unat_mod)
  ultimately show ?thesis
    by (simp add: word_le_nat_alt)
qed

lemma release_code: "0x80 \<le> (sc :: u8) \<Longrightarrow> sc AND 0x7F = sc - 0x80"
proof -
  assume a: "0x80 \<le> sc"
  have "sc AND 0x7F = take_bit 7 sc"
    using take_bit_eq_mask [of 7 sc] by (simp add: mask_eq_exp_minus_1)
  then have "unat (sc AND 0x7F) = unat sc mod 128"
    by (simp add: take_bit_eq_mod unat_mod)
  then show ?thesis
    using a unat_u8_less [of sc] by (simp add: word_unat_eq_iff unat_sub word_le_nat_alt mod_if)
qed

lemma keyboard_callback_key:
  "case key (mode k) sc of (c, m') \<Rightarrow>
     mode (keyboard_callback sc k) = m' \<and>
     plain (keyboard_callback sc k) = (case c of None \<Rightarrow> plain k | Some x \<Rightarrow> enqueue x (plain k))"
proof -
  have sh: "sc - 0x80 = 0x2A \<longleftrightarrow> sc = 0xAA" "sc - 0x80 = 0x36 \<longleftrightarrow> sc = 0xB6"
    by (auto simp: diff_eq_eq)
  consider "sc = 0xE0" | "sc \<noteq> 0xE0" "0x80 \<le> sc" | "sc \<noteq> 0xE0" "\<not> 0x80 \<le> sc" "extended k"
    | "sc \<noteq> 0xE0" "\<not> 0x80 \<le> sc" "\<not> extended k"
    by blast
  then show ?thesis
  proof cases
    case 1
    then show ?thesis
      by (simp add: mode_def keyboard_callback_def)
  next
    case 2
    then show ?thesis
      by (simp add: mode_def keyboard_callback_def release_bit release_code sh LSHIFT_def RSHIFT_def Let_def)
  next
    case 3
    then show ?thesis
      by (simp add: mode_def keyboard_callback_def release_bit Let_def enqueue_plain [symmetric])
  next
    case 4
    then show ?thesis
      by (simp add: mode_def keyboard_callback_def release_bit LSHIFT_def RSHIFT_def Let_def enqueue_plain)
  qed
qed

fun ops_of :: "bool \<times> bool \<Rightarrow> key_event list \<Rightarrow> u8 qop list" where
  "ops_of m [] = []"
| "ops_of m (Getc # es) = Pop # ops_of m es"
| "ops_of m (Irq sc # es) = (case key m sc of (c, m') \<Rightarrow> (case c of None \<Rightarrow> [] | Some x \<Rightarrow> [Push x]) @ ops_of m' es)"

lemma pushed_ops_of: "ring.pushed (ops_of m es) = typed m es"
  by (induction m es rule: typed.induct) (auto split: prod.splits option.splits)

text \<open>The characters among the results of \<open>keyboard_getchar\<close>.\<close>

definition received :: "int list \<Rightarrow> u8 list" where
  "received rs = map word_of_int (filter (\<lambda>r. r \<noteq> - 1) rs)"

lemma getchar_plain:
  "keyboard_getchar (plain k) = (fst (keyboard_getchar k), plain (snd (keyboard_getchar k)))"
  "mode (snd (keyboard_getchar k)) = mode k"
  by (simp_all add: keyboard_getchar_def plain_def mode_def)

lemma run_ring:
  "kb_run es k = (rs, k') \<Longrightarrow> \<exists>acc. ring.run (ops_of (mode k) es) (plain k) = (received rs, acc, plain k')"
proof (induction es k arbitrary: rs rule: kb_run.induct)
  case (1 k)
  then show ?case
    by (auto simp: received_def)
next
  case (2 sc es k)
  obtain c m' where c: "key (mode k) sc = (c, m')"
    by (cases "key (mode k) sc")
  have cb: "mode (keyboard_callback sc k) = m'"
    "plain (keyboard_callback sc k) = (case c of None \<Rightarrow> plain k | Some x \<Rightarrow> enqueue x (plain k))"
    using keyboard_callback_key [of sc k] by (auto simp: c)
  have "kb_run es (keyboard_callback sc k) = (rs, k')"
    using 2(2) by simp
  then obtain acc where "ring.run (ops_of m' es) (plain (keyboard_callback sc k)) = (received rs, acc, plain k')"
    using 2(1) unfolding cb(1) by blast
  then show ?case
    by (cases c) (simp_all add: c cb)
next
  case (3 es k)
  obtain r k1 where r: "keyboard_getchar k = (r, k1)"
    by fastforce
  then obtain rs1 where rs: "rs = r # rs1" "kb_run es k1 = (rs1, k')"
    using 3(2) by (auto split: prod.splits)
  have m: "mode k1 = mode k" "keyboard_getchar (plain k) = (r, plain k1)"
    using getchar_plain [of k] r by simp_all
  obtain acc where "ring.run (ops_of (mode k) es) (plain k1) = (received rs1, acc, plain k')"
    using 3(1) [OF r [symmetric] refl rs(2)] m(1) by metis
  moreover have "kb_pop (plain k) = (if r = - 1 then None else Some (word_of_int r), plain k1)"
    by (simp add: kb_pop_def m(2))
  ultimately show ?case
    by (auto simp: rs(1) received_def)
qed

text \<open>
  C12.  The keyboard driver loses and reorders nothing that fits.  For every interleaving of keyboard
  interrupts and calls of \<open>keyboard_getchar\<close>, the characters received so far followed by those still
  buffered are the characters buffered at the start followed by those typed since, in order, except
  that a character typed while 255 are waiting is dropped; if no more than 255 can be waiting, none is.
  The indices stay inside the buffer.
\<close>

theorem keyboard_refines_queue:
  assumes "kb_inv k" "kb_run es k = (rs, k')"
  shows "kb_inv k' \<and> subseq (received rs @ kb_items k') (kb_items k @ typed (mode k) es) \<and>
    (length (kb_items k) + length (typed (mode k) es) \<le> 255 \<longrightarrow>
      received rs @ kb_items k' = kb_items k @ typed (mode k) es)"
proof -
  obtain acc where r: "ring.run (ops_of (mode k) es) (plain k) = (received rs, acc, plain k')"
    using run_ring [OF assms(2)] by blast
  have i: "kb_inv (plain k)"
    using assms(1) by simp
  show ?thesis
    using ring.run_fifo [OF i r] ring.run_accepted [OF r] ring.run_no_drop [OF i r]
    by (simp add: pushed_ops_of list_emb_append_mono)
qed

definition kb_empty :: keyboard where
  "kb_empty = \<lparr>buffer = \<lambda>_. 0, head = 0, tail = 0, shift = False, extended = False\<rparr>"

theorem keyboard_refines_queue_witness:
  "case kb_run [Irq 0x2A, Irq 0x23, Irq 0xA3, Irq 0xAA, Irq 0x17, Getc, Irq 0xE0, Irq 0x48, Getc, Getc, Getc] kb_empty of (rs, k') \<Rightarrow>
     rs = [0x48, 0x69, 0x11, - 1] \<and> kb_items k' = [] \<and>
     received rs = typed (mode kb_empty) [Irq 0x2A, Irq 0x23, Irq 0xA3, Irq 0xAA, Irq 0x17, Irq 0xE0, Irq 0x48]"
proof -
  let ?es = "[Irq 0x2A, Irq 0x23, Irq 0xA3, Irq 0xAA, Irq 0x17, Getc, Irq 0xE0, Irq 0x48, Getc, Getc, Getc]"
  obtain rs k' where r: "kb_run ?es kb_empty = (rs, k')"
    by fastforce
  have "kb_inv kb_empty"
    by (simp add: kb_inv_def kb_empty_def)
  note q = keyboard_refines_queue [OF this r]
  have t: "typed (mode kb_empty) ?es = [0x48, 0x69, 0x11]"
    "typed (mode kb_empty) [Irq 0x2A, Irq 0x23, Irq 0xA3, Irq 0xAA, Irq 0x17, Irq 0xE0, Irq 0x48] = [0x48, 0x69, 0x11]"
    by code_simp+
  have "fst (kb_run ?es kb_empty) = [0x48, 0x69, 0x11, - 1]"
    by code_simp
  then have rs: "rs = [0x48, 0x69, 0x11, - 1]"
    using r by simp
  have e: "kb_items kb_empty = []"
    by (simp add: kb_items_def kb_empty_def)
  have "received rs @ kb_items k' = [0x48, 0x69, 0x11]"
    using q by (simp only: t(1) e) simp
  then show ?thesis
    unfolding r by (simp only: prod.case t(2)) (simp add: rs received_def)
qed

text \<open>
  The two scancode tables describe one keyboard: they have an entry for every scancode below
  \<open>0x80\<close>, produce a character for the same keys, agree on the control characters, and Shift turns
  every letter into its capital.
\<close>

lemma scancode_tables:
  "length scancode_ascii = 128 \<and> length scancode_ascii_shift = 128 \<and>
   list_all2 (\<lambda>c s. (c = 0 \<longleftrightarrow> s = 0) \<and>
       s = (if c < 0x20 then c else if 0x61 \<le> c \<and> c \<le> 0x7A then c - 0x20 else s))
     scancode_ascii scancode_ascii_shift \<and>
   set (str ''abcdefghijklmnopqrstuvwxyz0123456789'') \<subseteq> set scancode_ascii"
  by code_simp

end
