(* ===== verification/Ata.thy ===== *)
theory Ata
  imports Memory
begin

text \<open>
  The disk driver \<open>kernel/ata.c\<close>.  The drive behind the ports is hardware: it is an argument of the
  definitions, a record of what the port instructions of \<open>kernel/ports.h\<close> return and do.  What the driver relies on
  is the interface \<open>pio_drive\<close>, the documented behaviour of a drive in programmed-I/O mode; it gives the interface
  \<open>block_device\<close>, which is all the file system needs.
\<close>

section \<open>The driver\<close>

record 'd ports =
  inb :: "u16 \<Rightarrow> 'd \<Rightarrow> u8 \<times> 'd"
  outb :: "u16 \<Rightarrow> u8 \<Rightarrow> 'd \<Rightarrow> 'd"
  inw :: "u16 \<Rightarrow> 'd \<Rightarrow> u16 \<times> 'd"
  outw :: "u16 \<Rightarrow> u16 \<Rightarrow> 'd \<Rightarrow> 'd"

definition ATA_DATA :: u16 where
  "ATA_DATA = 0x1F0"

definition ATA_SECCNT :: u16 where
  "ATA_SECCNT = 0x1F2"

definition ATA_LBA_LO :: u16 where
  "ATA_LBA_LO = 0x1F3"

definition ATA_LBA_MID :: u16 where
  "ATA_LBA_MID = 0x1F4"

definition ATA_LBA_HI :: u16 where
  "ATA_LBA_HI = 0x1F5"

definition ATA_DRIVE :: u16 where
  "ATA_DRIVE = 0x1F6"

definition ATA_STATUS :: u16 where
  "ATA_STATUS = 0x1F7"

definition ATA_CMD :: u16 where
  "ATA_CMD = 0x1F7"

definition ST_BSY :: u8 where
  "ST_BSY = 0x80"

definition ST_DF :: u8 where
  "ST_DF = 0x20"

definition ST_DRQ :: u8 where
  "ST_DRQ = 0x08"

definition ST_ERR :: u8 where
  "ST_ERR = 0x01"

definition ATA_TIMEOUT :: nat where
  "ATA_TIMEOUT = 1000000"

text \<open>The polling loops; their first argument is the number of polls left.\<close>

fun ata_wait_loop :: "'d ports \<Rightarrow> nat \<Rightarrow> 'd \<Rightarrow> int \<times> 'd" where
  "ata_wait_loop dev 0 d = (- 1, d)"
| "ata_wait_loop dev (Suc k) d =
     (let (s, d) = inb dev ATA_STATUS d in
      if s AND ST_BSY \<noteq> 0 then ata_wait_loop dev k d
      else if s AND (ST_ERR OR ST_DF) \<noteq> 0 then (- 1, d)
      else if s AND ST_DRQ \<noteq> 0 then (0, d)
      else ata_wait_loop dev k d)"

definition ata_wait :: "'d ports \<Rightarrow> 'd \<Rightarrow> int \<times> 'd" where
  "ata_wait dev d = ata_wait_loop dev ATA_TIMEOUT d"

fun ata_idle_loop :: "'d ports \<Rightarrow> nat \<Rightarrow> 'd \<Rightarrow> int \<times> 'd" where
  "ata_idle_loop dev 0 d = (- 1, d)"
| "ata_idle_loop dev (Suc k) d =
     (let (s, d) = inb dev ATA_STATUS d in
      if s AND ST_BSY = 0 then (if s AND (ST_ERR OR ST_DF) \<noteq> 0 then - 1 else 0, d)
      else ata_idle_loop dev k d)"

definition ata_idle :: "'d ports \<Rightarrow> 'd \<Rightarrow> int \<times> 'd" where
  "ata_idle dev d = ata_idle_loop dev ATA_TIMEOUT d"

text \<open>The loop of \<open>ata_select\<close> polls once more than the others: it gives up when the test fails at \<open>i == ATA_TIMEOUT\<close>.\<close>

fun select_loop :: "'d ports \<Rightarrow> nat \<Rightarrow> 'd \<Rightarrow> bool \<times> 'd" where
  "select_loop dev 0 d = (let (s, d) = inb dev ATA_STATUS d in (s AND ST_BSY = 0, d))"
| "select_loop dev (Suc k) d =
     (let (s, d) = inb dev ATA_STATUS d in
      if s AND ST_BSY \<noteq> 0 then select_loop dev k d else (True, d))"

definition ata_select :: "'d ports \<Rightarrow> u32 \<Rightarrow> u8 \<Rightarrow> 'd \<Rightarrow> int \<times> 'd" where
  "ata_select dev lba sectors d =
     (let (free, d) = select_loop dev ATA_TIMEOUT d in
      if \<not> free then (- 1, d)
      else
        let d = outb dev ATA_DRIVE (ucast (0xE0 OR (drop_bit 24 lba AND 0x0F))) d;
            d = outb dev ATA_SECCNT sectors d;
            d = outb dev ATA_LBA_LO (ucast (lba AND 0xFF)) d;
            d = outb dev ATA_LBA_MID (ucast (drop_bit 8 lba AND 0xFF)) d;
            d = outb dev ATA_LBA_HI (ucast (drop_bit 16 lba AND 0xFF)) d
        in (0, d))"

text \<open>A buffer is the list of its bytes; words are stored low byte first.\<close>

definition read_word :: "'d ports \<Rightarrow> nat \<Rightarrow> nat \<Rightarrow> u8 list \<times> 'd \<Rightarrow> u8 list \<times> 'd" where
  "read_word dev s i = (\<lambda>(buf, d).
     let (w, d) = inw dev ATA_DATA d in
     (buf[512 * s + 2 * i := ucast w, 512 * s + 2 * i + 1 := ucast (drop_bit 8 w)], d))"

fun read_loop :: "'d ports \<Rightarrow> nat list \<Rightarrow> u8 list \<Rightarrow> 'd \<Rightarrow> int \<times> u8 list \<times> 'd" where
  "read_loop dev [] buf d = (0, buf, d)"
| "read_loop dev (s # ss) buf d =
     (let (r, d) = ata_wait dev d in
      if r \<noteq> 0 then (- 1, buf, d)
      else let (buf, d) = fold (read_word dev s) [0..<256] (buf, d) in read_loop dev ss buf d)"

definition ata_read :: "'d ports \<Rightarrow> u32 \<Rightarrow> u8 \<Rightarrow> u8 list \<Rightarrow> 'd \<Rightarrow> int \<times> u8 list \<times> 'd" where
  "ata_read dev lba sectors buf d =
     (let (r, d) = ata_select dev lba sectors d in
      if r \<noteq> 0 then (- 1, buf, d)
      else read_loop dev [0..<unat sectors] buf (outb dev ATA_CMD 0x20 d))"

definition buf_word :: "u8 list \<Rightarrow> nat \<Rightarrow> nat \<Rightarrow> u16" where
  "buf_word buf s i = ucast (buf ! (512 * s + 2 * i)) OR push_bit 8 (ucast (buf ! (512 * s + 2 * i + 1)))"

definition write_word :: "'d ports \<Rightarrow> u8 list \<Rightarrow> nat \<Rightarrow> nat \<Rightarrow> 'd \<Rightarrow> 'd" where
  "write_word dev buf s i d = outw dev ATA_DATA (buf_word buf s i) d"

fun write_loop :: "'d ports \<Rightarrow> nat list \<Rightarrow> u8 list \<Rightarrow> 'd \<Rightarrow> int \<times> 'd" where
  "write_loop dev [] buf d = (0, d)"
| "write_loop dev (s # ss) buf d =
     (let (r, d) = ata_wait dev d in
      if r \<noteq> 0 then (- 1, d)
      else write_loop dev ss buf (fold (write_word dev buf s) [0..<256] d))"

definition ata_write :: "'d ports \<Rightarrow> u32 \<Rightarrow> u8 \<Rightarrow> u8 list \<Rightarrow> 'd \<Rightarrow> int \<times> 'd" where
  "ata_write dev lba sectors buf d =
     (let (r, d) = ata_select dev lba sectors d in
      if r \<noteq> 0 then (- 1, d)
      else
        let (r, d) = write_loop dev [0..<unat sectors] buf (outb dev ATA_CMD 0x30 d) in
        if r \<noteq> 0 then (- 1, d)
        else
          let (r, d) = ata_idle dev d in
          if r \<noteq> 0 then (- 1, d)
          else ata_idle dev (outb dev ATA_CMD 0xE7 d))"

section \<open>A drive in programmed-I/O mode\<close>

text \<open>
  What can be said of a drive from outside: its sectors as 256 words each, the sectors it cannot transfer, its command
  registers, the command in progress (with the sector, the number of sectors and the word that come next) and for how many more
  polls it will stay busy.
\<close>

datatype phase = Idle | Data_in nat nat nat | Data_out nat nat nat | Failed

record drive =
  store :: "nat \<Rightarrow> nat \<Rightarrow> u16"
  bad :: "nat \<Rightarrow> bool"
  reg_drive :: u8
  reg_count :: u8
  reg_lo :: u8
  reg_mid :: u8
  reg_hi :: u8
  phase :: phase
  busy :: nat

definition reg_lba :: "drive \<Rightarrow> nat" where
  "reg_lba v = unat (reg_drive v AND 0x0F) * 2 ^ 24 + unat (reg_hi v) * 2 ^ 16 + unat (reg_mid v) * 2 ^ 8 + unat (reg_lo v)"

definition seek :: "(nat \<Rightarrow> nat \<Rightarrow> nat \<Rightarrow> phase) \<Rightarrow> drive \<Rightarrow> nat \<Rightarrow> nat \<Rightarrow> phase" where
  "seek dir v l n = (if n = 0 then Idle else if bad v l then Failed else dir l n 0)"

definition resting :: "drive \<Rightarrow> bool" where
  "resting v \<longleftrightarrow> phase v = Idle \<or> phase v = Failed"

definition drive_ready :: "drive \<Rightarrow> bool" where
  "drive_ready v \<longleftrightarrow> resting v \<and> busy v < ATA_TIMEOUT"

text \<open>The drive accepts a transfer command: not busy, nothing in progress, addressed by logical block, some sectors wanted.\<close>

definition commandable :: "drive \<Rightarrow> bool" where
  "commandable v \<longleftrightarrow> busy v = 0 \<and> resting v \<and> reg_drive v AND 0xF0 = 0xE0 \<and> reg_count v \<noteq> 0"

locale pio_drive =
  fixes dev :: "'d ports" and view :: "'d \<Rightarrow> drive"
  assumes status_busy: "0 < busy (view d) \<Longrightarrow> inb dev ATA_STATUS d = (s, d') \<Longrightarrow>
      bit s 7 \<and> view d' = (view d)\<lparr>busy := busy (view d) - 1\<rparr>"
    and status_idle: "busy (view d) = 0 \<Longrightarrow> inb dev ATA_STATUS d = (s, d') \<Longrightarrow>
      \<not> bit s 7 \<and> (bit s 0 \<or> bit s 5 \<longleftrightarrow> phase (view d) = Failed) \<and> (bit s 3 \<longleftrightarrow> \<not> resting (view d)) \<and> view d' = view d"
    and registers: "busy (view d) = 0 \<Longrightarrow> view (outb dev ATA_DRIVE x d) = (view d)\<lparr>reg_drive := x\<rparr>"
      "busy (view d) = 0 \<Longrightarrow> view (outb dev ATA_SECCNT x d) = (view d)\<lparr>reg_count := x\<rparr>"
      "busy (view d) = 0 \<Longrightarrow> view (outb dev ATA_LBA_LO x d) = (view d)\<lparr>reg_lo := x\<rparr>"
      "busy (view d) = 0 \<Longrightarrow> view (outb dev ATA_LBA_MID x d) = (view d)\<lparr>reg_mid := x\<rparr>"
      "busy (view d) = 0 \<Longrightarrow> view (outb dev ATA_LBA_HI x d) = (view d)\<lparr>reg_hi := x\<rparr>"
    and command_read: "commandable (view d) \<Longrightarrow> \<exists>b<ATA_TIMEOUT. view (outb dev ATA_CMD 0x20 d) =
      (view d)\<lparr>phase := seek Data_in (view d) (reg_lba (view d)) (unat (reg_count (view d))), busy := b\<rparr>"
    and command_write: "commandable (view d) \<Longrightarrow> \<exists>b<ATA_TIMEOUT. view (outb dev ATA_CMD 0x30 d) =
      (view d)\<lparr>phase := seek Data_out (view d) (reg_lba (view d)) (unat (reg_count (view d))), busy := b\<rparr>"
    and command_flush: "busy (view d) = 0 \<Longrightarrow> resting (view d) \<Longrightarrow> \<exists>b<ATA_TIMEOUT.
      view (outb dev ATA_CMD 0xE7 d) = (view d)\<lparr>phase := Idle, busy := b\<rparr>"
    and data_in: "busy (view d) = 0 \<Longrightarrow> phase (view d) = Data_in l (Suc n) i \<Longrightarrow> i < 255 \<Longrightarrow> inw dev ATA_DATA d = (w, d') \<Longrightarrow>
      w = store (view d) l i \<and> view d' = (view d)\<lparr>phase := Data_in l (Suc n) (Suc i)\<rparr>"
    and data_in_last: "busy (view d) = 0 \<Longrightarrow> phase (view d) = Data_in l (Suc n) 255 \<Longrightarrow> inw dev ATA_DATA d = (w, d') \<Longrightarrow>
      w = store (view d) l 255 \<and> (\<exists>b<ATA_TIMEOUT. view d' = (view d)\<lparr>phase := seek Data_in (view d) (Suc l) n, busy := b\<rparr>)"
    and data_out: "busy (view d) = 0 \<Longrightarrow> phase (view d) = Data_out l (Suc n) i \<Longrightarrow> i < 255 \<Longrightarrow>
      view (outw dev ATA_DATA w d) = (view d)
        \<lparr>store := (store (view d))(l := (store (view d) l)(i := w)), phase := Data_out l (Suc n) (Suc i)\<rparr>"
    and data_out_last: "busy (view d) = 0 \<Longrightarrow> phase (view d) = Data_out l (Suc n) 255 \<Longrightarrow> \<exists>b<ATA_TIMEOUT.
      view (outw dev ATA_DATA w d) = (view d)
        \<lparr>store := (store (view d))(l := (store (view d) l)(255 := w)), phase := seek Data_out (view d) (Suc l) n, busy := b\<rparr>"

text \<open>Status bits and bytes of words.\<close>

lemma status_masks: "(s :: u8) AND ST_BSY = 0 \<longleftrightarrow> \<not> bit s 7" "s AND ST_DRQ = 0 \<longleftrightarrow> \<not> bit s 3"
  "s AND (ST_ERR OR ST_DF) = 0 \<longleftrightarrow> \<not> (bit s 0 \<or> bit s 5)"
proof -
  have "s AND (ST_ERR OR ST_DF) = (s AND 1) OR (s AND 0x20)"
    unfolding ST_ERR_def ST_DF_def by (rule bit.conj_disj_distrib)
  moreover have "(x OR y = 0) \<longleftrightarrow> x = 0 \<and> y = 0" for x y :: u8
    by (simp add: or_eq_0_iff)
  ultimately show "s AND ST_BSY = 0 \<longleftrightarrow> \<not> bit s 7" "s AND ST_DRQ = 0 \<longleftrightarrow> \<not> bit s 3"
    "s AND (ST_ERR OR ST_DF) = 0 \<longleftrightarrow> \<not> (bit s 0 \<or> bit s 5)"
    using and_exp_eq_0_iff_not_bit [of s 7] and_exp_eq_0_iff_not_bit [of s 3]
      and_exp_eq_0_iff_not_bit [of s 5] and_exp_eq_0_iff_not_bit [of s 0]
    by (simp_all add: ST_BSY_def ST_DRQ_def)
qed

lemma word_bytes: "ucast (ucast a OR push_bit 8 (ucast (b :: u8)) :: u16) = (a :: u8)"
  "ucast (drop_bit 8 (ucast a OR push_bit 8 (ucast b) :: u16)) = b"
  by (rule bit_word_eqI; auto simp: bit_or_iff bit_push_bit_iff bit_drop_bit_eq bit_ucast_iff not_less dest: bit_imp_le_length)+

definition sector_bytes :: "(nat \<Rightarrow> u16) \<Rightarrow> u8 list" where
  "sector_bytes ws = concat (map (\<lambda>i. [ucast (ws i), ucast (drop_bit 8 (ws i))]) [0..<256])"

definition put_words :: "(nat \<Rightarrow> u16) \<Rightarrow> nat \<Rightarrow> nat \<Rightarrow> u8 list \<Rightarrow> u8 list" where
  "put_words ws s k buf = take (512 * s) buf @ concat (map (\<lambda>i. [ucast (ws i), ucast (drop_bit 8 (ws i))]) [0..<k]) @
     drop (512 * s + 2 * k) buf"

lemma length_word_pairs [simp]: "length (concat (map (\<lambda>i. [f i, g i]) [0..<k])) = 2 * k"
  by (induction k) auto

lemma length_sector_bytes [simp]: "length (sector_bytes ws) = 512"
  by (simp add: sector_bytes_def)

lemma put_words_step:
  assumes "512 * s + 2 * k + 2 \<le> length buf"
  shows "(put_words ws s k buf)[512 * s + 2 * k := ucast (ws k), 512 * s + 2 * k + 1 := ucast (drop_bit 8 (ws k))] =
    put_words ws s (Suc k) buf"
proof -
  let ?n = "512 * s + 2 * k"
  have "drop ?n buf = buf ! ?n # buf ! Suc ?n # drop (Suc (Suc ?n)) buf"
    using assms by (simp add: Cons_nth_drop_Suc)
  moreover have "512 * s + 2 * Suc k = Suc (Suc ?n)"
    by simp
  ultimately show ?thesis
    using assms by (simp add: put_words_def list_update_append del: mult_Suc_right)
qed

context pio_drive
begin

lemma wait_ok:
  "busy (view d) < k \<Longrightarrow> \<exists>d'. ata_wait_loop dev k d = (if resting (view d) then - 1 else 0, d') \<and> view d' = (view d)\<lparr>busy := 0\<rparr>"
  if "phase (view d) \<noteq> Idle"
  using that
proof (induction k arbitrary: d)
  case (Suc k)
  obtain s d1 where s: "inb dev ATA_STATUS d = (s, d1)"
    by fastforce
  show ?case
  proof (cases "busy (view d) = 0")
    case True
    then show ?thesis
      using status_idle [OF True s] Suc.prems s by (auto simp: status_masks resting_def)
  next
    case False
    then have b: "bit s 7" "view d1 = (view d)\<lparr>busy := busy (view d) - 1\<rparr>"
      using status_busy [OF _ s] by auto
    then show ?thesis
      using Suc.IH [of d1] Suc.prems False s by (auto simp: status_masks resting_def)
  qed
qed simp

lemma idle_ok:
  "busy (view d) < k \<Longrightarrow> \<exists>d'. ata_idle_loop dev k d = (if phase (view d) = Failed then - 1 else 0, d') \<and> view d' = (view d)\<lparr>busy := 0\<rparr>"
proof (induction k arbitrary: d)
  case (Suc k)
  obtain s d1 where s: "inb dev ATA_STATUS d = (s, d1)"
    by fastforce
  show ?case
  proof (cases "busy (view d) = 0")
    case True
    then show ?thesis
      using status_idle [OF True s] Suc.prems s by (auto simp: status_masks)
  next
    case False
    then have b: "bit s 7" "view d1 = (view d)\<lparr>busy := busy (view d) - 1\<rparr>"
      using status_busy [OF _ s] by auto
    then show ?thesis
      using Suc.IH [of d1] Suc.prems False s by (auto simp: status_masks)
  qed
qed simp

lemma select_ok:
  "busy (view d) \<le> k \<Longrightarrow> \<exists>d'. select_loop dev k d = (True, d') \<and> view d' = (view d)\<lparr>busy := 0\<rparr>"
proof (induction k arbitrary: d)
  case 0
  obtain s d1 where s: "inb dev ATA_STATUS d = (s, d1)"
    by fastforce
  show ?case
    using status_idle [OF _ s] 0 s by (auto simp: status_masks)
next
  case (Suc k)
  obtain s d1 where s: "inb dev ATA_STATUS d = (s, d1)"
    by fastforce
  show ?case
  proof (cases "busy (view d) = 0")
    case True
    then show ?thesis
      using status_idle [OF True s] Suc.prems s by (auto simp: status_masks)
  next
    case False
    then have b: "bit s 7" "view d1 = (view d)\<lparr>busy := busy (view d) - 1\<rparr>"
      using status_busy [OF _ s] by auto
    then show ?thesis
      using Suc.IH [of d1] Suc.prems False s by (auto simp: status_masks)
  qed
qed

end

lemma low_byte: "unat (ucast ((x :: u32) AND 0xFF) :: u8) = unat x mod 256"
proof -
  have "x AND 0xFF = take_bit 8 x"
    by (simp add: take_bit_eq_mask mask_eq_exp_minus_1)
  then have "unat (ucast (x AND 0xFF) :: u8) = take_bit 8 (unat x)"
    by (simp add: unsigned_ucast_eq unsigned_take_bit_eq)
  then show ?thesis
    by (simp add: take_bit_eq_mod)
qed

lemma drive_register:
  "(ucast (0xE0 OR ((x :: u32) AND 0x0F)) :: u8) AND 0xF0 = 0xE0"
  "unat (ucast (0xE0 OR ((x :: u32) AND 0x0F)) AND (0x0F :: u8)) = unat x mod 16"
proof -
  have lo: "x AND 0x0F = take_bit 4 x"
    by (simp add: take_bit_eq_mask mask_eq_exp_minus_1)
  have "bit (ucast (0xE0 OR (x AND 0x0F)) :: u8) i = (if i < 4 then bit x i else 5 \<le> i)" if "i < 8" for i
  proof -
    have "i \<in> {0, 1, 2, 3, 4, 5, 6, 7}"
      using that by auto
    then show ?thesis
      by (auto simp: lo bit_and_iff bit_or_iff bit_ucast_iff bit_take_bit_iff)
  qed
  moreover have "bit (0xF0 :: u8) i = (4 \<le> i)" "bit (0xE0 :: u8) i = (5 \<le> i)" "bit (0x0F :: u8) i = (i < 4)" if "i < 8" for i
    using that less_Suc_eq [of i 7] by (auto simp: numeral_eq_Suc less_Suc_eq)
  ultimately have a: "(ucast (0xE0 OR (x AND 0x0F)) :: u8) AND 0xF0 = 0xE0"
    and b: "ucast (0xE0 OR (x AND 0x0F)) AND (0x0F :: u8) = ucast (take_bit 4 x)"
    by (auto intro!: bit_word_eqI simp: bit_and_iff bit_ucast_iff bit_take_bit_iff)
  show "(ucast (0xE0 OR (x AND 0x0F)) :: u8) AND 0xF0 = 0xE0"
    by (rule a)
  have "unat (ucast (0xE0 OR (x AND 0x0F)) AND (0x0F :: u8)) = take_bit 4 (unat x)"
    unfolding b by (simp add: unsigned_ucast_eq unsigned_take_bit_eq)
  then show "unat (ucast (0xE0 OR (x AND 0x0F)) AND (0x0F :: u8)) = unat x mod 16"
    by (simp add: take_bit_eq_mod)
qed

lemma split_lba:
  assumes "n < 268435456"
  shows "n div 16777216 mod 16 * 16777216 + n div 65536 mod 256 * 65536 + n div 256 mod 256 * 256 + n mod 256 = (n :: nat)"
proof -
  have "n mod 65536 = 256 * (n div 256 mod 256) + n mod 256"
    using mod_mult2_eq [of n 256 256] by simp
  moreover have "n mod 16777216 = 65536 * (n div 65536 mod 256) + n mod 65536"
    using mod_mult2_eq [of n 65536 256] by simp
  moreover have "n mod 268435456 = 16777216 * (n div 16777216 mod 16) + n mod 16777216"
    using mod_mult2_eq [of n 16777216 16] by simp
  moreover have "n mod 268435456 = n"
    using assms by (rule mod_less)
  ultimately show ?thesis
    by linarith
qed

lemma unat_drop_bit_div: "unat (drop_bit k (x :: u32)) = unat x div 2 ^ k"
  by (subst unat_drop_bit_eq) (rule drop_bit_eq_div)

context pio_drive
begin

lemma ata_select_ok:
  assumes "drive_ready (view d)" "unat lba < 2 ^ 28" "n \<noteq> 0"
  shows "\<exists>d'. ata_select dev lba n d = (0, d') \<and> commandable (view d') \<and> reg_lba (view d') = unat lba \<and>
    reg_count (view d') = n \<and> store (view d') = store (view d) \<and> bad (view d') = bad (view d)"
proof -
  obtain d1 where d1: "select_loop dev ATA_TIMEOUT d = (True, d1)" "view d1 = (view d)\<lparr>busy := 0\<rparr>"
    using select_ok [of d ATA_TIMEOUT] assms(1) by (auto simp: drive_ready_def)
  define d2 where "d2 = outb dev ATA_DRIVE (ucast (0xE0 OR (drop_bit 24 lba AND 0x0F))) d1"
  define d3 where "d3 = outb dev ATA_SECCNT n d2"
  define d4 where "d4 = outb dev ATA_LBA_LO (ucast (lba AND 0xFF)) d3"
  define d5 where "d5 = outb dev ATA_LBA_MID (ucast (drop_bit 8 lba AND 0xFF)) d4"
  define d6 where "d6 = outb dev ATA_LBA_HI (ucast (drop_bit 16 lba AND 0xFF)) d5"
  have "view d2 = (view d)\<lparr>busy := 0, reg_drive := ucast (0xE0 OR (drop_bit 24 lba AND 0x0F))\<rparr>"
    using registers(1) [of d1] d1(2) by (simp add: d2_def)
  then have "view d3 = (view d)\<lparr>busy := 0, reg_drive := ucast (0xE0 OR (drop_bit 24 lba AND 0x0F)), reg_count := n\<rparr>"
    using registers(2) [of d2] by (simp add: d3_def)
  then have "view d4 = (view d)\<lparr>busy := 0, reg_drive := ucast (0xE0 OR (drop_bit 24 lba AND 0x0F)), reg_count := n,
      reg_lo := ucast (lba AND 0xFF)\<rparr>"
    using registers(3) [of d3] by (simp add: d4_def)
  then have "view d5 = (view d)\<lparr>busy := 0, reg_drive := ucast (0xE0 OR (drop_bit 24 lba AND 0x0F)), reg_count := n,
      reg_lo := ucast (lba AND 0xFF), reg_mid := ucast (drop_bit 8 lba AND 0xFF)\<rparr>"
    using registers(4) [of d4] by (simp add: d5_def)
  then have v: "view d6 = (view d)\<lparr>busy := 0, reg_drive := ucast (0xE0 OR (drop_bit 24 lba AND 0x0F)), reg_count := n,
      reg_lo := ucast (lba AND 0xFF), reg_mid := ucast (drop_bit 8 lba AND 0xFF), reg_hi := ucast (drop_bit 16 lba AND 0xFF)\<rparr>"
    using registers(5) [of d5] by (simp add: d6_def)
  have "ata_select dev lba n d = (0, d6)"
    by (simp add: ata_select_def d1(1) Let_def d2_def d3_def d4_def d5_def d6_def)
  moreover have "commandable (view d6)"
    unfolding v commandable_def using assms drive_register(1) by (simp add: drive_ready_def resting_def)
  moreover have "reg_lba (view d6) = unat lba"
  proof -
    have "unat lba < 268435456"
      using assms(2) by simp
    then show ?thesis
      using split_lba [of "unat lba"] drive_register(2) [of "drop_bit 24 lba"]
        low_byte [of "drop_bit 16 lba"] low_byte [of "drop_bit 8 lba"] low_byte [of lba]
      by (simp add: v reg_lba_def unat_drop_bit_div)
  qed
  ultimately show ?thesis
    using v by simp
qed

end

lemma read_word_apply: "inw dev ATA_DATA d = (w, d') \<Longrightarrow> read_word dev s i (buf, d) =
    (buf[512 * s + 2 * i := ucast w, 512 * s + 2 * i + 1 := ucast (drop_bit 8 w)], d')"
  by (simp add: read_word_def)

lemma seek_update [simp]: "seek dir (v\<lparr>phase := p\<rparr>) = seek dir v" "seek dir (v\<lparr>busy := b\<rparr>) = seek dir v"
  "seek dir (v\<lparr>store := st\<rparr>) = seek dir v"
  by (simp_all add: seek_def fun_eq_iff)

context pio_drive
begin

lemma read_words_ok:
  assumes "busy (view d) = 0" "phase (view d) = Data_in l (Suc n) 0" "512 * s + 512 \<le> length buf"
  shows "k \<le> 255 \<Longrightarrow> \<exists>d'. fold (read_word dev s) [0..<k] (buf, d) = (put_words (store (view d) l) s k buf, d') \<and>
    view d' = (view d)\<lparr>phase := Data_in l (Suc n) k\<rparr>"
proof (induction k)
  case 0
  then show ?case
    using assms by (simp add: put_words_def)
next
  case (Suc k)
  then obtain d1 where d1: "fold (read_word dev s) [0..<k] (buf, d) = (put_words (store (view d) l) s k buf, d1)"
    "view d1 = (view d)\<lparr>phase := Data_in l (Suc n) k\<rparr>"
    by auto
  obtain w d2 where w: "inw dev ATA_DATA d1 = (w, d2)"
    by fastforce
  have "w = store (view d) l k" "view d2 = (view d)\<lparr>phase := Data_in l (Suc n) (Suc k)\<rparr>"
    using data_in [OF _ _ _ w, of l n k] d1(2) assms(1) Suc.prems by simp_all
  then show ?case
    using d1(1) w put_words_step [of s k buf "store (view d) l"] assms(3) Suc.prems by (simp add: read_word_apply)
qed

lemma read_sector_ok:
  assumes "busy (view d) = 0" "phase (view d) = Data_in l (Suc n) 0" "512 * s + 512 \<le> length buf"
  shows "\<exists>d'. \<exists>b<ATA_TIMEOUT. fold (read_word dev s) [0..<256] (buf, d) = (put_words (store (view d) l) s 256 buf, d') \<and>
    view d' = (view d)\<lparr>phase := seek Data_in (view d) (Suc l) n, busy := b\<rparr>"
proof -
  obtain d1 where d1: "fold (read_word dev s) [0..<255] (buf, d) = (put_words (store (view d) l) s 255 buf, d1)"
    "view d1 = (view d)\<lparr>phase := Data_in l (Suc n) 255\<rparr>"
    using read_words_ok [OF assms, of 255] by auto
  obtain w d2 where w: "inw dev ATA_DATA d1 = (w, d2)"
    by fastforce
  have r: "w = store (view d) l 255" "\<exists>b<ATA_TIMEOUT. view d2 = (view d)\<lparr>phase := seek Data_in (view d) (Suc l) n, busy := b\<rparr>"
    using data_in_last [OF _ _ w, of l n] d1(2) assms(1) by simp_all
  have "[0..<256] = [0..<255] @ [255::nat]"
    by (simp flip: upt_Suc_append)
  then have "fold (read_word dev s) [0..<256] (buf, d) = (put_words (store (view d) l) s 256 buf, d2)"
    using d1(1) w r(1) put_words_step [of s 255 buf "store (view d) l"] assms(3) by (simp add: read_word_apply)
  then show ?thesis
    using r(2) by blast
qed

lemma write_words_ok:
  assumes "busy (view d) = 0" "phase (view d) = Data_out l (Suc n) 0"
  shows "k \<le> 255 \<Longrightarrow> view (fold (write_word dev buf s) [0..<k] d) =
    (view d)\<lparr>store := (store (view d))(l := \<lambda>i. if i < k then buf_word buf s i else store (view d) l i), phase := Data_out l (Suc n) k\<rparr>"
proof (induction k)
  case (Suc k)
  let ?d = "fold (write_word dev buf s) [0..<k] d"
  have IH: "view ?d = (view d)\<lparr>store := (store (view d))(l := \<lambda>i. if i < k then buf_word buf s i else store (view d) l i), phase := Data_out l (Suc n) k\<rparr>"
    by (rule Suc.IH) (use Suc.prems in simp)
  have "(\<lambda>i. if i < k then buf_word buf s i else store (view d) l i)(k := buf_word buf s k) = (\<lambda>i. if i < Suc k then buf_word buf s i else store (view d) l i)"
    by auto
  then have "view (outw dev ATA_DATA (buf_word buf s k) ?d) = (view d)\<lparr>store := (store (view d))
      (l := \<lambda>i. if i < Suc k then buf_word buf s i else store (view d) l i), phase := Data_out l (Suc n) (Suc k)\<rparr>"
    using data_out [of ?d l n k "buf_word buf s k"] IH assms(1) Suc.prems by simp
  moreover have "fold (write_word dev buf s) [0..<Suc k] d = outw dev ATA_DATA (buf_word buf s k) ?d"
    by (simp add: write_word_def [of dev buf s k])
  ultimately show ?case
    by (simp only:)
qed (use assms in simp)

end

context pio_drive
begin

lemma write_sector_ok:
  assumes "busy (view d) = 0" "phase (view d) = Data_out l (Suc n) 0"
  shows "\<exists>b<ATA_TIMEOUT. \<exists>ws. (\<forall>i<256. ws i = buf_word buf s i) \<and> view (fold (write_word dev buf s) [0..<256] d) =
    (view d)\<lparr>store := (store (view d))(l := ws), phase := seek Data_out (view d) (Suc l) n, busy := b\<rparr>"
proof -
  let ?d = "fold (write_word dev buf s) [0..<255] d"
  let ?ws = "\<lambda>i. if i < 255 then buf_word buf s i else store (view d) l i"
  have v: "view ?d = (view d)\<lparr>store := (store (view d))(l := ?ws), phase := Data_out l (Suc n) 255\<rparr>"
    using write_words_ok [OF assms, of 255] by simp
  have "[0..<256] = [0..<255] @ [255::nat]"
    by (simp flip: upt_Suc_append)
  then have "fold (write_word dev buf s) [0..<256] d = outw dev ATA_DATA (buf_word buf s 255) ?d"
    by (simp add: write_word_def)
  then obtain b where "b < ATA_TIMEOUT" "view (fold (write_word dev buf s) [0..<256] d) = (view d)\<lparr>store := (store (view d))
      (l := ?ws(255 := buf_word buf s 255)), phase := seek Data_out (view d) (Suc l) n, busy := b\<rparr>"
    using data_out_last [of ?d l n "buf_word buf s 255"] v assms(1) by auto
  moreover have "\<forall>i<256. (?ws(255 := buf_word buf s 255)) i = buf_word buf s i"
    by auto
  ultimately show ?thesis
    by blast
qed

text \<open>The transfers of whole sectors: the \<open>s\<close>-th sector of the buffer is sector \<open>l + s\<close> of the disk.\<close>

lemma read_loop_ok:
  assumes "phase (view d) = seek Data_in (view d) (l + s) n" "busy (view d) < ATA_TIMEOUT" "512 * (s + n) \<le> length buf"
    "\<And>i. i < n \<Longrightarrow> \<not> bad (view d) (l + s + i)"
  shows "\<exists>d'. read_loop dev [s..<s + n] buf d =
      (0, take (512 * s) buf @ concat (map (\<lambda>i. sector_bytes (store (view d) (l + i))) [s..<s + n]) @ drop (512 * (s + n)) buf, d') \<and>
    drive_ready (view d') \<and> store (view d') = store (view d) \<and> bad (view d') = bad (view d)"
  using assms
proof (induction n arbitrary: s buf d)
  case 0
  then show ?case
    by (simp add: seek_def drive_ready_def resting_def)
next
  case (Suc n)
  have p: "phase (view d) = Data_in (l + s) (Suc n) 0"
    using Suc.prems(1) Suc.prems(4) [of 0] by (simp add: seek_def)
  obtain d1 where d1: "ata_wait dev d = (0, d1)" "view d1 = (view d)\<lparr>busy := 0\<rparr>"
    using wait_ok [of d ATA_TIMEOUT] p Suc.prems(2) by (auto simp: ata_wait_def resting_def)
  let ?buf = "put_words (store (view d) (l + s)) s 256 buf"
  obtain d2 b where d2: "b < ATA_TIMEOUT" "fold (read_word dev s) [0..<256] (buf, d1) = (?buf, d2)"
    "view d2 = (view d)\<lparr>phase := seek Data_in (view d) (Suc (l + s)) n, busy := b\<rparr>"
    using read_sector_ok [of d1 "l + s" n s buf] d1(2) p Suc.prems(3) by auto
  have buf: "?buf = take (512 * s) buf @ sector_bytes (store (view d) (l + s)) @ drop (512 * Suc s) buf"
    by (simp add: put_words_def sector_bytes_def add.commute)
  have IH: "\<exists>d'. read_loop dev [Suc s..<Suc s + n] ?buf d2 =
      (0, take (512 * Suc s) ?buf @ concat (map (\<lambda>i. sector_bytes (store (view d2) (l + i))) [Suc s..<Suc s + n]) @
        drop (512 * (Suc s + n)) ?buf, d') \<and> drive_ready (view d') \<and> store (view d') = store (view d2) \<and> bad (view d') = bad (view d2)"
  proof (rule Suc.IH)
    show "\<not> bad (view d2) (l + Suc s + i)" if "i < n" for i
      using Suc.prems(4) [of "Suc i"] that d2(3) by simp
    show "512 * (Suc s + n) \<le> length ?buf"
      using Suc.prems(3) by (simp add: buf)
  qed (use d2 in simp_all)
  have "take (512 * Suc s) ?buf = take (512 * s) buf @ sector_bytes (store (view d) (l + s))"
    "drop (512 * (Suc s + n)) ?buf = drop (512 * (s + Suc n)) buf"
    using Suc.prems(3) unfolding buf by (simp_all add: algebra_simps)
  then show ?case
    using IH d1(1) d2(2,3) upt_conv_Cons [of s "s + Suc n"] by simp
qed
end

context pio_drive
begin

lemma write_loop_ok:
  assumes "phase (view d) = seek Data_out (view d) (l + s) n" "busy (view d) < ATA_TIMEOUT"
    "\<And>i. i < n \<Longrightarrow> \<not> bad (view d) (l + s + i)"
  shows "\<exists>d'. write_loop dev [s..<s + n] buf d = (0, d') \<and> phase (view d') = Idle \<and> busy (view d') < ATA_TIMEOUT \<and> bad (view d') = bad (view d) \<and>
    (\<forall>j. j < l + s \<or> l + s + n \<le> j \<longrightarrow> store (view d') j = store (view d) j) \<and>
    (\<forall>j<n. \<forall>i<256. store (view d') (l + s + j) i = buf_word buf (s + j) i)"
  using assms
proof (induction n arbitrary: s d)
  case 0
  then show ?case
    by (simp add: seek_def)
next
  case (Suc n)
  have p: "phase (view d) = Data_out (l + s) (Suc n) 0"
    using Suc.prems(1) Suc.prems(3) [of 0] by (simp add: seek_def)
  obtain d1 where d1: "ata_wait dev d = (0, d1)" "view d1 = (view d)\<lparr>busy := 0\<rparr>"
    using wait_ok [of d ATA_TIMEOUT] p Suc.prems(2) by (auto simp: ata_wait_def resting_def)
  define d2 where "d2 = fold (write_word dev buf s) [0..<256] d1"
  obtain b ws where d2: "b < ATA_TIMEOUT" "\<forall>i<256. ws i = buf_word buf s i"
    "view d2 = (view d)\<lparr>store := (store (view d))(l + s := ws), phase := seek Data_out (view d) (Suc (l + s)) n, busy := b\<rparr>"
    using write_sector_ok [of d1 "l + s" n buf s] d1(2) p unfolding d2_def by auto
  have "\<exists>d'. write_loop dev [Suc s..<Suc s + n] buf d2 = (0, d') \<and> phase (view d') = Idle \<and> busy (view d') < ATA_TIMEOUT \<and>
      bad (view d') = bad (view d2) \<and>
      (\<forall>j. j < l + Suc s \<or> l + Suc s + n \<le> j \<longrightarrow> store (view d') j = store (view d2) j) \<and>
      (\<forall>j<n. \<forall>i<256. store (view d') (l + Suc s + j) i = buf_word buf (Suc s + j) i)"
  proof (rule Suc.IH)
    show "\<not> bad (view d2) (l + Suc s + i)" if "i < n" for i
      using Suc.prems(3) [of "Suc i"] that d2(3) by simp
  qed (use d2 in simp_all)
  then obtain d' where d': "write_loop dev [Suc s..<Suc s + n] buf d2 = (0, d')" "phase (view d') = Idle" "busy (view d') < ATA_TIMEOUT"
    "bad (view d') = bad (view d2)" "\<And>j. j < l + Suc s \<or> l + Suc s + n \<le> j \<Longrightarrow> store (view d') j = store (view d2) j"
    "\<And>j i. j < n \<Longrightarrow> i < 256 \<Longrightarrow> store (view d') (l + Suc s + j) i = buf_word buf (Suc s + j) i"
    by blast
  have "write_loop dev [s..<s + Suc n] buf d = (0, d')"
    using d1(1) d'(1) upt_conv_Cons [of s "s + Suc n"] by (simp add: d2_def)
  moreover have "store (view d') j = store (view d) j" if "j < l + s \<or> l + s + Suc n \<le> j" for j
    using d'(5) [of j] d2(3) that by auto
  moreover have "store (view d') (l + s + j) i = buf_word buf (s + j) i" if "j < Suc n" "i < 256" for i j
  proof (cases j)
    case 0
    then show ?thesis
      using d'(5) [of "l + s"] d2(2,3) that by simp
  next
    case (Suc k)
    then show ?thesis
      using d'(6) [of k i] that by simp
  qed
  moreover have "bad (view d') = bad (view d)"
    using d'(4) d2(3) by simp
  ultimately show ?case
    using d'(2,3) by blast
qed

lemma issue:
  assumes "drive_ready (view d)" "0 < n" "unat lba < 2 ^ 28" "(cmd, dir) \<in> {(0x20, Data_in), (0x30, Data_out)}"
  shows "\<exists>d1. ata_select dev lba n d = (0, d1) \<and>
    phase (view (outb dev ATA_CMD cmd d1)) = seek dir (view (outb dev ATA_CMD cmd d1)) (unat lba) (unat n) \<and>
    busy (view (outb dev ATA_CMD cmd d1)) < ATA_TIMEOUT \<and>
    store (view (outb dev ATA_CMD cmd d1)) = store (view d) \<and> bad (view (outb dev ATA_CMD cmd d1)) = bad (view d)"
proof -
  obtain d1 where d1: "ata_select dev lba n d = (0, d1)" "commandable (view d1)" "reg_lba (view d1) = unat lba"
    "reg_count (view d1) = n" "store (view d1) = store (view d)" "bad (view d1) = bad (view d)"
    using ata_select_ok [OF assms(1,3), of n] assms(2) by (auto simp: word_neq_0_conv)
  then show ?thesis
    using command_read [OF d1(2)] command_write [OF d1(2)] assms(4) by auto
qed

lemma ata_read_ok:
  assumes "drive_ready (view d)" "0 < n" "unat lba + unat n \<le> 2 ^ 28" "512 * unat n \<le> length buf" "\<And>i. i < unat n \<Longrightarrow> \<not> bad (view d) (unat lba + i)"
  shows "\<exists>d'. ata_read dev lba n buf d =
      (0, concat (map (\<lambda>i. sector_bytes (store (view d) (unat lba + i))) [0..<unat n]) @ drop (512 * unat n) buf, d') \<and>
    drive_ready (view d') \<and> store (view d') = store (view d) \<and> bad (view d') = bad (view d)"
proof -
  have "0 < unat n"
    using assms(2) by (simp add: word_less_nat_alt)
  then obtain d1 where d1: "ata_select dev lba n d = (0, d1)"
    "phase (view (outb dev ATA_CMD 0x20 d1)) = seek Data_in (view (outb dev ATA_CMD 0x20 d1)) (unat lba) (unat n)"
    "busy (view (outb dev ATA_CMD 0x20 d1)) < ATA_TIMEOUT"
    "store (view (outb dev ATA_CMD 0x20 d1)) = store (view d)" "bad (view (outb dev ATA_CMD 0x20 d1)) = bad (view d)"
    using issue [OF assms(1,2), of lba "0x20" Data_in] assms(3) by auto
  then show ?thesis
    using read_loop_ok [of "outb dev ATA_CMD 0x20 d1" "unat lba" 0 "unat n" buf] assms(4,5)
    by (simp add: ata_read_def)
qed

lemma failed_wait:
  assumes "phase (view d) = seek dir (view d) l n" "0 < n" "bad (view d) l" "busy (view d) < ATA_TIMEOUT"
  shows "\<exists>d'. ata_wait dev d = (- 1, d') \<and> drive_ready (view d') \<and> store (view d') = store (view d) \<and> bad (view d') = bad (view d)"
  using wait_ok [of d ATA_TIMEOUT] assms by (auto simp: ata_wait_def resting_def seek_def drive_ready_def ATA_TIMEOUT_def)

lemma ata_read_bad:
  assumes "drive_ready (view d)" "0 < n" "unat lba < 2 ^ 28" "bad (view d) (unat lba)"
  shows "\<exists>d'. ata_read dev lba n buf d = (- 1, buf, d') \<and> drive_ready (view d') \<and> store (view d') = store (view d) \<and> bad (view d') = bad (view d)"
proof -
  have n: "0 < unat n"
    using assms(2) by (simp add: word_less_nat_alt)
  obtain d1 where d1: "ata_select dev lba n d = (0, d1)"
    "phase (view (outb dev ATA_CMD 0x20 d1)) = seek Data_in (view (outb dev ATA_CMD 0x20 d1)) (unat lba) (unat n)"
    "busy (view (outb dev ATA_CMD 0x20 d1)) < ATA_TIMEOUT"
    "store (view (outb dev ATA_CMD 0x20 d1)) = store (view d)" "bad (view (outb dev ATA_CMD 0x20 d1)) = bad (view d)"
    using issue [OF assms(1-3), of "0x20" Data_in] by auto
  then show ?thesis
    using failed_wait [OF d1(2) n _ d1(3)] assms(4) n upt_conv_Cons [of 0 "unat n"] by (auto simp: ata_read_def)
qed

lemma ata_write_ok:
  assumes "drive_ready (view d)" "0 < n" "unat lba + unat n \<le> 2 ^ 28" "\<And>i. i < unat n \<Longrightarrow> \<not> bad (view d) (unat lba + i)"
  shows "\<exists>d'. ata_write dev lba n buf d = (0, d') \<and> drive_ready (view d') \<and> bad (view d') = bad (view d) \<and>
    (\<forall>j. j < unat lba \<or> unat lba + unat n \<le> j \<longrightarrow> store (view d') j = store (view d) j) \<and>
    (\<forall>j<unat n. \<forall>i<256. store (view d') (unat lba + j) i = buf_word buf j i)"
proof -
  have "0 < unat n"
    using assms(2) by (simp add: word_less_nat_alt)
  then obtain d1 where d1: "ata_select dev lba n d = (0, d1)"
    "phase (view (outb dev ATA_CMD 0x30 d1)) = seek Data_out (view (outb dev ATA_CMD 0x30 d1)) (unat lba) (unat n)"
    "busy (view (outb dev ATA_CMD 0x30 d1)) < ATA_TIMEOUT"
    "store (view (outb dev ATA_CMD 0x30 d1)) = store (view d)" "bad (view (outb dev ATA_CMD 0x30 d1)) = bad (view d)"
    using issue [OF assms(1,2), of lba "0x30" Data_out] assms(3) by auto
  obtain d2 where d2: "write_loop dev [0..<unat n] buf (outb dev ATA_CMD 0x30 d1) = (0, d2)" "phase (view d2) = Idle" "busy (view d2) < ATA_TIMEOUT"
    "bad (view d2) = bad (view d)" "\<forall>j. j < unat lba \<or> unat lba + unat n \<le> j \<longrightarrow> store (view d2) j = store (view d) j"
    "\<forall>j<unat n. \<forall>i<256. store (view d2) (unat lba + j) i = buf_word buf j i"
    using write_loop_ok [of "outb dev ATA_CMD 0x30 d1" "unat lba" 0 "unat n" buf] assms(4) d1 by auto
  obtain d3 where d3: "ata_idle dev d2 = (0, d3)" "view d3 = (view d2)\<lparr>busy := 0\<rparr>"
    using idle_ok [of d2 ATA_TIMEOUT] d2(2,3) by (auto simp: ata_idle_def)
  obtain b' where b': "b' < ATA_TIMEOUT" "view (outb dev ATA_CMD 0xE7 d3) = (view d3)\<lparr>phase := Idle, busy := b'\<rparr>"
    using command_flush [of d3] d3(2) d2(2) by (auto simp: resting_def)
  obtain d4 where "ata_idle dev (outb dev ATA_CMD 0xE7 d3) = (0, d4)" "view d4 = (view d2)\<lparr>phase := Idle, busy := 0\<rparr>"
    using idle_ok [of "outb dev ATA_CMD 0xE7 d3" ATA_TIMEOUT] b' d3(2) by (auto simp: ata_idle_def)
  then show ?thesis
    using d1(1) d2 d3(1) b'(1) by (auto simp: ata_write_def drive_ready_def resting_def)
qed

lemma ata_write_bad:
  assumes "drive_ready (view d)" "0 < n" "unat lba < 2 ^ 28" "bad (view d) (unat lba)"
  shows "\<exists>d'. ata_write dev lba n buf d = (- 1, d') \<and> drive_ready (view d') \<and> store (view d') = store (view d) \<and> bad (view d') = bad (view d)"
proof -
  have n: "0 < unat n"
    using assms(2) by (simp add: word_less_nat_alt)
  obtain d1 where d1: "ata_select dev lba n d = (0, d1)"
    "phase (view (outb dev ATA_CMD 0x30 d1)) = seek Data_out (view (outb dev ATA_CMD 0x30 d1)) (unat lba) (unat n)"
    "busy (view (outb dev ATA_CMD 0x30 d1)) < ATA_TIMEOUT"
    "store (view (outb dev ATA_CMD 0x30 d1)) = store (view d)" "bad (view (outb dev ATA_CMD 0x30 d1)) = bad (view d)"
    using issue [OF assms(1-3), of "0x30" Data_out] by auto
  then show ?thesis
    using failed_wait [OF d1(2) n _ d1(3)] assms(4) n upt_conv_Cons [of 0 "unat n"] by (auto simp: ata_write_def)
qed

end

section \<open>The disk as the file system sees it\<close>

locale block_device =
  fixes dev :: "'d ports" and usable :: "'d \<Rightarrow> bool" and sector :: "'d \<Rightarrow> nat \<Rightarrow> u8 list" and broken :: "'d \<Rightarrow> nat \<Rightarrow> bool"
  assumes sector_length: "length (sector d l) = 512"
    and read_good: "usable d \<Longrightarrow> unat lba < 2 ^ 28 \<Longrightarrow> length buf = 512 \<Longrightarrow> \<not> broken d (unat lba) \<Longrightarrow>
      \<exists>d'. ata_read dev lba 1 buf d = (0, sector d (unat lba), d') \<and> usable d' \<and> sector d' = sector d \<and> broken d' = broken d"
    and read_broken: "usable d \<Longrightarrow> unat lba < 2 ^ 28 \<Longrightarrow> broken d (unat lba) \<Longrightarrow>
      \<exists>d'. ata_read dev lba 1 buf d = (- 1, buf, d') \<and> usable d' \<and> sector d' = sector d \<and> broken d' = broken d"
    and write_good: "usable d \<Longrightarrow> unat lba < 2 ^ 28 \<Longrightarrow> length buf = 512 \<Longrightarrow> \<not> broken d (unat lba) \<Longrightarrow>
      \<exists>d'. ata_write dev lba 1 buf d = (0, d') \<and> usable d' \<and> sector d' = (sector d)(unat lba := buf) \<and> broken d' = broken d"
    and write_broken: "usable d \<Longrightarrow> unat lba < 2 ^ 28 \<Longrightarrow> broken d (unat lba) \<Longrightarrow>
      \<exists>d'. ata_write dev lba 1 buf d = (- 1, d') \<and> usable d' \<and> sector d' = sector d \<and> broken d' = broken d"

lemma sector_bytes_nth: "j < 512 \<Longrightarrow> sector_bytes ws ! j = (if even j then ucast (ws (j div 2)) else ucast (drop_bit 8 (ws (j div 2))))"
proof -
  have "j < 2 * k \<Longrightarrow> concat (map (\<lambda>i. [f i, g i]) [0..<k]) ! j = (if even j then f (j div 2) else g (j div 2))" for k and f g :: "nat \<Rightarrow> u8"
  proof (induction k)
    case (Suc k)
    then consider "j < 2 * k" | "j = 2 * k" | "j = 2 * k + 1"
      by fastforce
    then show ?case
      using Suc.IH by cases (auto simp: nth_append)
  qed simp
  then show "j < 512 \<Longrightarrow> ?thesis"
    by (simp add: sector_bytes_def)
qed

lemma sector_bytes_buf:
  assumes "\<forall>i<256. ws i = buf_word buf s i" "512 * Suc s \<le> length buf"
  shows "sector_bytes ws = take 512 (drop (512 * s) buf)"
proof (rule nth_equalityI)
  show "length (sector_bytes ws) = length (take 512 (drop (512 * s) buf))"
    using assms(2) by simp
  show "sector_bytes ws ! j = take 512 (drop (512 * s) buf) ! j" if j: "j < length (sector_bytes ws)" for j
  proof -
    obtain i where i: "i < 256" "j = 2 * i \<or> j = 2 * i + 1"
    proof
      show "j div 2 < 256" "j = 2 * (j div 2) \<or> j = 2 * (j div 2) + 1"
        using j by auto
    qed
    have w: "ws i = ucast (buf ! (512 * s + 2 * i)) OR push_bit 8 (ucast (buf ! (512 * s + 2 * i + 1)))"
      using assms(1) i(1) by (simp add: buf_word_def)
    have "ucast (ws i) = buf ! (512 * s + 2 * i)" "ucast (drop_bit 8 (ws i)) = buf ! (512 * s + 2 * i + 1)"
      unfolding w by (rule word_bytes)+
    then show ?thesis
      using i j assms(2) by (auto simp: sector_bytes_nth)
  qed
qed

lemma concat_chunks: "512 * n \<le> length buf \<Longrightarrow> concat (map (\<lambda>i. take 512 (drop (512 * i) buf)) [0..<n]) = take (512 * n) buf"
proof (induction n)
  case (Suc n)
  then show ?case
    using take_add [of "512 * n" 512 buf] by (simp add: add.commute)
qed simp

sublocale pio_drive \<subseteq> disk: block_device dev "\<lambda>d. drive_ready (view d)" "\<lambda>d l. sector_bytes (store (view d) l)" "\<lambda>d. bad (view d)"
proof unfold_locales
  fix d and lba :: u32 and buf :: "u8 list"
  assume d: "drive_ready (view d)" "unat lba < 2 ^ 28"
  show "length buf = 512 \<Longrightarrow> \<not> bad (view d) (unat lba) \<Longrightarrow> \<exists>d'. ata_read dev lba 1 buf d = (0, sector_bytes (store (view d) (unat lba)), d') \<and>
      drive_ready (view d') \<and> (\<lambda>l. sector_bytes (store (view d') l)) = (\<lambda>l. sector_bytes (store (view d) l)) \<and> bad (view d') = bad (view d)"
    using ata_read_ok [OF d(1), of 1 lba buf] d(2) by auto
  show "length buf = 512 \<Longrightarrow> \<not> bad (view d) (unat lba) \<Longrightarrow> \<exists>d'. ata_write dev lba 1 buf d = (0, d') \<and> drive_ready (view d') \<and>
      (\<lambda>l. sector_bytes (store (view d') l)) = (\<lambda>l. sector_bytes (store (view d) l))(unat lba := buf) \<and> bad (view d') = bad (view d)"
  proof -
    assume b: "length buf = 512" "\<not> bad (view d) (unat lba)"
    obtain d' where d': "ata_write dev lba 1 buf d = (0, d')" "drive_ready (view d')" "bad (view d') = bad (view d)"
      "\<And>j. j \<noteq> unat lba \<Longrightarrow> store (view d') j = store (view d) j" "\<forall>i<256. store (view d') (unat lba) i = buf_word buf 0 i"
    proof -
      have "\<exists>d'. ata_write dev lba 1 buf d = (0, d') \<and> drive_ready (view d') \<and> bad (view d') = bad (view d) \<and>
          (\<forall>j. j < unat lba \<or> unat lba + unat (1 :: u8) \<le> j \<longrightarrow> store (view d') j = store (view d) j) \<and>
          (\<forall>j<unat (1 :: u8). \<forall>i<256. store (view d') (unat lba + j) i = buf_word buf j i)"
        by (rule ata_write_ok) (use d b in auto)
      then obtain d' where "ata_write dev lba 1 buf d = (0, d')" "drive_ready (view d')" "bad (view d') = bad (view d)"
        "\<forall>j. j < unat lba \<or> unat lba + 1 \<le> j \<longrightarrow> store (view d') j = store (view d) j"
        "\<forall>j<1. \<forall>i<256. store (view d') (unat lba + j) i = buf_word buf j i"
        by (auto simp only: unsigned_1)
      then show thesis
        using that [of d'] by (metis Suc_eq_plus1 Suc_leI add_0_right less_one linorder_neqE_nat)
    qed
    have "(\<lambda>l. sector_bytes (store (view d') l)) = (\<lambda>l. sector_bytes (store (view d) l))(unat lba := buf)"
      using sector_bytes_buf [OF d'(5)] b(1) d'(4) by (intro ext) simp
    then show ?thesis
      using d' by blast
  qed
  show "bad (view d) (unat lba) \<Longrightarrow> \<exists>d'. ata_read dev lba 1 buf d = (- 1, buf, d') \<and> drive_ready (view d') \<and>
      (\<lambda>l. sector_bytes (store (view d') l)) = (\<lambda>l. sector_bytes (store (view d) l)) \<and> bad (view d') = bad (view d)"
    using ata_read_bad [OF d(1), of 1 lba buf] d(2) by auto
  show "bad (view d) (unat lba) \<Longrightarrow> \<exists>d'. ata_write dev lba 1 buf d = (- 1, d') \<and> drive_ready (view d') \<and>
      (\<lambda>l. sector_bytes (store (view d') l)) = (\<lambda>l. sector_bytes (store (view d) l)) \<and> bad (view d') = bad (view d)"
    using ata_write_bad [OF d(1), of 1 lba buf] d(2) by auto
qed simp

context pio_drive
begin

lemma device: "block_device dev (\<lambda>d. drive_ready (view d)) (\<lambda>d l. sector_bytes (store (view d) l)) (\<lambda>d. bad (view d))"
  by unfold_locales

end

section \<open>A concrete drive\<close>

text \<open>
  A drive that is exactly its description and is busy for \<open>lag\<close> polls after every command and every sector shows that the
  interface can be met.
\<close>

definition ide_status :: "drive \<Rightarrow> u8 \<times> drive" where
  "ide_status v = (if 0 < busy v then (0x80, v\<lparr>busy := busy v - 1\<rparr>)
     else (case phase v of Idle \<Rightarrow> 0x40 | Failed \<Rightarrow> 0x41 | _ \<Rightarrow> 0x48, v))"

definition ide_outb :: "nat \<Rightarrow> u16 \<Rightarrow> u8 \<Rightarrow> drive \<Rightarrow> drive" where
  "ide_outb lag p x v =
     (if p = 0x1F6 then v\<lparr>reg_drive := x\<rparr> else if p = 0x1F2 then v\<lparr>reg_count := x\<rparr>
      else if p = 0x1F3 then v\<lparr>reg_lo := x\<rparr> else if p = 0x1F4 then v\<lparr>reg_mid := x\<rparr>
      else if p = 0x1F5 then v\<lparr>reg_hi := x\<rparr>
      else if x = 0x20 then v\<lparr>phase := seek Data_in v (reg_lba v) (unat (reg_count v)), busy := lag\<rparr>
      else if x = 0x30 then v\<lparr>phase := seek Data_out v (reg_lba v) (unat (reg_count v)), busy := lag\<rparr>
      else v\<lparr>phase := Idle, busy := lag\<rparr>)"

definition ide_inw :: "nat \<Rightarrow> drive \<Rightarrow> u16 \<times> drive" where
  "ide_inw lag v = (case phase v of
     Data_in l n i \<Rightarrow> (store v l i,
       if i < 255 then v\<lparr>phase := Data_in l n (Suc i)\<rparr> else v\<lparr>phase := seek Data_in v (Suc l) (n - 1), busy := lag\<rparr>)
   | _ \<Rightarrow> (0, v))"

definition ide_outw :: "nat \<Rightarrow> u16 \<Rightarrow> drive \<Rightarrow> drive" where
  "ide_outw lag w v = (case phase v of
     Data_out l n i \<Rightarrow>
       let v' = v\<lparr>store := (store v)(l := (store v l)(i := w))\<rparr> in
       if i < 255 then v'\<lparr>phase := Data_out l n (Suc i)\<rparr> else v'\<lparr>phase := seek Data_out v (Suc l) (n - 1), busy := lag\<rparr>
   | _ \<Rightarrow> v)"

definition ide :: "nat \<Rightarrow> drive ports" where
  "ide lag = \<lparr>inb = \<lambda>_. ide_status, outb = ide_outb lag, inw = \<lambda>_. ide_inw lag, outw = \<lambda>_. ide_outw lag\<rparr>"

lemmas ide_defs = ide_def ide_status_def ide_outb_def ide_inw_def ide_outw_def
  ATA_DATA_def ATA_SECCNT_def ATA_LBA_LO_def ATA_LBA_MID_def ATA_LBA_HI_def ATA_DRIVE_def ATA_STATUS_def ATA_CMD_def

lemma pio_drive_ide: "lag < ATA_TIMEOUT \<Longrightarrow> pio_drive (ide lag) id"
  by unfold_locales (auto simp: ide_defs commandable_def resting_def Let_def split: if_splits phase.splits)

interpretation ide: pio_drive "ide 3" id
  by (rule pio_drive_ide) (simp add: ATA_TIMEOUT_def)

text \<open>
  C9: transfers are exact. On any drive that follows the protocol, however long it takes below the driver's patience,
  writing \<open>n\<close> sectors succeeds, changes those sectors and no others, and reading them
  back yields the bytes that were written; a transfer that starts at a sector the drive cannot access fails, within the polling bound,
  and changes neither the disk nor the buffer.
\<close>

theorem ata_roundtrip:
  assumes "pio_drive dev view" "drive_ready (view d)" "0 < n" "unat lba + unat n \<le> 2 ^ 28" "length buf = 512 * unat n"
    and "length buf' = 512 * unat n"
  shows "((\<forall>i<unat n. \<not> bad (view d) (unat lba + i)) \<longrightarrow> (\<exists>d1 d2. ata_write dev lba n buf d = (0, d1) \<and>
        (\<forall>l. l < unat lba \<or> unat lba + unat n \<le> l \<longrightarrow> store (view d1) l = store (view d) l) \<and>
        ata_read dev lba n buf' d1 = (0, buf, d2) \<and> store (view d2) = store (view d1) \<and> drive_ready (view d2))) \<and>
    (bad (view d) (unat lba) \<longrightarrow> (\<exists>d1 d2. ata_write dev lba n buf d = (- 1, d1) \<and> store (view d1) = store (view d) \<and>
        ata_read dev lba n buf' d = (- 1, buf', d2) \<and> store (view d2) = store (view d)))"
proof (intro conjI impI)
  assume g: "\<forall>i<unat n. \<not> bad (view d) (unat lba + i)"
  obtain d1 where d1: "ata_write dev lba n buf d = (0, d1)" "drive_ready (view d1)" "bad (view d1) = bad (view d)"
    "\<forall>l. l < unat lba \<or> unat lba + unat n \<le> l \<longrightarrow> store (view d1) l = store (view d) l"
    "\<forall>j<unat n. \<forall>i<256. store (view d1) (unat lba + j) i = buf_word buf j i"
    using pio_drive.ata_write_ok [OF assms(1-4), of buf] g by blast
  obtain d2 where d2: "ata_read dev lba n buf' d1 = (0, concat (map (\<lambda>i. sector_bytes (store (view d1) (unat lba + i))) [0..<unat n]) @
      drop (512 * unat n) buf', d2)" "drive_ready (view d2)" "store (view d2) = store (view d1)"
    using pio_drive.ata_read_ok [OF assms(1) d1(2) assms(3,4), of buf'] g d1(3) assms(6) by auto
  have "map (\<lambda>i. sector_bytes (store (view d1) (unat lba + i))) [0..<unat n] = map (\<lambda>i. take 512 (drop (512 * i) buf)) [0..<unat n]"
    using d1(5) assms(5) by (auto intro!: sector_bytes_buf)
  then have "concat (map (\<lambda>i. sector_bytes (store (view d1) (unat lba + i))) [0..<unat n]) = buf"
    using concat_chunks [of "unat n" buf] assms(5) by (simp del: map_eq_conv)
  then show "\<exists>d1 d2. ata_write dev lba n buf d = (0, d1) \<and>
      (\<forall>l. l < unat lba \<or> unat lba + unat n \<le> l \<longrightarrow> store (view d1) l = store (view d) l) \<and>
      ata_read dev lba n buf' d1 = (0, buf, d2) \<and> store (view d2) = store (view d1) \<and> drive_ready (view d2)"
    using d1 d2 assms(6) by auto
next
  assume b: "bad (view d) (unat lba)"
  have "0 < unat n"
    using assms(3) by (simp add: word_less_nat_alt)
  then have "unat lba < 2 ^ 28"
    using assms(4) by linarith
  then show "\<exists>d1 d2. ata_write dev lba n buf d = (- 1, d1) \<and> store (view d1) = store (view d) \<and>
        ata_read dev lba n buf' d = (- 1, buf', d2) \<and> store (view d2) = store (view d)"
    using pio_drive.ata_write_bad [OF assms(1-3) _ b, of buf] pio_drive.ata_read_bad [OF assms(1-3) _ b, of buf'] by blast
qed

definition blank_drive :: drive where
  "blank_drive = \<lparr>store = \<lambda>_ _. 0, bad = \<lambda>l. l = 7, reg_drive = 0, reg_count = 0, reg_lo = 0, reg_mid = 0, reg_hi = 0, phase = Idle, busy = 5\<rparr>"

theorem ata_roundtrip_witness:
  "(\<exists>d1 d2. ata_write (ide 3) 0x12345 2 (replicate 1024 0xA5) blank_drive = (0, d1) \<and>
      ata_read (ide 3) 0x12345 2 (replicate 1024 0) d1 = (0, replicate 1024 0xA5, d2)) \<and>
   (\<exists>d1. ata_write (ide 3) 7 1 (replicate 512 0xA5) blank_drive = (- 1, d1) \<and> store d1 = store blank_drive)"
proof
  have r: "drive_ready (id blank_drive)"
    by (simp add: drive_ready_def resting_def blank_drive_def ATA_TIMEOUT_def)
  show "\<exists>d1 d2. ata_write (ide 3) 0x12345 2 (replicate 1024 0xA5) blank_drive = (0, d1) \<and>
      ata_read (ide 3) 0x12345 2 (replicate 1024 0) d1 = (0, replicate 1024 0xA5, d2)"
    using ata_roundtrip [OF ide.pio_drive_axioms r, of 2 "0x12345" "replicate 1024 0xA5" "replicate 1024 0"]
    by (auto simp: blank_drive_def)
  show "\<exists>d1. ata_write (ide 3) 7 1 (replicate 512 0xA5) blank_drive = (- 1, d1) \<and> store d1 = store blank_drive"
    using ata_roundtrip [OF ide.pio_drive_axioms r, of 1 7 "replicate 512 0xA5" "replicate 512 0"]
    by (auto simp: blank_drive_def)
qed

end
