(* ===== verification/Fs.thy ===== *)
theory Fs
  imports Ata Screen
begin

text \<open>
  The file system \<open>kernel/fs.c\<close>.  Its three static buffers are the fields of the state; what the disk holds of them is the
  layout of the structures in bytes.
\<close>

section \<open>Structures and their layout\<close>

definition FS_MAGIC :: u32 where
  "FS_MAGIC = 0x50594F53"

definition SUPER_LBA :: u32 where
  "SUPER_LBA = 99"

definition DIR_LBA :: u32 where
  "DIR_LBA = 100"

definition DATA_LBA :: u32 where
  "DATA_LBA = 101"

definition MAX_FILES :: nat where
  "MAX_FILES = 16"

definition NAME_LEN :: u32 where
  "NAME_LEN = 20"

definition SLOT_SECTORS :: u32 where
  "SLOT_SECTORS = 32"

record fs_entry =
  fname :: "u8 list"
  fsize :: u32
  start_lba :: u32
  fused :: u32

record fs_super =
  magic :: u32
  next_free_lba :: u32
  pad :: "u8 list"

record 'd fs =
  super :: fs_super
  dir :: "fs_entry list"
  secbuf :: "u8 list"
  disk :: 'd

definition word_list :: "u32 \<Rightarrow> u8 list" where
  "word_list v = [ucast v, ucast (drop_bit 8 v), ucast (drop_bit 16 v), ucast (drop_bit 24 v)]"

definition list_word :: "u8 list \<Rightarrow> u32" where
  "list_word xs = ucast (xs ! 0) OR push_bit 8 (ucast (xs ! 1)) OR push_bit 16 (ucast (xs ! 2)) OR push_bit 24 (ucast (xs ! 3))"

definition super_bytes :: "fs_super \<Rightarrow> u8 list" where
  "super_bytes s = word_list (magic s) @ word_list (next_free_lba s) @ pad s"

definition bytes_super :: "u8 list \<Rightarrow> fs_super" where
  "bytes_super b = \<lparr>magic = list_word b, next_free_lba = list_word (drop 4 b), pad = drop 8 b\<rparr>"

definition entry_bytes :: "fs_entry \<Rightarrow> u8 list" where
  "entry_bytes e = fname e @ word_list (fsize e) @ word_list (start_lba e) @ word_list (fused e)"

definition bytes_entry :: "u8 list \<Rightarrow> fs_entry" where
  "bytes_entry b = \<lparr>fname = take 20 b, fsize = list_word (drop 20 b), start_lba = list_word (drop 24 b), fused = list_word (drop 28 b)\<rparr>"

definition dir_bytes :: "fs_entry list \<Rightarrow> u8 list" where
  "dir_bytes es = concat (map entry_bytes es)"

definition bytes_dir :: "u8 list \<Rightarrow> fs_entry list" where
  "bytes_dir b = map (\<lambda>i. bytes_entry (take 32 (drop (32 * i) b))) [0..<MAX_FILES]"

section \<open>Operations\<close>

definition load_meta :: "'d ports \<Rightarrow> 'd fs \<Rightarrow> 'd fs" where
  "load_meta dev s =
     (let (_, b, d) = ata_read dev SUPER_LBA 1 (super_bytes (super s)) (disk s);
          s = s\<lparr>super := bytes_super b, disk := d\<rparr>;
          (_, b, d) = ata_read dev DIR_LBA 1 (dir_bytes (dir s)) (disk s)
      in s\<lparr>dir := bytes_dir b, disk := d\<rparr>)"

definition zero_entry :: fs_entry where
  "zero_entry = \<lparr>fname = replicate 20 0, fsize = 0, start_lba = 0, fused = 0\<rparr>"

definition format :: "'d ports \<Rightarrow> 'd fs \<Rightarrow> 'd fs" where
  "format dev s =
     (let s = s\<lparr>super := \<lparr>magic = FS_MAGIC, next_free_lba = DATA_LBA, pad = replicate 504 0\<rparr>,
                dir := replicate MAX_FILES zero_entry\<rparr>;
          (_, d) = ata_write dev SUPER_LBA 1 (super_bytes (super s)) (disk s);
          (_, d) = ata_write dev DIR_LBA 1 (dir_bytes (dir s)) d
      in s\<lparr>disk := d\<rparr>)"

definition fs_init :: "'d ports \<Rightarrow> 'd fs \<Rightarrow> 'd fs" where
  "fs_init dev s = (let s = load_meta dev s in if magic (super s) \<noteq> FS_MAGIC then format dev s else s)"

text \<open>The bytes readable from \<open>dir[i].name\<close>.\<close>

definition name_at :: "fs_entry list \<Rightarrow> nat \<Rightarrow> bytes" where
  "name_at es i = bytes_of (dir_bytes (drop i es))"

text \<open>\<open>find\<close> has no value if \<open>strcmp\<close> runs off a name.\<close>

fun find_loop :: "fs_entry list \<Rightarrow> bytes \<Rightarrow> nat list \<Rightarrow> nat option option" where
  "find_loop es nm [] = Some None"
| "find_loop es nm (i # is) =
     (if fused (es ! i) \<noteq> 0 then
        case strcmp (name_at es i) nm of None \<Rightarrow> None
        | Some r \<Rightarrow> if r = 0 then Some (Some i) else find_loop es nm is
      else find_loop es nm is)"

definition find :: "fs_entry list \<Rightarrow> bytes \<Rightarrow> nat option option" where
  "find es nm = find_loop es nm [0..<MAX_FILES]"

fun list_loop :: "fs_entry list \<Rightarrow> nat list \<Rightarrow> nat \<Rightarrow> console \<Rightarrow> (nat \<times> console) option" where
  "list_loop es [] count c = Some (count, c)"
| "list_loop es (i # is) count c =
     (if fused (es ! i) \<noteq> 0 then
        case kprint (name_at es i) (kprint_lit ''  '' c) of None \<Rightarrow> None
        | Some c \<Rightarrow> list_loop es is (count + 1) (kprint_lit '' bytes)\<newline>'' (kprint_dec (fsize (es ! i)) (kprint_lit ''  ('' c)))
      else list_loop es is count c)"

definition fs_list :: "'d fs \<Rightarrow> console \<Rightarrow> console option" where
  "fs_list s c = (case list_loop (dir s) [0..<MAX_FILES] 0 c of None \<Rightarrow> None
     | Some (count, c) \<Rightarrow> Some (if count = 0 then kprint_lit ''  (no files)\<newline>'' c else c))"

fun unused_loop :: "fs_entry list \<Rightarrow> nat list \<Rightarrow> nat option" where
  "unused_loop es [] = None"
| "unused_loop es (i # is) = (if fused (es ! i) = 0 then Some i else unused_loop es is)"

definition chunk :: "u32 \<Rightarrow> u32 \<Rightarrow> u32" where
  "chunk sz off = (let c = (if sz > off then sz - off else 0) in if c > 512 then 512 else c)"

fun write_sectors :: "'d ports \<Rightarrow> mem \<Rightarrow> u32 \<Rightarrow> u32 \<Rightarrow> u32 \<Rightarrow> nat list \<Rightarrow> 'd fs \<Rightarrow> bool \<times> 'd fs" where
  "write_sectors dev m src sz start [] s = (True, s)"
| "write_sectors dev m src sz start (k # ks) s =
     (let off = of_nat k * 512;
          c = unat (chunk sz off);
          s = s\<lparr>secbuf := map (\<lambda>i. m (src + off + of_nat i)) [0..<c] @ replicate (512 - c) 0\<rparr>;
          (r, d) = ata_write dev (start + of_nat k) 1 (secbuf s) (disk s);
          s = s\<lparr>disk := d\<rparr>
      in if r \<noteq> 0 then (False, s) else write_sectors dev m src sz start ks s)"

text \<open>\<open>fs_write\<close> from the point where the entry is known.\<close>

definition write_file :: "'d ports \<Rightarrow> nat \<Rightarrow> mem \<Rightarrow> u32 \<Rightarrow> u32 \<Rightarrow> 'd fs \<Rightarrow> int \<times> 'd fs" where
  "write_file dev i m data sz s =
     (let sz = (if sz > SLOT_SECTORS * 512 then SLOT_SECTORS * 512 else sz);
          nsec = (sz + 511) div 512;
          nsec = (if nsec = 0 then 1 else nsec);
          (ok, s) = write_sectors dev m data sz (start_lba (dir s ! i)) [0..<unat nsec] s
      in if \<not> ok then (- 1, s)
         else
           let s = s\<lparr>dir := (dir s)[i := (dir s ! i)\<lparr>fsize := sz\<rparr>]\<rparr>;
               (_, d) = ata_write dev DIR_LBA 1 (dir_bytes (dir s)) (disk s)
           in (0, s\<lparr>disk := d\<rparr>))"

definition new_entry :: "'d ports \<Rightarrow> bytes \<Rightarrow> nat \<Rightarrow> 'd fs \<Rightarrow> 'd fs" where
  "new_entry dev nm i s =
     (let e = dir s ! i;
          s = s\<lparr>dir := (dir s)[i := e\<lparr>fused := 1, fname := strncpy_z (fname e) nm NAME_LEN, start_lba := next_free_lba (super s)\<rparr>],
                super := (super s)\<lparr>next_free_lba := next_free_lba (super s) + SLOT_SECTORS\<rparr>\<rparr>;
          (_, d) = ata_write dev SUPER_LBA 1 (super_bytes (super s)) (disk s)
      in s\<lparr>disk := d\<rparr>)"

definition fs_write :: "'d ports \<Rightarrow> bytes \<Rightarrow> mem \<Rightarrow> u32 \<Rightarrow> u32 \<Rightarrow> 'd fs \<Rightarrow> (int \<times> 'd fs) option" where
  "fs_write dev nm m data sz s =
     (case find (dir s) nm of None \<Rightarrow> None
      | Some (Some i) \<Rightarrow> Some (write_file dev i m data sz s)
      | Some None \<Rightarrow>
          (case unused_loop (dir s) [0..<MAX_FILES] of None \<Rightarrow> Some (- 1, s)
           | Some i \<Rightarrow> Some (write_file dev i m data sz (new_entry dev nm i s))))"

fun read_sectors :: "'d ports \<Rightarrow> u32 \<Rightarrow> u32 \<Rightarrow> u32 \<Rightarrow> nat list \<Rightarrow> mem \<Rightarrow> 'd fs \<Rightarrow> bool \<times> mem \<times> 'd fs" where
  "read_sectors dev dst sz start [] m s = (True, m, s)"
| "read_sectors dev dst sz start (k # ks) m s =
     (let (r, b, d) = ata_read dev (start + of_nat k) 1 (secbuf s) (disk s);
          s = s\<lparr>secbuf := b, disk := d\<rparr>
      in if r \<noteq> 0 then (False, m, s)
         else
           let off = of_nat k * 512;
               m = put_bytes (dst + off) (take (unat (chunk sz off)) (secbuf s)) m
           in read_sectors dev dst sz start ks m s)"

definition fs_read :: "'d ports \<Rightarrow> bytes \<Rightarrow> u32 \<Rightarrow> u32 \<Rightarrow> mem \<Rightarrow> 'd fs \<Rightarrow> (int \<times> u32 option \<times> mem \<times> 'd fs) option" where
  "fs_read dev nm buf limit m s =
     (case find (dir s) nm of None \<Rightarrow> None
      | Some None \<Rightarrow> Some (- 1, None, m, s)
      | Some (Some i) \<Rightarrow>
          let sz = fsize (dir s ! i);
              sz = (if sz > limit then limit else sz);
              nsec = (sz + 511) div 512;
              (ok, m, s) = read_sectors dev buf sz (start_lba (dir s ! i)) [0..<unat nsec] m s
          in if \<not> ok then Some (- 1, None, m, s) else Some (0, Some sz, m, s))"

section \<open>Layout round trips\<close>

lemma length_word_list [simp]: "length (word_list v) = 4"
  by (simp add: word_list_def)

lemma list_word_list [simp]: "list_word (word_list v @ xs) = v" "list_word (word_list v) = v"
proof -
  have "list_word (word_list v @ xs) = v" for xs
  proof (rule bit_word_eqI)
    fix n :: nat
    assume "n < LENGTH(32)"
    then consider "n < 8" | "8 \<le> n" "n < 16" | "16 \<le> n" "n < 24" | "24 \<le> n" "n < 32"
      by fastforce
    then show "bit (list_word (word_list v @ xs)) n = bit v n"
      by cases (auto simp: list_word_def word_list_def bit_or_iff bit_push_bit_iff bit_ucast_iff bit_drop_bit_eq)
  qed
  from this [of xs] this [of "[]"] show "list_word (word_list v @ xs) = v" "list_word (word_list v) = v"
    by simp_all
qed

lemma bytes_super_bytes [simp]: "bytes_super (super_bytes s) = s"
  by (simp add: bytes_super_def super_bytes_def)

lemma length_super_bytes [simp]: "length (super_bytes s) = 8 + length (pad s)"
  by (simp add: super_bytes_def)

lemma length_entry_bytes [simp]: "length (entry_bytes e) = length (fname e) + 12"
  by (simp add: entry_bytes_def)

lemma bytes_entry_bytes: "length (fname e) = 20 \<Longrightarrow> bytes_entry (entry_bytes e) = e"
  by (simp add: bytes_entry_def entry_bytes_def)

lemma dir_bytes_Cons [simp]: "dir_bytes [] = []" "dir_bytes (e # es) = entry_bytes e @ dir_bytes es"
  by (simp_all add: dir_bytes_def)

lemma length_dir_bytes: "\<forall>e \<in> set es. length (fname e) = 20 \<Longrightarrow> length (dir_bytes es) = 32 * length es"
  by (induction es) auto

lemma length_dir_bytes_full:
  "length es = MAX_FILES \<Longrightarrow> \<forall>e \<in> set es. length (fname e) = 20 \<Longrightarrow> length (dir_bytes es) = 512"
  by (simp add: length_dir_bytes MAX_FILES_def)

lemma dir_bytes_slice:
  "\<forall>e \<in> set es. length (fname e) = 20 \<Longrightarrow> i < length es \<Longrightarrow> take 32 (drop (32 * i) (dir_bytes es)) = entry_bytes (es ! i)"
proof (induction es arbitrary: i)
  case (Cons e es)
  then show ?case
    by (cases i) simp_all
qed simp

lemma bytes_dir_bytes:
  assumes "\<forall>e \<in> set es. length (fname e) = 20" "length es = MAX_FILES"
  shows "bytes_dir (dir_bytes es) = es"
  by (rule nth_equalityI) (use assms in \<open>simp_all add: bytes_dir_def dir_bytes_slice bytes_entry_bytes\<close>)

section \<open>Names\<close>

lemma new_name:
  assumes "cstr nm xs" "length xs < 20" "length ys = 20"
  shows "length (strncpy_z ys nm NAME_LEN) = 20" "0 \<in> set (strncpy_z ys nm NAME_LEN)" "c_string (strncpy_z ys nm NAME_LEN) = xs"
proof -
  have "strncpy_z ys nm NAME_LEN = xs @ 0 # drop (length xs + 1) ys"
    using strncpy_loop_ok [of nm 0 xs 19 ys] assms by (simp add: strncpy_z_def NAME_LEN_def)
  then show "length (strncpy_z ys nm NAME_LEN) = 20" "0 \<in> set (strncpy_z ys nm NAME_LEN)" "c_string (strncpy_z ys nm NAME_LEN) = xs"
    using assms cstr_no_zero [OF assms(1)] by (simp_all add: c_string_terminated)
qed

definition lookup :: "fs_entry list \<Rightarrow> u8 list \<Rightarrow> nat option" where
  "lookup es xs = List.find (\<lambda>i. fused (es ! i) \<noteq> 0 \<and> c_string (fname (es ! i)) = xs) [0..<MAX_FILES]"

lemma find_lookup:
  assumes "cstr nm xs" "length es = MAX_FILES" "\<And>i. i < MAX_FILES \<Longrightarrow> fused (es ! i) \<noteq> 0 \<Longrightarrow> 0 \<in> set (fname (es ! i))"
  shows "find es nm = Some (lookup es xs)"
proof -
  have "find_loop es nm is = Some (List.find (\<lambda>i. fused (es ! i) \<noteq> 0 \<and> c_string (fname (es ! i)) = xs) is)" if "set is \<subseteq> {..<MAX_FILES}" for "is"
    using that
  proof (induction "is")
    case (Cons i "is")
    show ?case
    proof (cases "fused (es ! i) = 0")
      case False
      have "cstr (name_at es i) (c_string (fname (es ! i)))"
        using cstr_c_string [of "fname (es ! i)"] assms(2,3) Cons.prems False
        by (simp add: name_at_def flip: Cons_nth_drop_Suc) (simp add: entry_bytes_def)
      then show ?thesis
        using strcmp_cstr [of "name_at es i" "c_string (fname (es ! i))" nm xs] assms(1) Cons False by (auto simp: compares_def)
    qed (use Cons in auto)
  qed simp
  then show ?thesis
    by (simp add: find_def lookup_def lessThan_atLeast0)
qed

section \<open>Data in sectors\<close>

definition data_bytes :: "mem \<Rightarrow> u32 \<Rightarrow> nat \<Rightarrow> u8 list" where
  "data_bytes m p n = map (\<lambda>i. m (p + of_nat i)) [0..<n]"

lemma length_data_bytes [simp]: "length (data_bytes m p n) = n"
  by (simp add: data_bytes_def)

definition padded :: "u8 list \<Rightarrow> nat \<Rightarrow> u8 list" where
  "padded xs n = xs @ replicate (512 * n - length xs) 0"

lemma unat_chunk:
  assumes "unat sz \<le> 16384" "k \<le> 32"
  shows "unat (chunk sz (of_nat k * 512)) = min 512 (unat sz - 512 * k)"
proof -
  have off: "unat (of_nat k * 512 :: u32) = 512 * k"
    using assms(2) by (simp add: unat_mult_u32 unat_of_nat_u32)
  show ?thesis
    using assms off unat_sub [of "of_nat k * 512" sz]
    by (auto simp: chunk_def Let_def word_less_nat_alt word_le_nat_alt not_less)
qed

lemma write_buffer:
  assumes "unat sz \<le> 16384" "k < n" "n \<le> 32" "unat sz \<le> 512 * n"
  defines "c \<equiv> unat (chunk sz (of_nat k * 512))"
  shows "map (\<lambda>i. m (src + of_nat k * 512 + of_nat i)) [0..<c] @ replicate (512 - c) 0 =
    take 512 (drop (512 * k) (padded (data_bytes m src (unat sz)) n))"
proof -
  have c: "c = min 512 (unat sz - 512 * k)"
    using unat_chunk [OF assms(1), of k] assms(2,3) by (simp add: c_def)
  show ?thesis
  proof (rule nth_equalityI)
    have k: "512 * k + 512 \<le> 512 * n"
      using assms(2) by simp
    then show "length (map (\<lambda>i. m (src + of_nat k * 512 + of_nat i)) [0..<c] @ replicate (512 - c) 0) =
        length (take 512 (drop (512 * k) (padded (data_bytes m src (unat sz)) n)))"
      using assms(4) by (simp add: c padded_def)
    fix i
    assume i: "i < length (map (\<lambda>i. m (src + of_nat k * 512 + of_nat i)) [0..<c] @ replicate (512 - c) (0 :: u8))"
    then have "i < 512"
      by (simp add: c)
    have e: "of_nat (512 * k + i) = (of_nat k * 512 + of_nat i :: u32)"
      by simp
    show "(map (\<lambda>i. m (src + of_nat k * 512 + of_nat i)) [0..<c] @ replicate (512 - c) 0) ! i =
        take 512 (drop (512 * k) (padded (data_bytes m src (unat sz)) n)) ! i"
      using \<open>i < 512\<close> k assms(4) e by (auto simp: c padded_def nth_append data_bytes_def ac_simps)
  qed
qed

lemma concat_padded:
  assumes "length xs \<le> 512 * n"
  shows "concat (map (\<lambda>k. take 512 (drop (512 * k) (padded xs n))) [0..<n]) = padded xs n"
  using concat_chunks [of n "padded xs n"] assms by (simp add: padded_def)

lemma put_bytes_append: "put_bytes dst (xs @ ys) m = put_bytes (dst + of_nat (length xs)) ys (put_bytes dst xs m)"
proof -
  have one: "fold (\<lambda>i m. m(dst + of_nat i := (xs @ ys) ! i)) [0..<length xs] m = put_bytes dst xs m"
    unfolding put_bytes_def by (rule fold_cong) (auto simp: nth_append)
  have two: "fold (\<lambda>i m. m(dst + of_nat i := (xs @ ys) ! i)) [length xs..<length xs + length ys] m' = put_bytes (dst + of_nat (length xs)) ys m'" for m'
  proof -
    have "[length xs..<length xs + length ys] = map ((+) (length xs)) [0..<length ys]"
      by (rule nth_equalityI) simp_all
    then show ?thesis
      unfolding put_bytes_def by (simp add: fold_map comp_def add.assoc)
  qed
  have three: "[0..<length (xs @ ys)] = [0..<length xs] @ [length xs..<length xs + length ys]"
    using upt_add_eq_append [of 0 "length xs" "length ys"] by simp
  show ?thesis
    unfolding put_bytes_def [of dst "xs @ ys"] three fold_append comp_apply one two ..
qed

lemma put_bytes_Nil [simp]: "put_bytes dst [] m = m"
  by (simp add: put_bytes_def)

section \<open>The invariant and the files\<close>

definition used_entries :: "fs_entry list \<Rightarrow> nat set" where
  "used_entries es = {i. i < MAX_FILES \<and> fused (es ! i) \<noteq> 0}"

text \<open>Where the slot of a new file starts when \<open>k\<close> slots have been handed out.\<close>

definition slot_start :: "nat \<Rightarrow> nat" where
  "slot_start k = unat DATA_LBA + unat SLOT_SECTORS * k"

definition dir_ok :: "fs_super \<Rightarrow> fs_entry list \<Rightarrow> bool" where
  "dir_ok sb es \<longleftrightarrow> length es = MAX_FILES \<and> (\<forall>e \<in> set es. length (fname e) = 20) \<and>
     (\<forall>i \<in> used_entries es. 0 \<in> set (fname (es ! i)) \<and> unat (fsize (es ! i)) \<le> 16384 \<and>
        (\<exists>k < card (used_entries es). unat (start_lba (es ! i)) = slot_start k)) \<and>
     (\<forall>i \<in> used_entries es. \<forall>j \<in> used_entries es. i \<noteq> j \<longrightarrow>
        c_string (fname (es ! i)) \<noteq> c_string (fname (es ! j)) \<and> start_lba (es ! i) \<noteq> start_lba (es ! j)) \<and>
     magic sb = FS_MAGIC \<and> length (pad sb) = 504 \<and> unat (next_free_lba sb) = slot_start (card (used_entries es))"

definition slot_bytes :: "(nat \<Rightarrow> u8 list) \<Rightarrow> fs_entry \<Rightarrow> u8 list" where
  "slot_bytes sec e = take (unat (fsize e)) (concat (map (\<lambda>k. sec (unat (start_lba e) + k)) [0..<unat SLOT_SECTORS]))"

definition files :: "(nat \<Rightarrow> u8 list) \<Rightarrow> fs_entry list \<Rightarrow> u8 list \<rightharpoonup> u8 list" where
  "files sec es xs = map_option (\<lambda>i. slot_bytes sec (es ! i)) (lookup es xs)"

lemma used_entries_finite [simp]: "finite (used_entries es)"
  by (simp add: used_entries_def)

lemma card_entries_le: "card (used_entries es) \<le> MAX_FILES"
proof -
  have "used_entries es \<subseteq> {..<MAX_FILES}"
    by (auto simp: used_entries_def)
  then show ?thesis
    by (metis card_lessThan card_mono finite_lessThan)
qed

lemma find_Some_iff':
  "List.find P [0..<n] = Some i \<longleftrightarrow> i < n \<and> P i \<and> (\<forall>j<i. \<not> P j)"
  by (auto simp: find_Some_iff)

lemma lookup_Some:
  assumes "dir_ok sb es"
  shows "lookup es xs = Some i \<longleftrightarrow> i \<in> used_entries es \<and> c_string (fname (es ! i)) = xs"
  using assms by (auto simp: lookup_def find_Some_iff' dir_ok_def used_entries_def)

lemma lookup_None: "lookup es xs = None \<longleftrightarrow> (\<forall>i \<in> used_entries es. c_string (fname (es ! i)) \<noteq> xs)"
  by (auto simp: lookup_def find_None_iff used_entries_def)

lemma unused_loop_ok: "unused_loop es is = List.find (\<lambda>i. fused (es ! i) = 0) is"
  by (induction "is") auto

lemma unused_None: "unused_loop es [0..<MAX_FILES] = None \<longleftrightarrow> card (used_entries es) = MAX_FILES"
proof -
  have "unused_loop es [0..<MAX_FILES] = None \<longleftrightarrow> used_entries es = {..<MAX_FILES}"
    by (auto simp: unused_loop_ok find_None_iff used_entries_def)
  moreover have "used_entries es \<subseteq> {..<MAX_FILES}"
    by (auto simp: used_entries_def)
  ultimately show ?thesis
    by (metis card_lessThan card_subset_eq finite_lessThan)
qed

lemma used_entries_update:
  "i < length es \<Longrightarrow> length es = MAX_FILES \<Longrightarrow>
   used_entries (es[i := e]) = (if fused e \<noteq> 0 then insert i (used_entries es) else used_entries es - {i})"
  by (auto simp: used_entries_def nth_list_update split: if_splits)

lemma dir_ok_resize:
  assumes "dir_ok sb es" "i \<in> used_entries es" "unat sz \<le> 16384"
  shows "dir_ok sb (es[i := (es ! i)\<lparr>fsize := sz\<rparr>])" "used_entries (es[i := (es ! i)\<lparr>fsize := sz\<rparr>]) = used_entries es"
proof -
  let ?es = "es[i := (es ! i)\<lparr>fsize := sz\<rparr>]"
  have i: "i < length es" "length es = MAX_FILES" "fused (es ! i) \<noteq> 0"
    using assms(1,2) by (auto simp: dir_ok_def used_entries_def)
  have f: "fname (?es ! j) = fname (es ! j)" "start_lba (?es ! j) = start_lba (es ! j)" "unat (fsize (es ! j)) \<le> 16384 \<Longrightarrow> unat (fsize (?es ! j)) \<le> 16384" for j
    using i(1) assms(3) by (auto simp: nth_list_update)
  have l: "\<forall>e \<in> set ?es. length (fname e) = 20"
    using assms(1) i(1) by (auto simp: dir_ok_def in_set_conv_nth f) (metis in_set_conv_nth f(1))
  show u: "used_entries ?es = used_entries es"
    using used_entries_update [OF i(1,2), of "(es ! i)\<lparr>fsize := sz\<rparr>"] i(3) assms(2) by auto
  show "dir_ok sb ?es"
    using assms(1) l unfolding dir_ok_def u by (auto simp: f)
qed

lemma dir_ok_new:
  fixes es :: "fs_entry list" and sb :: fs_super
  assumes "dir_ok sb es" "i \<notin> used_entries es" "i < MAX_FILES" "cstr nm xs" "length xs < 20" "lookup es xs = None" "unat sz \<le> 16384"
  defines "e \<equiv> (es ! i)\<lparr>fused := 1, fname := strncpy_z (fname (es ! i)) nm NAME_LEN, start_lba := next_free_lba sb, fsize := sz\<rparr>"
  shows "dir_ok (sb\<lparr>next_free_lba := next_free_lba sb + SLOT_SECTORS\<rparr>) (es[i := e])" "used_entries (es[i := e]) = insert i (used_entries es)"
proof -
  have i: "i < length es" "length es = MAX_FILES" "length (fname (es ! i)) = 20"
    using assms(1,3) by (auto simp: dir_ok_def)
  note n = new_name [OF assms(4,5) i(3)]
  show u: "used_entries (es[i := e]) = insert i (used_entries es)"
    using used_entries_update [OF i(1,2), of e] by (simp add: e_def)
  have c: "card (insert i (used_entries es)) = Suc (card (used_entries es))"
    using assms(2) by simp
  have "card (insert i (used_entries es)) \<le> MAX_FILES"
    unfolding u [symmetric] by (rule card_entries_le)
  then have k: "card (used_entries es) < 16"
    unfolding c by (simp add: MAX_FILES_def)
  have nf: "unat (next_free_lba sb) = slot_start (card (used_entries es))"
    using assms(1) by (simp add: dir_ok_def)
  then have nf': "unat (next_free_lba sb + SLOT_SECTORS) = slot_start (Suc (card (used_entries es)))"
    using k by (subst unat_add_no_wrap) (simp_all add: slot_start_def SLOT_SECTORS_def DATA_LBA_def)
  have old: "es[i := e] ! j = es ! j" if "j \<in> used_entries es" for j
    using that assms(2) by (metis nth_list_update_neq)
  have new: "es[i := e] ! i = e"
    using i(1) by simp
  have other: "start_lba (es ! j) \<noteq> next_free_lba sb" "c_string (fname (es ! j)) \<noteq> xs" if j: "j \<in> used_entries es" for j
  proof -
    obtain k where "k < card (used_entries es)" "unat (start_lba (es ! j)) = slot_start k"
      using assms(1) j by (auto simp: dir_ok_def)
    then show "start_lba (es ! j) \<noteq> next_free_lba sb"
      using nf by (auto simp: slot_start_def SLOT_SECTORS_def)
    show "c_string (fname (es ! j)) \<noteq> xs"
      using assms(6) j by (simp add: lookup_None)
  qed
  have l: "\<forall>e' \<in> set (es[i := e]). length (fname e') = 20"
    using assms(1) n(1) set_update_subset_insert [of es i e] by (auto simp: dir_ok_def e_def)
  have a: "\<forall>j \<in> insert i (used_entries es). 0 \<in> set (fname (es[i := e] ! j)) \<and> unat (fsize (es[i := e] ! j)) \<le> 16384 \<and>
      (\<exists>k < Suc (card (used_entries es)). unat (start_lba (es[i := e] ! j)) = slot_start k)"
  proof
    fix j
    assume "j \<in> insert i (used_entries es)"
    then consider "j = i" | "j \<in> used_entries es"
      by auto
    then show "0 \<in> set (fname (es[i := e] ! j)) \<and> unat (fsize (es[i := e] ! j)) \<le> 16384 \<and>
        (\<exists>k < Suc (card (used_entries es)). unat (start_lba (es[i := e] ! j)) = slot_start k)"
    proof cases
      case 1
      then show ?thesis
        unfolding 1 new using n(2) assms(7) nf by (auto simp: e_def)
    next
      case 2
      then show ?thesis
        unfolding old [OF 2] using assms(1) by (fastforce simp: dir_ok_def less_Suc_eq)
    qed
  qed
  have b: "\<forall>j \<in> insert i (used_entries es). \<forall>k \<in> insert i (used_entries es). j \<noteq> k \<longrightarrow>
      c_string (fname (es[i := e] ! j)) \<noteq> c_string (fname (es[i := e] ! k)) \<and> start_lba (es[i := e] ! j) \<noteq> start_lba (es[i := e] ! k)"
  proof (intro ballI impI)
    fix j k
    assume jk: "j \<in> insert i (used_entries es)" "k \<in> insert i (used_entries es)" "j \<noteq> k"
    have e: "c_string (fname e) = xs" "start_lba e = next_free_lba sb"
      using n(3) by (simp_all add: e_def)
    consider "j = i" "k \<in> used_entries es" | "k = i" "j \<in> used_entries es" | "j \<in> used_entries es" "k \<in> used_entries es"
      using jk by auto
    then show "c_string (fname (es[i := e] ! j)) \<noteq> c_string (fname (es[i := e] ! k)) \<and> start_lba (es[i := e] ! j) \<noteq> start_lba (es[i := e] ! k)"
    proof cases
      case 1
      then show ?thesis
        using other [OF 1(2)] by (metis old new e)
    next
      case 2
      then show ?thesis
        using other [OF 2(2)] by (metis old new e)
    next
      case 3
      then show ?thesis
        using assms(1) jk(3) unfolding old [OF 3(1)] old [OF 3(2)] dir_ok_def by blast
    qed
  qed
  show "dir_ok (sb\<lparr>next_free_lba := next_free_lba sb + SLOT_SECTORS\<rparr>) (es[i := e])"
    unfolding dir_ok_def u c using l a b i(2) nf' assms(1) by (simp add: dir_ok_def)
qed

text \<open>What a mounted file system keeps true of its state and of the disk, over the operations of a block device.\<close>

definition fs_inv :: "('d \<Rightarrow> bool) \<Rightarrow> ('d \<Rightarrow> nat \<Rightarrow> u8 list) \<Rightarrow> ('d \<Rightarrow> nat \<Rightarrow> bool) \<Rightarrow> 'd fs \<Rightarrow> bool" where
  "fs_inv usable sector broken s \<longleftrightarrow> usable (disk s) \<and> dir_ok (super s) (dir s) \<and> length (secbuf s) = 512 \<and>
     sector (disk s) (unat SUPER_LBA) = super_bytes (super s) \<and> sector (disk s) (unat DIR_LBA) = dir_bytes (dir s) \<and>
     (\<forall>l < slot_start MAX_FILES. \<not> broken (disk s) l)"

lemma slot_start_16: "slot_start MAX_FILES = 613"
  by (simp add: slot_start_def MAX_FILES_def DATA_LBA_def SLOT_SECTORS_def)

context block_device
begin

lemma write_sectors_ok:
  assumes "usable (disk s)" "\<forall>l < slot_start MAX_FILES. \<not> broken (disk s) l" "unat start + 32 \<le> slot_start MAX_FILES" "length (secbuf s) = 512"
    "unat sz \<le> 16384" "k \<le> n" "n \<le> 32" "unat sz \<le> 512 * n"
  shows "\<exists>s'. write_sectors dev m src sz start [k..<n] s = (True, s') \<and> usable (disk s') \<and> broken (disk s') = broken (disk s) \<and>
    super s' = super s \<and> dir s' = dir s \<and> length (secbuf s') = 512 \<and>
    (\<forall>l. sector (disk s') l = (if unat start + k \<le> l \<and> l < unat start + n
       then take 512 (drop (512 * (l - unat start)) (padded (data_bytes m src (unat sz)) n)) else sector (disk s) l))"
  using assms
proof (induction "n - k" arbitrary: k s)
  case 0
  then show ?case
    by auto
next
  case (Suc x)
  then have k: "k < n"
    by simp
  let ?b = "take 512 (drop (512 * k) (padded (data_bytes m src (unat sz)) n))"
  have len: "length ?b = 512"
    using k Suc.prems(8) by (simp add: padded_def)
  have lba: "unat (start + of_nat k) = unat start + k" "unat start + k < slot_start MAX_FILES"
    using k Suc.prems(3,7) unat_plus [of start k] by (simp_all add: slot_start_16)
  obtain d where d: "ata_write dev (start + of_nat k) 1 ?b (disk s) = (0, d)" "usable d"
    "sector d = (sector (disk s))(unat start + k := ?b)" "broken d = broken (disk s)"
    using write_good [of "disk s" "start + of_nat k" ?b] Suc.prems(1,2) len lba by (auto simp: slot_start_16)
  let ?s = "s\<lparr>secbuf := ?b, disk := d\<rparr>"
  have step: "write_sectors dev m src sz start [k..<n] s = write_sectors dev m src sz start [Suc k..<n] ?s"
    using write_buffer [of sz k n m src] Suc.prems(5,7,8) k d(1) by (simp add: upt_conv_Cons Let_def)
  have "\<exists>s'. write_sectors dev m src sz start [Suc k..<n] ?s = (True, s') \<and> usable (disk s') \<and> broken (disk s') = broken (disk ?s) \<and>
    super s' = super ?s \<and> dir s' = dir ?s \<and> length (secbuf s') = 512 \<and>
    (\<forall>l. sector (disk s') l = (if unat start + Suc k \<le> l \<and> l < unat start + n
       then take 512 (drop (512 * (l - unat start)) (padded (data_bytes m src (unat sz)) n)) else sector (disk ?s) l))"
    by (rule Suc.hyps(1)) (use Suc.hyps(2) Suc.prems k d len in auto)
  then obtain s' where s': "write_sectors dev m src sz start [Suc k..<n] ?s = (True, s')" "usable (disk s')" "broken (disk s') = broken d"
    "super s' = super s" "dir s' = dir s" "length (secbuf s') = 512"
    "\<And>l. sector (disk s') l = (if unat start + Suc k \<le> l \<and> l < unat start + n
       then take 512 (drop (512 * (l - unat start)) (padded (data_bytes m src (unat sz)) n)) else sector d l)"
    by auto
  have "sector (disk s') l = (if unat start + k \<le> l \<and> l < unat start + n
       then take 512 (drop (512 * (l - unat start)) (padded (data_bytes m src (unat sz)) n)) else sector (disk s) l)" for l
    using s'(7) [of l] d(3) k by (cases "l = unat start + k") auto
  then show ?case
    using step s' d(4) by auto
qed

end

lemma clamp_size:
  fixes sz :: u32
  defines "sz' \<equiv> if sz > SLOT_SECTORS * 512 then SLOT_SECTORS * 512 else sz"
  defines "n \<equiv> (sz' + 511) div 512"
  defines "n' \<equiv> if n = 0 then 1 else n"
  shows "unat sz' = min (unat sz) 16384" "unat n = (unat sz' + 511) div 512" "unat sz' \<le> 512 * unat n'" "unat n' \<le> 32"
proof -
  show s: "unat sz' = min (unat sz) 16384"
    by (auto simp: sz'_def SLOT_SECTORS_def word_less_nat_alt)
  then have le: "unat sz' \<le> 16384"
    by simp
  then show n: "unat n = (unat sz' + 511) div 512"
    by (simp add: n_def unat_div_distrib unat_add_u32)
  show "unat sz' \<le> 512 * unat n'" "unat n' \<le> 32"
    using le n by (auto simp: n'_def word_unat_eq_iff)
qed

lemma slot_bytes_padded:
  assumes "\<And>k. k < n \<Longrightarrow> sec (unat (start_lba e) + k) = take 512 (drop (512 * k) (padded xs n))" "n \<le> 32" "unat (fsize e) = length xs"
    "length xs \<le> 512 * n"
  shows "slot_bytes sec e = xs"
proof -
  have "[0..<32] = [0..<n] @ [n..<32]"
    using assms(2) upt_add_eq_append [of 0 n "32 - n"] by simp
  moreover have "concat (map (\<lambda>k. sec (unat (start_lba e) + k)) [0..<n]) = padded xs n"
    using concat_padded [OF assms(4)] assms(1) by (metis (no_types, lifting) atLeastLessThan_iff map_cong set_upt)
  ultimately show ?thesis
    using assms(3) by (simp add: slot_bytes_def SLOT_SECTORS_def padded_def)
qed

context block_device
begin

lemma write_file_ok:
  fixes s :: "'d fs" and sz :: u32 and i :: nat
  assumes "usable (disk s)" "\<forall>l < slot_start MAX_FILES. \<not> broken (disk s) l" "length (secbuf s) = 512"
    "slot_start 0 \<le> unat (start_lba (dir s ! i))" "unat (start_lba (dir s ! i)) + 32 \<le> slot_start MAX_FILES"
    "length (dir s) = MAX_FILES" "\<forall>e \<in> set (dir s). length (fname e) = 20" "i < MAX_FILES"
  defines "n \<equiv> min (unat sz) 16384"
  defines "es \<equiv> (dir s)[i := (dir s ! i)\<lparr>fsize := of_nat n\<rparr>]"
  shows "\<exists>s'. write_file dev i m data sz s = (0, s') \<and> usable (disk s') \<and> broken (disk s') = broken (disk s) \<and>
    super s' = super s \<and> dir s' = es \<and> length (secbuf s') = 512 \<and> sector (disk s') (unat DIR_LBA) = dir_bytes es \<and>
    (\<forall>l. l \<noteq> unat DIR_LBA \<longrightarrow> l < unat (start_lba (dir s ! i)) \<or> unat (start_lba (dir s ! i)) + 32 \<le> l \<longrightarrow> sector (disk s') l = sector (disk s) l) \<and>
    slot_bytes (sector (disk s')) (es ! i) = data_bytes m data n"
proof -
  let ?start = "start_lba (dir s ! i)"
  define sz' where "sz' = (if sz > SLOT_SECTORS * 512 then SLOT_SECTORS * 512 else sz)"
  define q where "q = (if (sz' + 511) div 512 = 0 then 1 else (sz' + 511) div 512)"
  have sz: "unat sz' = n" "n \<le> 16384" "n \<le> 512 * unat q" "unat q \<le> 32"
    using clamp_size [of sz, folded sz'_def, folded q_def n_def] by (auto simp: n_def)
  then have sz': "sz' = of_nat n"
    by (simp add: word_unat_eq_iff unat_of_nat_u32)
  obtain s1 where s1: "write_sectors dev m data sz' ?start [0..<unat q] s = (True, s1)" "usable (disk s1)" "broken (disk s1) = broken (disk s)"
    "super s1 = super s" "dir s1 = dir s" "length (secbuf s1) = 512"
    "\<And>l. sector (disk s1) l = (if unat ?start \<le> l \<and> l < unat ?start + unat q
       then take 512 (drop (512 * (l - unat ?start)) (padded (data_bytes m data n) (unat q))) else sector (disk s) l)"
    using write_sectors_ok [of s ?start sz' 0 "unat q" m data] assms(1-5) sz by auto
  have len: "length (dir_bytes es) = 512"
  proof -
    have "\<forall>e \<in> set es. length (fname e) = 20"
      using assms(6-8) set_update_subset_insert [of "dir s" i "(dir s ! i)\<lparr>fsize := of_nat n\<rparr>"] by (auto simp: es_def)
    then show ?thesis
      using assms(6) by (simp add: length_dir_bytes es_def MAX_FILES_def)
  qed
  obtain d where d: "ata_write dev DIR_LBA 1 (dir_bytes es) (disk s1) = (0, d)" "usable d"
    "sector d = (sector (disk s1))(unat DIR_LBA := dir_bytes es)" "broken d = broken (disk s1)"
    using write_good [of "disk s1" DIR_LBA "dir_bytes es"] s1(2,3) assms(2) len by (auto simp: slot_start_16 DIR_LBA_def)
  have r: "write_file dev i m data sz s = (0, s1\<lparr>dir := es, disk := d\<rparr>)"
    using s1(1,5) d(1) unfolding write_file_def sz'_def [symmetric] Let_def q_def [symmetric]
    by (simp add: es_def sz')
  have slot: "slot_start 0 = 101" "unat DIR_LBA = 100"
    by (simp_all add: slot_start_def DATA_LBA_def DIR_LBA_def)
  have "slot_bytes (sector d) (es ! i) = data_bytes m data n"
  proof (rule slot_bytes_padded [of "unat q"])
    fix k
    assume "k < unat q"
    then show "sector d (unat (start_lba (es ! i)) + k) = take 512 (drop (512 * k) (padded (data_bytes m data n) (unat q)))"
      using s1(7) [of "unat ?start + k"] d(3) assms(4,6,8) slot by (auto simp: es_def)
  next
    show "unat (fsize (es ! i)) = length (data_bytes m data n)"
      using assms(6,8) sz(1) sz' by (simp add: es_def)
  qed (use sz in simp_all)
  moreover have "sector d l = sector (disk s) l" if "l \<noteq> unat DIR_LBA" "l < unat ?start \<or> unat ?start + 32 \<le> l" for l
    using that s1(7) [of l] d(3) sz(4) by auto
  moreover have "sector d (unat DIR_LBA) = dir_bytes es"
    using d(3) by simp
  ultimately show ?thesis
    using r s1(3,4,6) d(2,4) by auto
qed

end

lemma slot_start_mono: "j \<le> k \<Longrightarrow> slot_start j \<le> slot_start k"
  by (simp add: slot_start_def)

lemma dir_ok_start: "dir_ok sb es \<Longrightarrow> i \<in> used_entries es \<Longrightarrow> \<exists>k < card (used_entries es). unat (start_lba (es ! i)) = slot_start k"
  by (simp add: dir_ok_def)

lemma dir_ok_slot:
  assumes "dir_ok sb es" "i \<in> used_entries es"
  shows "slot_start 0 \<le> unat (start_lba (es ! i))" "unat (start_lba (es ! i)) + 32 \<le> slot_start (card (used_entries es))"
proof -
  obtain k where "k < card (used_entries es)" "unat (start_lba (es ! i)) = slot_start k"
    using assms by (auto simp: dir_ok_def)
  then show "slot_start 0 \<le> unat (start_lba (es ! i))" "unat (start_lba (es ! i)) + 32 \<le> slot_start (card (used_entries es))"
    by (simp_all add: slot_start_def SLOT_SECTORS_def)
qed

lemma dir_ok_apart:
  assumes "dir_ok sb es" "i \<in> used_entries es" "j \<in> used_entries es" "i \<noteq> j"
  shows "unat (start_lba (es ! i)) + 32 \<le> unat (start_lba (es ! j)) \<or> unat (start_lba (es ! j)) + 32 \<le> unat (start_lba (es ! i))"
proof -
  obtain k l where k: "unat (start_lba (es ! i)) = slot_start k" "unat (start_lba (es ! j)) = slot_start l"
    using dir_ok_start [OF assms(1,2)] dir_ok_start [OF assms(1,3)] by blast
  moreover have "start_lba (es ! i) \<noteq> start_lba (es ! j)"
    using assms unfolding dir_ok_def by blast
  ultimately have "k \<noteq> l"
    by (auto simp: word_unat_eq_iff)
  then show ?thesis
    using k by (auto simp: slot_start_def SLOT_SECTORS_def)
qed

lemma slot_bytes_cong: "(\<And>k. k < 32 \<Longrightarrow> sec (unat (start_lba e) + k) = sec' (unat (start_lba e) + k)) \<Longrightarrow> slot_bytes sec e = slot_bytes sec' e"
  by (auto simp: slot_bytes_def SLOT_SECTORS_def intro!: arg_cong [where f = "take _"] arg_cong [where f = concat])

text \<open>One entry gets new contents; every other slot is as it was.\<close>

lemma files_update:
  assumes ok: "dir_ok sb es" "dir_ok sb' es'" and i: "i \<in> used_entries es'" "used_entries es' = insert i (used_entries es)"
    and same: "\<And>j. j \<noteq> i \<Longrightarrow> es' ! j = es ! j" and nm: "c_string (fname (es' ! i)) = xs" "\<And>j. lookup es xs = Some j \<Longrightarrow> j = i"
    and old: "i \<in> used_entries es \<Longrightarrow> c_string (fname (es ! i)) = xs"
    and new: "slot_bytes sec' (es' ! i) = ys"
    and keep: "\<And>l. l \<noteq> unat DIR_LBA \<Longrightarrow> l \<noteq> unat SUPER_LBA \<Longrightarrow> l < unat (start_lba (es' ! i)) \<or> unat (start_lba (es' ! i)) + 32 \<le> l \<Longrightarrow> sec' l = sec l"
  shows "files sec' es' = (files sec es)(xs \<mapsto> ys)"
proof
  fix zs
  show "files sec' es' zs = ((files sec es)(xs \<mapsto> ys)) zs"
  proof (cases "zs = xs")
    case True
    have "lookup es' xs = Some i"
      using lookup_Some [OF ok(2)] i(1) nm(1) by simp
    then show ?thesis
      using True new by (simp add: files_def)
  next
    case False
    have l: "lookup es' zs = lookup es zs"
    proof (cases "lookup es zs")
      case None
      then have "\<forall>j \<in> used_entries es'. c_string (fname (es' ! j)) \<noteq> zs"
        using False nm(1) same i(2) lookup_None [of es zs] by (metis insertE)
      then show ?thesis
        using None lookup_None [of es' zs] by simp
    next
      case (Some j)
      then have "j \<in> used_entries es" "c_string (fname (es ! j)) = zs"
        using lookup_Some [OF ok(1)] by auto
      moreover from this have "j \<noteq> i"
        using False old by auto
      ultimately show ?thesis
        using Some same [of j] i(2) lookup_Some [OF ok(2), of zs j] by auto
    qed
    show ?thesis
    proof (cases "lookup es zs")
      case (Some j)
      then have "j \<in> used_entries es" "c_string (fname (es ! j)) = zs"
        using lookup_Some [OF ok(1)] by auto
      then have j: "j \<in> used_entries es'" "j \<noteq> i"
        using i(2) old False by auto
      then have e: "es' ! j = es ! j"
        by (intro same)
      have "slot_bytes sec' (es' ! j) = slot_bytes sec (es' ! j)"
        using dir_ok_apart [OF ok(2) j(1) i(1) j(2)] dir_ok_slot(1) [OF ok(2) j(1)]
        by (intro slot_bytes_cong keep) (auto simp: slot_start_def DATA_LBA_def DIR_LBA_def SUPER_LBA_def)
      then show ?thesis
        using Some l False e by (simp add: files_def)
    qed (use l False in \<open>simp add: files_def\<close>)
  qed
qed

context block_device
begin

lemma fs_inv_write:
  assumes inv: "fs_inv usable sector broken s" and nm: "cstr nm xs" "length xs < 20"
    and room: "lookup (dir s) xs \<noteq> None \<or> card (used_entries (dir s)) < MAX_FILES"
  shows "\<exists>s'. fs_write dev nm m data sz s = Some (0, s') \<and> fs_inv usable sector broken s' \<and>
    files (sector (disk s')) (dir s') = (files (sector (disk s)) (dir s))(xs \<mapsto> data_bytes m data (min (unat sz) 16384))"
proof -
  have ok: "dir_ok (super s) (dir s)" and l: "length (dir s) = MAX_FILES" "\<forall>e \<in> set (dir s). length (fname e) = 20"
    using inv by (auto simp: fs_inv_def dir_ok_def)
  have f: "find (dir s) nm = Some (lookup (dir s) xs)"
    using ok by (intro find_lookup [OF nm(1)]) (auto simp: dir_ok_def used_entries_def)
  let ?n = "min (unat sz) 16384"
  have n: "unat (of_nat ?n :: u32) \<le> 16384"
    by (simp add: unat_of_nat_u32)
  show ?thesis
  proof (cases "lookup (dir s) xs")
    case (Some i)
    then have i: "i \<in> used_entries (dir s)" "c_string (fname (dir s ! i)) = xs" "i < MAX_FILES"
      using lookup_Some [OF ok] by (auto simp: used_entries_def)
    let ?es = "(dir s)[i := (dir s ! i)\<lparr>fsize := of_nat ?n\<rparr>]"
    note r = dir_ok_resize [OF ok i(1) n]
    have "unat (start_lba (dir s ! i)) + 32 \<le> slot_start MAX_FILES"
      using dir_ok_slot(2) [OF ok i(1)] slot_start_mono [OF card_entries_le] by (rule le_trans)
    then obtain s' where s': "write_file dev i m data sz s = (0, s')" "usable (disk s')" "broken (disk s') = broken (disk s)"
      "super s' = super s" "dir s' = ?es" "length (secbuf s') = 512" "sector (disk s') (unat DIR_LBA) = dir_bytes ?es"
      "\<And>l. l \<noteq> unat DIR_LBA \<Longrightarrow> l < unat (start_lba (dir s ! i)) \<or> unat (start_lba (dir s ! i)) + 32 \<le> l \<Longrightarrow> sector (disk s') l = sector (disk s) l"
      "slot_bytes (sector (disk s')) (?es ! i) = data_bytes m data ?n"
      using write_file_ok [where s = s and i = i and sz = sz and m = m and data = data] inv l i(3) dir_ok_slot(1) [OF ok i(1)] by (auto simp: fs_inv_def)
    have "sector (disk s') (unat SUPER_LBA) = super_bytes (super s')"
      using s'(8) [of "unat SUPER_LBA"] dir_ok_slot(1) [OF ok i(1)] inv s'(4)
      by (simp add: fs_inv_def SUPER_LBA_def DIR_LBA_def slot_start_def DATA_LBA_def)
    then have "fs_inv usable sector broken s'"
      using inv s' r(1) by (simp add: fs_inv_def)
    moreover have "files (sector (disk s')) ?es = (files (sector (disk s)) (dir s))(xs \<mapsto> data_bytes m data ?n)"
      by (rule files_update [OF ok r(1), of i]) (use i r(2) s'(8,9) l lookup_Some [OF ok] Some in auto)
    ultimately show ?thesis
      using f Some s'(1,5) by (simp add: fs_write_def)
  next
    case None
    then have "card (used_entries (dir s)) < MAX_FILES"
      using room by simp
    then obtain i where u: "unused_loop (dir s) [0..<MAX_FILES] = Some i"
      using unused_None [of "dir s"] by fastforce
    then have i: "i \<notin> used_entries (dir s)" "i < MAX_FILES"
      by (auto simp: unused_loop_ok find_Some_iff' used_entries_def)
    let ?e = "(dir s ! i)\<lparr>fused := 1, fname := strncpy_z (fname (dir s ! i)) nm NAME_LEN, start_lba := next_free_lba (super s)\<rparr>"
    let ?e' = "(dir s ! i)\<lparr>fused := 1, fname := strncpy_z (fname (dir s ! i)) nm NAME_LEN, start_lba := next_free_lba (super s), fsize := of_nat ?n\<rparr>"
    let ?sb = "(super s)\<lparr>next_free_lba := next_free_lba (super s) + SLOT_SECTORS\<rparr>"
    note r = dir_ok_new [OF ok i nm None n]
    note nn = new_name [OF nm, of "fname (dir s ! i)"]
    have len: "length (fname (dir s ! i)) = 20"
      using l i(2) by simp
    obtain d where d: "ata_write dev SUPER_LBA 1 (super_bytes ?sb) (disk s) = (0, d)" "usable d"
      "sector d = (sector (disk s))(unat SUPER_LBA := super_bytes ?sb)" "broken d = broken (disk s)"
      using write_good [of "disk s" SUPER_LBA "super_bytes ?sb"] inv by (auto simp: fs_inv_def dir_ok_def slot_start_16 SUPER_LBA_def)
    define t where "t = s\<lparr>dir := (dir s)[i := ?e], super := ?sb, disk := d\<rparr>"
    have t: "new_entry dev nm i s = t"
      using d(1) by (simp add: new_entry_def t_def Let_def)
    have start: "unat (next_free_lba (super s)) = slot_start (card (used_entries (dir s)))"
      using ok by (simp add: dir_ok_def)
    have i': "i < length (dir s)"
      using l(1) i(2) by simp
    have ti: "dir t ! i = ?e" "length (dir t) = MAX_FILES" "secbuf t = secbuf s" "disk t = d" "super t = ?sb"
      using i' l(1) by (simp_all add: t_def)
    have tl: "\<forall>e \<in> set (dir t). length (fname e) = 20"
      using l(2) nn(1) [OF len] set_update_subset_insert [of "dir s" i ?e] by (auto simp: t_def)
    have es: "(dir t)[i := (dir t ! i)\<lparr>fsize := of_nat ?n\<rparr>] = (dir s)[i := ?e']"
      using i' by (simp add: t_def)
    have room: "slot_start (card (used_entries (dir s))) + 32 \<le> slot_start MAX_FILES"
      using \<open>card (used_entries (dir s)) < MAX_FILES\<close> slot_start_mono [of "Suc (card (used_entries (dir s)))" MAX_FILES]
      by (simp add: slot_start_def SLOT_SECTORS_def)
    obtain s' where s': "write_file dev i m data sz t = (0, s')" "usable (disk s')" "broken (disk s') = broken d"
      "super s' = ?sb" "dir s' = (dir s)[i := ?e']" "length (secbuf s') = 512" "sector (disk s') (unat DIR_LBA) = dir_bytes ((dir s)[i := ?e'])"
      "\<And>l. l \<noteq> unat DIR_LBA \<Longrightarrow> l < unat (next_free_lba (super s)) \<or> unat (next_free_lba (super s)) + 32 \<le> l \<Longrightarrow> sector (disk s') l = sector d l"
      "slot_bytes (sector (disk s')) ((dir s)[i := ?e'] ! i) = data_bytes m data ?n"
      using write_file_ok [where s = t and i = i and sz = sz and m = m and data = data, unfolded es] inv d(2,4) ti tl i(2) start room
        slot_start_mono [of 0 "card (used_entries (dir s))"] by (auto simp: fs_inv_def)
    have "sector (disk s') (unat SUPER_LBA) = super_bytes (super s')"
      using s'(8) [of "unat SUPER_LBA"] start s'(4) d(3)
      by (simp add: SUPER_LBA_def DIR_LBA_def slot_start_def DATA_LBA_def)
    then have "fs_inv usable sector broken s'"
      using inv s' r(1) d(4) by (simp add: fs_inv_def)
    moreover have "files (sector (disk s')) ((dir s)[i := ?e']) = (files (sector (disk s)) (dir s))(xs \<mapsto> data_bytes m data ?n)"
    proof (rule files_update [OF ok r(1), of i])
      show "c_string (fname ((dir s)[i := ?e'] ! i)) = xs"
        using nn(3) [OF len] i' by simp
      show "sector (disk s') l = sector (disk s) l" if "l \<noteq> unat DIR_LBA" "l \<noteq> unat SUPER_LBA"
        "l < unat (start_lba ((dir s)[i := ?e'] ! i)) \<or> unat (start_lba ((dir s)[i := ?e'] ! i)) + 32 \<le> l" for l
        using that s'(8) [of l] d(3) i' by simp
    qed (use r(2) s'(9) i None in auto)
    ultimately show ?thesis
      using f None u t s'(1,5) by (simp add: fs_write_def)
  qed
qed

lemma fs_inv_full:
  assumes "fs_inv usable sector broken s" "cstr nm xs" "lookup (dir s) xs = None" "card (used_entries (dir s)) = MAX_FILES"
  shows "fs_write dev nm m data sz s = Some (- 1, s)"
proof -
  have "find (dir s) nm = Some None"
    using assms(1,3) find_lookup [OF assms(2)] by (auto simp: fs_inv_def dir_ok_def used_entries_def)
  then show ?thesis
    using unused_None [of "dir s"] assms(4) by (simp add: fs_write_def)
qed
end

context block_device
begin

lemma read_sectors_ok:
  assumes "usable (disk s)" "\<forall>l < slot_start MAX_FILES. \<not> broken (disk s) l" "unat start + 32 \<le> slot_start MAX_FILES" "length (secbuf s) = 512"
    "unat sz \<le> 16384" "k \<le> n" "n \<le> 32"
  shows "\<exists>s'. read_sectors dev dst sz start [k..<n] m s =
      (True, put_bytes (dst + of_nat k * 512) (take (unat sz - 512 * k) (concat (map (\<lambda>j. sector (disk s) (unat start + j)) [k..<n]))) m, s') \<and>
    usable (disk s') \<and> broken (disk s') = broken (disk s) \<and> sector (disk s') = sector (disk s) \<and>
    super s' = super s \<and> dir s' = dir s \<and> length (secbuf s') = 512"
  using assms
proof (induction "n - k" arbitrary: k s m)
  case 0
  then show ?case
    by auto
next
  case (Suc x)
  then have k: "k < n"
    by simp
  have lba: "unat (start + of_nat k) = unat start + k" "unat start + k < slot_start MAX_FILES"
    using k Suc.prems(3,7) unat_plus [of start k] by (simp_all add: slot_start_16)
  let ?b = "sector (disk s) (unat start + k)"
  obtain d where d: "ata_read dev (start + of_nat k) 1 (secbuf s) (disk s) = (0, ?b, d)" "usable d"
    "sector d = sector (disk s)" "broken d = broken (disk s)"
    using read_good [of "disk s" "start + of_nat k" "secbuf s"] Suc.prems(1,2,4) lba by (auto simp: slot_start_16)
  let ?s = "s\<lparr>secbuf := ?b, disk := d\<rparr>"
  define c where "c = unat (chunk sz (of_nat k * 512))"
  define m1 where "m1 = put_bytes (dst + of_nat k * 512) (take c ?b) m"
  define rest where "rest = concat (map (\<lambda>j. sector (disk s) (unat start + j)) [Suc k..<n])"
  have step: "read_sectors dev dst sz start [k..<n] m s = read_sectors dev dst sz start [Suc k..<n] m1 ?s"
    using k d(1) by (simp add: upt_conv_Cons Let_def m1_def c_def)
  have "\<exists>s'. read_sectors dev dst sz start [Suc k..<n] m1 ?s =
      (True, put_bytes (dst + of_nat (Suc k) * 512) (take (unat sz - 512 * Suc k) (concat (map (\<lambda>j. sector (disk ?s) (unat start + j)) [Suc k..<n]))) m1, s') \<and>
    usable (disk s') \<and> broken (disk s') = broken (disk ?s) \<and> sector (disk s') = sector (disk ?s) \<and>
    super s' = super ?s \<and> dir s' = dir ?s \<and> length (secbuf s') = 512"
    by (rule Suc.hyps(1)) (use Suc.hyps(2) Suc.prems k d sector_length in auto)
  moreover have "put_bytes (dst + of_nat (Suc k) * 512) (take (unat sz - 512 * Suc k) rest) m1 =
      put_bytes (dst + of_nat k * 512) (take (unat sz - 512 * k) (?b @ rest)) m"
  proof (cases "512 * Suc k \<le> unat sz")
    case True
    then have "c = 512"
      using unat_chunk [OF Suc.prems(5), of k] k Suc.prems(7) by (simp add: c_def)
    moreover from True have "take (unat sz - 512 * k) (?b @ rest) = take 512 ?b @ take (unat sz - 512 * Suc k) rest"
      by (simp add: sector_length add.commute)
    ultimately show ?thesis
      by (simp add: m1_def put_bytes_append sector_length algebra_simps)
  next
    case False
    then have "c = unat sz - 512 * k"
      using unat_chunk [OF Suc.prems(5), of k] k Suc.prems(7) by (simp add: c_def)
    with False show ?thesis
      by (simp add: m1_def sector_length)
  qed
  ultimately show ?case
    using step k d(3,4) by (auto simp: upt_conv_Cons rest_def)
qed

lemma fs_inv_read:
  assumes inv: "fs_inv usable sector broken s" and nm: "cstr nm xs"
  shows "case files (sector (disk s)) (dir s) xs of
      None \<Rightarrow> fs_read dev nm buf limit m s = Some (- 1, None, m, s)
    | Some ys \<Rightarrow> \<exists>s'. fs_read dev nm buf limit m s =
          Some (0, Some (of_nat (min (length ys) (unat limit))), put_bytes buf (take (unat limit) ys) m, s') \<and>
        fs_inv usable sector broken s' \<and> dir s' = dir s \<and> sector (disk s') = sector (disk s)"
proof -
  have ok: "dir_ok (super s) (dir s)"
    using inv by (simp add: fs_inv_def)
  have f: "find (dir s) nm = Some (lookup (dir s) xs)"
    using ok by (intro find_lookup [OF nm(1)]) (auto simp: dir_ok_def used_entries_def)
  show ?thesis
  proof (cases "lookup (dir s) xs")
    case None
    then show ?thesis
      using f by (simp add: files_def fs_read_def)
  next
    case (Some i)
    then have i: "i \<in> used_entries (dir s)"
      using lookup_Some [OF ok] by simp
    let ?e = "dir s ! i"
    define sz where "sz = (if fsize ?e > limit then limit else fsize ?e)"
    have fs: "unat (fsize ?e) \<le> 16384"
      using ok i by (simp add: dir_ok_def)
    have sz: "unat sz = min (unat (fsize ?e)) (unat limit)"
      by (auto simp: sz_def word_less_nat_alt)
    define q where "q = (sz + 511) div 512"
    have q: "unat q = (unat sz + 511) div 512"
      using sz fs by (simp add: q_def unat_div_distrib unat_add_u32)
    have sz_le: "unat sz \<le> 16384"
      using sz fs by linarith
    have q32: "unat q \<le> 32" "unat sz \<le> 512 * unat q"
      using sz fs q by auto
    have "unat (start_lba ?e) + 32 \<le> slot_start MAX_FILES"
      using dir_ok_slot(2) [OF ok i] slot_start_mono [OF card_entries_le] by (rule le_trans)
    then obtain s' where s': "read_sectors dev buf sz (start_lba ?e) [0..<unat q] m s =
        (True, put_bytes buf (take (unat sz) (concat (map (\<lambda>j. sector (disk s) (unat (start_lba ?e) + j)) [0..<unat q]))) m, s')"
      "usable (disk s')" "broken (disk s') = broken (disk s)" "sector (disk s') = sector (disk s)" "super s' = super s" "dir s' = dir s" "length (secbuf s') = 512"
      using read_sectors_ok [of s "start_lba ?e" sz 0 "unat q" buf m] inv q32(1) sz_le by (auto simp: fs_inv_def)
    define sec where "sec = (\<lambda>j. sector (disk s) (unat (start_lba ?e) + j))"
    have all: "length (concat (map sec [0..<k])) = 512 * k" for k
      by (induction k) (simp_all add: sec_def sector_length)
    have "concat (map sec [0..<32]) = concat (map sec [0..<unat q]) @ concat (map sec [unat q..<32])"
      using q32(1) upt_add_eq_append [of 0 "unat q" "32 - unat q"] by simp
    then have t: "take (unat sz) (concat (map sec [0..<unat q])) = take (unat sz) (concat (map sec [0..<32]))"
      using q32(2) all [of "unat q"] by simp
    have len: "length (slot_bytes (sector (disk s)) ?e) = unat (fsize ?e)"
      using all [of 32] fs by (simp add: slot_bytes_def SLOT_SECTORS_def sec_def)
    have b: "take (unat sz) (concat (map sec [0..<unat q])) = take (unat limit) (slot_bytes (sector (disk s)) ?e)"
      unfolding t by (simp add: slot_bytes_def SLOT_SECTORS_def sec_def sz min.commute)
    have "fs_read dev nm buf limit m s = Some (0, Some sz, put_bytes buf (take (unat limit) (slot_bytes (sector (disk s)) ?e)) m, s')"
      using f Some s'(1) b unfolding fs_read_def
      by (simp add: Let_def sz_def [symmetric] q_def [symmetric] sec_def)
    moreover have "sz = of_nat (min (length (slot_bytes (sector (disk s)) ?e)) (unat limit))"
      unfolding len using sz by (simp add: word_unat_eq_iff unat_of_nat_u32 min_def)
    moreover have "fs_inv usable sector broken s'"
      using inv s' by (simp add: fs_inv_def)
    ultimately show ?thesis
      using Some s'(4,6) by (simp add: files_def)
  qed
qed

end

context block_device
begin

lemma fs_init_mounts:
  assumes inv: "fs_inv usable sector broken s" and disk: "disk s0 = disk s"
    and len: "length (pad (super s0)) = 504" "length (dir s0) = MAX_FILES" "\<forall>e \<in> set (dir s0). length (fname e) = 20" "length (secbuf s0) = 512"
  shows "fs_inv usable sector broken (fs_init dev s0) \<and> dir (fs_init dev s0) = dir s \<and> super (fs_init dev s0) = super s \<and>
    sector (disk (fs_init dev s0)) = sector (disk s)"
proof -
  have ok: "dir_ok (super s) (dir s)"
    using inv by (simp add: fs_inv_def)
  obtain d1 where d1: "ata_read dev SUPER_LBA 1 (super_bytes (super s0)) (disk s0) = (0, super_bytes (super s), d1)" "usable d1"
    "sector d1 = sector (disk s)" "broken d1 = broken (disk s)"
    using read_good [of "disk s" SUPER_LBA "super_bytes (super s0)"] inv len(1) disk by (auto simp: fs_inv_def slot_start_16 SUPER_LBA_def)
  obtain d2 where d2: "ata_read dev DIR_LBA 1 (dir_bytes (dir s0)) d1 = (0, dir_bytes (dir s), d2)" "usable d2"
    "sector d2 = sector (disk s)" "broken d2 = broken (disk s)"
    using read_good [of d1 DIR_LBA "dir_bytes (dir s0)"] inv len(2,3) d1 by (auto simp: fs_inv_def slot_start_16 DIR_LBA_def length_dir_bytes_full)
  have "bytes_dir (dir_bytes (dir s)) = dir s"
    using ok by (intro bytes_dir_bytes) (simp_all add: dir_ok_def)
  then have "load_meta dev s0 = s0\<lparr>super := super s, dir := dir s, disk := d2\<rparr>"
    using d1(1) d2(1) by (simp add: load_meta_def)
  moreover have "magic (super s) = FS_MAGIC"
    using ok by (simp add: dir_ok_def)
  ultimately have "fs_init dev s0 = s0\<lparr>super := super s, dir := dir s, disk := d2\<rparr>"
    by (simp add: fs_init_def)
  then show ?thesis
    using inv d2 len(4) by (simp add: fs_inv_def)
qed

lemma fs_init_formats:
  assumes "usable (disk s0)" "\<forall>l < slot_start MAX_FILES. \<not> broken (disk s0) l"
    "list_word (sector (disk s0) (unat SUPER_LBA)) \<noteq> FS_MAGIC" "length (pad (super s0)) = 504" "length (dir s0) = MAX_FILES"
    "\<forall>e \<in> set (dir s0). length (fname e) = 20" "length (secbuf s0) = 512"
  shows "fs_inv usable sector broken (fs_init dev s0) \<and> files (sector (disk (fs_init dev s0))) (dir (fs_init dev s0)) = Map.empty"
proof -
  obtain d1 where d1: "ata_read dev SUPER_LBA 1 (super_bytes (super s0)) (disk s0) = (0, sector (disk s0) (unat SUPER_LBA), d1)" "usable d1"
    "sector d1 = sector (disk s0)" "broken d1 = broken (disk s0)"
    using read_good [of "disk s0" SUPER_LBA "super_bytes (super s0)"] assms by (auto simp: slot_start_16 SUPER_LBA_def)
  obtain d2 where d2: "ata_read dev DIR_LBA 1 (dir_bytes (dir s0)) d1 = (0, sector (disk s0) (unat DIR_LBA), d2)" "usable d2"
    "sector d2 = sector (disk s0)" "broken d2 = broken (disk s0)"
    using read_good [of d1 DIR_LBA "dir_bytes (dir s0)"] assms d1 by (auto simp: slot_start_16 DIR_LBA_def length_dir_bytes_full)
  let ?sb = "\<lparr>magic = FS_MAGIC, next_free_lba = DATA_LBA, pad = replicate 504 0\<rparr>"
  let ?es = "replicate MAX_FILES zero_entry"
  have len: "length (dir_bytes ?es) = 512"
    by (simp add: length_dir_bytes zero_entry_def MAX_FILES_def)
  obtain d3 where d3: "ata_write dev SUPER_LBA 1 (super_bytes ?sb) d2 = (0, d3)" "usable d3"
    "sector d3 = (sector (disk s0))(unat SUPER_LBA := super_bytes ?sb)" "broken d3 = broken (disk s0)"
    using write_good [of d2 SUPER_LBA "super_bytes ?sb"] assms d2 by (auto simp: slot_start_16 SUPER_LBA_def)
  obtain d4 where d4: "ata_write dev DIR_LBA 1 (dir_bytes ?es) d3 = (0, d4)" "usable d4"
    "sector d4 = (sector d3)(unat DIR_LBA := dir_bytes ?es)" "broken d4 = broken (disk s0)"
    using write_good [of d3 DIR_LBA "dir_bytes ?es"] assms d3 len by (auto simp: slot_start_16 DIR_LBA_def)
  have u: "used_entries ?es = {}"
    by (auto simp: used_entries_def zero_entry_def)
  have r: "fs_init dev s0 = s0\<lparr>super := ?sb, dir := ?es, disk := d4\<rparr>"
    using d1(1) d2(1) d3(1) d4(1) assms(3) by (simp add: fs_init_def load_meta_def format_def bytes_super_def Let_def)
  have "dir_ok ?sb ?es"
    unfolding dir_ok_def u by (simp add: zero_entry_def slot_start_def)
  moreover have "lookup ?es xs = None" for xs
    by (simp add: lookup_None u)
  ultimately show ?thesis
    using d4 d3 assms(2,7) by (auto simp: r fs_inv_def files_def SUPER_LBA_def DIR_LBA_def)
qed

end

text \<open>
  A name of 20 characters or more is cut when it is stored and compared in full when it is looked up, so it is never found again.
\<close>

lemma long_name_lookup:
  assumes "dir_ok sb es" "20 \<le> length xs"
  shows "lookup es xs = None"
proof -
  have "length (c_string (fname (es ! i))) < 20" if "i \<in> used_entries es" for i
  proof -
    have "length (fname (es ! i)) = 20" "0 \<in> set (fname (es ! i))"
      using assms(1) that by (auto simp: dir_ok_def used_entries_def)
    then show ?thesis
      using length_takeWhile_le [of "\<lambda>b. b \<noteq> 0" "fname (es ! i)"] takeWhile_eq_all_conv [of "\<lambda>b. b \<noteq> 0" "fname (es ! i)"]
        takeWhile_dropWhile_id [of "\<lambda>b. b \<noteq> 0" "fname (es ! i)"]
      by (metis append_eq_conv_conj c_string_def linorder_not_le nat_less_le take_all_iff)
  qed
  then show ?thesis
    using assms(2) unfolding lookup_None by (metis linorder_not_less)
qed

section \<open>The file system on a drive\<close>

definition disk_bytes :: "drive \<Rightarrow> nat \<Rightarrow> u8 list" where
  "disk_bytes v l = sector_bytes (store v l)"

definition fs_mounted :: "('d \<Rightarrow> drive) \<Rightarrow> 'd fs \<Rightarrow> bool" where
  "fs_mounted view s \<longleftrightarrow> fs_inv (\<lambda>d. drive_ready (view d)) (\<lambda>d. disk_bytes (view d)) (\<lambda>d. bad (view d)) s"

definition fs_files :: "('d \<Rightarrow> drive) \<Rightarrow> 'd fs \<Rightarrow> u8 list \<rightharpoonup> u8 list" where
  "fs_files view s = files (disk_bytes (view (disk s))) (dir s)"

text \<open>Static buffers of the right sizes, with any contents: what a fresh boot has.\<close>

definition fs_buffers :: "'d fs \<Rightarrow> bool" where
  "fs_buffers s \<longleftrightarrow> length (pad (super s)) = 504 \<and> length (dir s) = MAX_FILES \<and> (\<forall>e \<in> set (dir s). length (fname e) = 20) \<and> length (secbuf s) = 512"

lemma drive_device:
  "pio_drive dev view \<Longrightarrow> block_device dev (\<lambda>d. drive_ready (view d)) (\<lambda>d. disk_bytes (view d)) (\<lambda>d. bad (view d))"
  unfolding disk_bytes_def by (rule pio_drive.device)

lemma card_files:
  assumes "dir_ok sb es"
  shows "card (dom (files sec es)) = card (used_entries es)"
proof -
  have "dom (files sec es) = (\<lambda>i. c_string (fname (es ! i))) ` used_entries es"
    using lookup_Some [OF assms] by (auto simp: files_def dom_def)
  moreover have "inj_on (\<lambda>i. c_string (fname (es ! i))) (used_entries es)"
    using assms unfolding dir_ok_def inj_on_def by blast
  ultimately show ?thesis
    by (simp add: card_image)
qed

text \<open>
  C4: the file system is a map from names to contents. On a drive that follows the protocol, in every mounted state:
  \<open>fs_write\<close> of a name of at most 19 characters binds the name to the bytes it is given, cut to the 16384 bytes of a slot of
  \<open>SLOT_SECTORS\<close> sectors, and leaves every other file alone, or refuses, changing nothing, when 16 other files exist
  already; \<open>fs_read\<close> of any name delivers the contents of the name, up to the size of the buffer, or says that there is no
  such file, which it says of every name of 20 characters or more; and the state stays mounted.
\<close>

theorem fs_refines_map:
  assumes "pio_drive dev view" "fs_mounted view s" "cstr nm xs"
  shows "(length xs < 20 \<longrightarrow> (if xs \<in> dom (fs_files view s) \<or> card (dom (fs_files view s)) < 16
      then \<exists>s'. fs_write dev nm m data sz s = Some (0, s') \<and> fs_mounted view s' \<and>
        fs_files view s' = (fs_files view s)(xs \<mapsto> data_bytes m data (min (unat sz) 16384))
      else fs_write dev nm m data sz s = Some (- 1, s))) \<and>
    (20 \<le> length xs \<longrightarrow> fs_files view s xs = None) \<and>
    (case fs_files view s xs of
      None \<Rightarrow> fs_read dev nm buf limit m s = Some (- 1, None, m, s)
    | Some ys \<Rightarrow> \<exists>s'. fs_read dev nm buf limit m s =
          Some (0, Some (of_nat (min (length ys) (unat limit))), put_bytes buf (take (unat limit) ys) m, s') \<and>
        fs_mounted view s' \<and> fs_files view s' = fs_files view s)"
proof -
  note b = drive_device [OF assms(1)]
  have inv: "fs_inv (\<lambda>d. drive_ready (view d)) (\<lambda>d. disk_bytes (view d)) (\<lambda>d. bad (view d)) s"
    using assms(2) by (simp add: fs_mounted_def)
  then have ok: "dir_ok (super s) (dir s)"
    by (simp add: fs_inv_def)
  have c: "card (dom (fs_files view s)) = card (used_entries (dir s))" "xs \<in> dom (fs_files view s) \<longleftrightarrow> lookup (dir s) xs \<noteq> None"
    using card_files [OF ok] by (auto simp: fs_files_def files_def dom_def)
  have full: "\<not> card (used_entries (dir s)) < 16 \<Longrightarrow> card (used_entries (dir s)) = MAX_FILES"
    using card_entries_le [of "dir s"] by (simp add: MAX_FILES_def)
  have 1: "if xs \<in> dom (fs_files view s) \<or> card (dom (fs_files view s)) < 16
      then \<exists>s'. fs_write dev nm m data sz s = Some (0, s') \<and> fs_mounted view s' \<and>
        fs_files view s' = (fs_files view s)(xs \<mapsto> data_bytes m data (min (unat sz) 16384))
      else fs_write dev nm m data sz s = Some (- 1, s)" if "length xs < 20"
    using block_device.fs_inv_write [OF b inv assms(3) that, of m data sz] block_device.fs_inv_full [OF b inv assms(3), of m data sz] c full
    by (auto simp: fs_mounted_def fs_files_def MAX_FILES_def)
  have 2: "case fs_files view s xs of
      None \<Rightarrow> fs_read dev nm buf limit m s = Some (- 1, None, m, s)
    | Some ys \<Rightarrow> \<exists>s'. fs_read dev nm buf limit m s =
          Some (0, Some (of_nat (min (length ys) (unat limit))), put_bytes buf (take (unat limit) ys) m, s') \<and>
        fs_mounted view s' \<and> fs_files view s' = fs_files view s"
    using block_device.fs_inv_read [OF b inv assms(3), of buf limit m]
    by (auto simp: fs_mounted_def fs_files_def split: option.splits)
  have 3: "fs_files view s xs = None" if "20 \<le> length xs"
    using long_name_lookup [OF ok that] by (simp add: fs_files_def files_def)
  show ?thesis
    using 1 2 3 by blast
qed

text \<open>A drive with nothing on it, and the file system that \<open>fs_init\<close> makes there.\<close>

definition empty_drive :: drive where
  "empty_drive = \<lparr>store = \<lambda>_ _. 0, bad = \<lambda>_. False, reg_drive = 0, reg_count = 0, reg_lo = 0, reg_mid = 0, reg_hi = 0, phase = Idle, busy = 0\<rparr>"

definition first_boot :: "drive fs" where
  "first_boot = \<lparr>super = \<lparr>magic = 0, next_free_lba = 0, pad = replicate 504 0\<rparr>, dir = replicate MAX_FILES zero_entry,
     secbuf = replicate 512 0, disk = empty_drive\<rparr>"

lemma first_boot_buffers: "fs_buffers first_boot"
  by (simp add: fs_buffers_def first_boot_def zero_entry_def)

lemma first_boot_mounted: "fs_mounted id (fs_init (ide 3) first_boot)" "fs_files id (fs_init (ide 3) first_boot) = Map.empty"
proof -
  have "list_word (sector_bytes (\<lambda>_. 0)) = 0"
    by (simp add: list_word_def sector_bytes_nth)
  then have "fs_inv (\<lambda>d. drive_ready (id d)) (\<lambda>d. disk_bytes (id d)) (\<lambda>d. bad (id d)) (fs_init (ide 3) first_boot) \<and>
      files (disk_bytes (id (disk (fs_init (ide 3) first_boot)))) (dir (fs_init (ide 3) first_boot)) = Map.empty"
    by (intro block_device.fs_init_formats [OF drive_device [OF ide.pio_drive_axioms]])
      (simp_all add: first_boot_def empty_drive_def zero_entry_def drive_ready_def resting_def ATA_TIMEOUT_def disk_bytes_def FS_MAGIC_def)
  then show "fs_mounted id (fs_init (ide 3) first_boot)" "fs_files id (fs_init (ide 3) first_boot) = Map.empty"
    by (simp_all add: fs_mounted_def fs_files_def)
qed

lemma first_boot_room: "card (used_entries (dir (fs_init (ide 3) first_boot))) < MAX_FILES"
proof -
  have "dir_ok (super (fs_init (ide 3) first_boot)) (dir (fs_init (ide 3) first_boot))"
    using first_boot_mounted(1) by (simp add: fs_mounted_def fs_inv_def)
  from card_files [OF this] show ?thesis
    using first_boot_mounted(2) by (metis MAX_FILES_def card.empty dom_empty fs_files_def zero_less_numeral)
qed

lemma note_file:
  "cstr (bytes_of (str ''note'')) (str ''note'')" "length (str ''note'') < 20"
  "data_bytes (\<lambda>a. ucast a) 0x90000 (min (unat (5 :: u32)) 16384) = [0, 1, 2, 3, 4 :: u8]"
  by (rule cstr_bytes_of) (simp_all add: str_def data_bytes_def upt_rec)

theorem fs_refines_map_witness:
  "\<exists>s'. fs_write (ide 3) (bytes_of (str ''note'')) (\<lambda>a. ucast a) 0x90000 5 (fs_init (ide 3) first_boot) = Some (0, s') \<and>
     fs_files id s' = [str ''note'' \<mapsto> [0, 1, 2, 3, 4]]"
proof -
  show ?thesis
    using fs_refines_map [OF ide.pio_drive_axioms first_boot_mounted(1) note_file(1), of "\<lambda>a. ucast a" "0x90000" 5] note_file(2,3)
    by (auto simp: first_boot_mounted(2))
qed

text \<open>
  C22: files survive a reboot. After a successful \<open>fs_write\<close> of a name of at most 19 characters, mounting the disk again, with static
  buffers that hold anything, leaves exactly the same files, and \<open>fs_read\<close> delivers what was
  written, cut to the 16384 bytes of a slot.
\<close>

theorem fs_survives_reboot:
  assumes "pio_drive dev view" "fs_mounted view s" "cstr nm xs" "length xs < 20" "fs_write dev nm m data sz s = Some (0, s1)"
    and "fs_buffers s0" "disk s0 = disk s1"
  defines "ys \<equiv> data_bytes m data (min (unat sz) 16384)"
  shows "fs_mounted view (fs_init dev s0) \<and> fs_files view (fs_init dev s0) = (fs_files view s)(xs \<mapsto> ys) \<and>
    (\<exists>s2. fs_read dev nm buf limit m' (fs_init dev s0) =
       Some (0, Some (of_nat (min (length ys) (unat limit))), put_bytes buf (take (unat limit) ys) m', s2))"
proof -
  note b = drive_device [OF assms(1)]
  have inv: "fs_inv (\<lambda>d. drive_ready (view d)) (\<lambda>d. disk_bytes (view d)) (\<lambda>d. bad (view d)) s"
    using assms(2) by (simp add: fs_mounted_def)
  have "lookup (dir s) xs \<noteq> None \<or> card (used_entries (dir s)) < MAX_FILES"
    using block_device.fs_inv_full [OF b inv assms(3), of m data sz] card_entries_le [of "dir s"] assms(5) by force
  then have s1: "fs_inv (\<lambda>d. drive_ready (view d)) (\<lambda>d. disk_bytes (view d)) (\<lambda>d. bad (view d)) s1"
    "files (disk_bytes (view (disk s1))) (dir s1) = (files (disk_bytes (view (disk s))) (dir s))(xs \<mapsto> ys)"
    using block_device.fs_inv_write [OF b inv assms(3,4), of m data sz] assms(5) by (auto simp: ys_def)
  let ?s = "fs_init dev s0"
  have m: "fs_inv (\<lambda>d. drive_ready (view d)) (\<lambda>d. disk_bytes (view d)) (\<lambda>d. bad (view d)) ?s" "dir ?s = dir s1"
    "disk_bytes (view (disk ?s)) = disk_bytes (view (disk s1))"
    using block_device.fs_init_mounts [OF b s1(1) assms(7)] assms(6) by (auto simp: fs_buffers_def)
  then have "files (disk_bytes (view (disk ?s))) (dir ?s) xs = Some ys"
    using s1(2) by simp
  then show ?thesis
    using m s1(2) block_device.fs_inv_read [OF b m(1) assms(3), of buf limit m'] by (auto simp: fs_mounted_def fs_files_def)
qed

theorem fs_survives_reboot_witness:
  "\<exists>s1 s2 m'. fs_write (ide 3) (bytes_of (str ''note'')) (\<lambda>a. ucast a) 0x90000 5 (fs_init (ide 3) first_boot) = Some (0, s1) \<and>
     fs_read (ide 3) (bytes_of (str ''note'')) 0x80000 4096 (\<lambda>_. 0) (fs_init (ide 3) (first_boot\<lparr>disk := disk s1\<rparr>)) = Some (0, Some 5, m', s2) \<and>
     m' 0x80004 = 4"
proof -
  obtain s1 where s1: "fs_write (ide 3) (bytes_of (str ''note'')) (\<lambda>a. ucast a) 0x90000 5 (fs_init (ide 3) first_boot) = Some (0, s1)"
    using block_device.fs_inv_write [OF drive_device [OF ide.pio_drive_axioms] first_boot_mounted(1) [unfolded fs_mounted_def] note_file(1,2),
        of "\<lambda>a. ucast a" "0x90000" 5] first_boot_room by blast
  have "fs_buffers (first_boot\<lparr>disk := disk s1\<rparr>)" "disk (first_boot\<lparr>disk := disk s1\<rparr>) = disk s1"
    using first_boot_buffers by (simp_all add: fs_buffers_def)
  note r = fs_survives_reboot [OF ide.pio_drive_axioms first_boot_mounted(1) note_file(1,2) s1 this, of "0x80000" 4096 "\<lambda>_. 0"]
  show ?thesis
    using s1 r note_file(3) by (force simp: put_bytes_def upt_rec)
qed

end
