(* ===== verification/Args.thy ===== *)
theory Args
  imports Kstring
begin

text \<open>
  The argument block of a program, \<open>kernel/args.c\<close>.  The command line is the list of its characters up
  to the terminator; the pointers \<open>argp\<close> into it are the words themselves.
\<close>

definition MAX_ARGS :: nat where
  "MAX_ARGS = 8"

definition ARG_BYTES :: u32 where
  "ARG_BYTES = 256"

fun skip_spaces :: "u8 list \<Rightarrow> u8 list" where
  "skip_spaces [] = []"
| "skip_spaces (c # p) = (if c = 0x20 then skip_spaces p else c # p)"

text \<open>The characters up to the next space or the end, and the rest.\<close>

fun next_word :: "u8 list \<Rightarrow> u8 list \<times> u8 list" where
  "next_word [] = ([], [])"
| "next_word (c # p) = (if c \<noteq> 0x20 then (case next_word p of (w, r) \<Rightarrow> (c # w, r)) else ([], c # p))"

function split_args :: "nat \<Rightarrow> u8 list \<Rightarrow> u8 list list" where
  "split_args argc p =
     (if p \<noteq> [] \<and> argc < MAX_ARGS
      then let p = skip_spaces p
           in if p = [] then []
              else case next_word p of (w, r) \<Rightarrow> w # split_args (argc + 1) r
      else [])"
  by pat_completeness auto
termination
  by (relation "measure (\<lambda>(argc, p). MAX_ARGS - argc)") auto

text \<open>The loop that copies the words from \<open>text + off\<close> on, and the addresses where they landed.\<close>

fun copy_args :: "u32 \<Rightarrow> u32 \<Rightarrow> u8 list list \<Rightarrow> mem \<Rightarrow> u32 list \<times> mem" where
  "copy_args text off [] m = ([], m)"
| "copy_args text off (w # ws) m =
     (let dst = text + off;
          len = of_nat (length w);
          m = (put_bytes dst w m)(dst + len := 0)
      in case copy_args text (off + (len + 1)) ws m of (slots, m) \<Rightarrow> (dst # slots, m))"

definition args_build :: "u8 list \<Rightarrow> u32 \<Rightarrow> mem \<Rightarrow> u32 \<times> mem" where
  "args_build line stack_top m =
     (let ws = split_args 0 line;
          argc = length ws;
          total = fold (\<lambda>w t. t + (of_nat (length w) + 1)) ws 0
      in if total > ARG_BYTES then (0, m)
         else let sp = (stack_top - total) AND NOT 3;
                  (slots, m) = copy_args sp 0 ws m;
                  sp = sp - of_nat (argc + 1) * 4;
                  argv = sp;
                  m = fold (\<lambda>i m. store32 m (argv + 4 * of_nat i) (slots ! i)) [0..<argc] m;
                  m = store32 m (argv + 4 * of_nat argc) 0;
                  sp = sp - 4; m = store32 m sp argv;
                  sp = sp - 4; m = store32 m sp (of_nat argc);
                  sp = sp - 4; m = store32 m sp 0
              in (sp, m))"

section \<open>Words of a line\<close>

text \<open>The words of a line: the maximal runs of characters other than the space.\<close>

fun words_of :: "u8 list \<Rightarrow> u8 list \<Rightarrow> u8 list list" where
  "words_of acc [] = (if acc = [] then [] else [acc])"
| "words_of acc (c # p) =
     (if c = 0x20 then (if acc = [] then words_of [] p else acc # words_of [] p) else words_of (acc @ [c]) p)"

lemma skip_spaces_words: "words_of [] (skip_spaces p) = words_of [] p"
  by (induction p) auto

lemma skip_spaces_hd: "skip_spaces p = [] \<or> hd (skip_spaces p) \<noteq> 0x20"
  by (induction p) auto

lemma next_word_words: "acc \<noteq> [] \<or> fst (next_word p) \<noteq> [] \<Longrightarrow>
  words_of acc p = (acc @ fst (next_word p)) # words_of [] (snd (next_word p))"
proof (induction p arbitrary: acc)
  case (Cons c p)
  show ?case
  proof (cases "c = 0x20")
    case False
    then show ?thesis
      using Cons(1) [of "acc @ [c]"] by (simp split: prod.splits)
  qed (use Cons in auto)
qed auto

lemma split_args_words: "split_args k p = take (8 - k) (words_of [] p)"
proof (induction k p rule: split_args.induct)
  case (1 k p)
  show ?case
  proof (cases "p \<noteq> [] \<and> k < 8")
    case True
    let ?q = "skip_spaces p"
    show ?thesis
    proof (cases "?q = []")
      case q: True
      then show ?thesis
        using True skip_spaces_words [of p] by (subst split_args.simps) (simp add: MAX_ARGS_def)
    next
      case False
      obtain w r where wr: "next_word ?q = (w, r)"
        by fastforce
      have "w \<noteq> []"
        using wr False skip_spaces_hd [of p] by (cases ?q) (auto split: if_splits prod.splits)
      then have words: "words_of [] p = w # words_of [] r"
        using next_word_words [of "[]" ?q] wr skip_spaces_words [of p] by simp
      have "split_args k p = w # split_args (k + 1) r"
        using True False wr by (subst split_args.simps) (simp add: MAX_ARGS_def Let_def)
      also have "split_args (k + 1) r = take (8 - (k + 1)) (words_of [] r)"
        using 1 [OF _ refl False wr [symmetric]] True by (simp add: MAX_ARGS_def)
      finally show ?thesis
        using True words by (simp add: Suc_diff_Suc take_Cons' numeral_eq_Suc)
    qed
  next
    case False
    then show ?thesis
      by (subst split_args.simps) (auto simp: MAX_ARGS_def)
  qed
qed

lemma words_of_chars: "w \<in> set (words_of acc p) \<Longrightarrow> set w \<subseteq> set acc \<union> (set p - {0x20})"
  by (induction acc p rule: words_of.induct) (fastforce split: if_splits)+

section \<open>The block in memory\<close>

text \<open>The bytes the words take, terminators included.\<close>

definition text_size :: "u8 list list \<Rightarrow> nat" where
  "text_size ws = (\<Sum>w\<leftarrow>ws. length w + 1)"

lemma text_size_simps [simp]: "text_size [] = 0" "text_size (w # ws) = length w + 1 + text_size ws"
  by (simp_all add: text_size_def)

lemma total_text: "fold (\<lambda>w t. t + (of_nat (length w) + 1)) ws (of_nat n :: u32) = of_nat (n + text_size ws)"
proof (induction ws arbitrary: n)
  case (Cons w ws)
  have "of_nat n + (of_nat (length w) + 1) = (of_nat (n + length w + 1) :: u32)"
    by simp
  then show ?case
    using Cons [of "n + length w + 1"] by (simp add: ac_simps del: of_nat_add)
qed simp

lemma copy_args_ok:
  assumes "unat text + off + text_size ws \<le> 4294967295" "\<forall>w \<in> set ws. 0 \<notin> set w"
  shows "case copy_args text (of_nat off) ws m of (slots, m') \<Rightarrow> length slots = length ws \<and>
    (\<forall>i < length ws. cstr (bytes_at m' (slots ! i)) (ws ! i) \<and> unat text + off \<le> unat (slots ! i) \<and>
      unat (slots ! i) + length (ws ! i) + 1 \<le> unat text + off + text_size ws) \<and>
    (\<forall>x. unat x < unat text + off \<or> unat text + off + text_size ws \<le> unat x \<longrightarrow> m' x = m x)"
  using assms
proof (induction ws arbitrary: off m)
  case (Cons w ws)
  let ?dst = "text + of_nat off"
  define m1 where "m1 = (put_bytes ?dst w m)(?dst + of_nat (length w) := 0)"
  have dst: "unat ?dst = unat text + off"
    using Cons(2) by (intro unat_plus) simp
  then have nul: "unat (?dst + of_nat (length w)) = unat text + off + length w"
    using Cons(2) by (subst unat_plus) simp_all
  have bytes: "m1 x = (if unat x = unat text + off + length w then 0
      else if unat text + off \<le> unat x \<and> unat x < unat text + off + length w then w ! (unat x - (unat text + off)) else m x)" for x
    using Cons(2) dst nul put_bytes_apply [of ?dst w m x] by (simp add: m1_def word_unat_eq_iff)
  have off: "of_nat off + (of_nat (length w) + 1) = (of_nat (off + length w + 1) :: u32)"
    by simp
  obtain slots m' where r: "copy_args text (of_nat (off + length w + 1)) ws m1 = (slots, m')"
    by fastforce
  have "unat text + (off + length w + 1) + text_size ws \<le> 4294967295" "\<forall>w \<in> set ws. 0 \<notin> set w"
    using Cons(2,3) by simp_all
  note IH0 = Cons(1) [OF this, of m1, unfolded r prod.case]
  then have IH: "length slots = length ws"
    "\<And>i. i < length ws \<Longrightarrow> cstr (bytes_at m' (slots ! i)) (ws ! i) \<and> unat text + (off + length w + 1) \<le> unat (slots ! i) \<and>
      unat (slots ! i) + length (ws ! i) + 1 \<le> unat text + (off + length w + 1) + text_size ws"
    "\<And>x. unat x < unat text + (off + length w + 1) \<or> unat text + (off + length w + 1) + text_size ws \<le> unat x \<Longrightarrow> m' x = m1 x"
    by blast+
  have "cstr (bytes_at m' ?dst) w"
  proof -
    have "m' (?dst + of_nat i) = m1 (?dst + of_nat i)" "unat (?dst + of_nat i) = unat text + off + i" if "i \<le> length w" for i
    proof -
      show u: "unat (?dst + of_nat i) = unat text + off + i"
        using that Cons(2) dst by (subst unat_plus) simp_all
      show "m' (?dst + of_nat i) = m1 (?dst + of_nat i)"
        using that by (intro IH(3)) (simp add: u)
    qed
    then show ?thesis
      using Cons(3) by (simp add: cstr_def bytes_at_def bytes)
  qed
  moreover have "copy_args text (of_nat off) (w # ws) m = (?dst # slots, m')"
    by (simp only: copy_args.simps Let_def off m1_def [symmetric] r prod.case)
  moreover have "cstr (bytes_at m' ((?dst # slots) ! i)) ((w # ws) ! i) \<and> unat text + off \<le> unat ((?dst # slots) ! i) \<and>
      unat ((?dst # slots) ! i) + length ((w # ws) ! i) + 1 \<le> unat text + off + text_size (w # ws)" if "i < length (w # ws)" for i
  proof (cases i)
    case (Suc j)
    then show ?thesis
      using IH(2) [of j] that by simp
  qed (use calculation(1) dst in simp)
  moreover have "m' x = m x" if "unat x < unat text + off \<or> unat text + off + text_size (w # ws) \<le> unat x" for x
    using that IH(3) [of x] bytes [of x] by auto
  ultimately show ?case
    using IH(1) by (simp only: prod.case list.size) blast
qed simp

text \<open>The pointer array.\<close>

lemma argv_stores:
  fixes slots :: "nat \<Rightarrow> u32"
  assumes "4 dvd unat argv" "unat argv + 4 * n \<le> 4294967296"
  defines "f \<equiv> \<lambda>i m. store32 m (argv + 4 * of_nat i) (slots i)"
  shows "i < n \<Longrightarrow> load32 (fold f [0..<n] m) (argv + 4 * of_nat i) = slots i"
    "unat x < unat argv \<or> unat argv + 4 * n \<le> unat x \<Longrightarrow> fold f [0..<n] m x = m x"
proof -
  have u: "unat (argv + 4 * of_nat i) = unat argv + 4 * i" if "i < n" for i
    using that assms(2) unat_plus [of argv "4 * i"] by simp
  have al: "word_aligned (argv + 4 * of_nat i)" if "i < n" for i
    using assms(1) u [OF that] by (simp add: word_aligned_def dvd_eq_mod_eq_0)
  have "(\<forall>i < k. load32 (fold f [0..<k] m) (argv + 4 * of_nat i) = slots i) \<and>
      (\<forall>x. unat x < unat argv \<or> unat argv + 4 * k \<le> unat x \<longrightarrow> fold f [0..<k] m x = m x)" if "k \<le> n" for k
    using that
  proof (induction k)
    case (Suc k)
    then have k: "k < n"
      by simp
    have "argv + 4 * of_nat i \<noteq> argv + 4 * of_nat k" if "i < k" for i
      using u [of i] u [OF k] that k by (metis add_left_cancel less_trans mult_left_cancel nat_neq_iff zero_neq_numeral)
    then have "load32 (fold f [0..<Suc k] m) (argv + 4 * of_nat i) = slots i" if "i < Suc k" for i
    proof (cases "i = k")
      case False
      then have "load32 (f k (fold f [0..<k] m)) (argv + 4 * of_nat i) = load32 (fold f [0..<k] m) (argv + 4 * of_nat i)"
        unfolding f_def using that k al \<open>\<And>i. i < k \<Longrightarrow> argv + 4 * of_nat i \<noteq> argv + 4 * of_nat k\<close> [of i]
        by (intro load32_store32_other) auto
      then show ?thesis
        using False that Suc by simp
    qed (simp add: f_def)
    moreover have "fold f [0..<Suc k] m x = m x" if "unat x < unat argv \<or> unat argv + 4 * Suc k \<le> unat x" for x
    proof -
      have "x \<notin> footprint (argv + 4 * of_nat k) 4"
        using that u [OF k] assms(2) k by (auto simp: unat_footprint)
      then show ?thesis
        using Suc that by (auto simp: f_def store32_outside)
    qed
    ultimately show ?case
      by blast
  qed simp
  then show "i < n \<Longrightarrow> load32 (fold f [0..<n] m) (argv + 4 * of_nat i) = slots i"
    "unat x < unat argv \<or> unat argv + 4 * n \<le> unat x \<Longrightarrow> fold f [0..<n] m x = m x"
    by blast+
qed

lemma round_down_4: "unat (x AND NOT 3 :: u32) = 4 * (unat x div 4)"
proof -
  have "(NOT 3 :: u32) = NOT (mask 2)"
    by (simp add: mask_eq_exp_minus_1)
  then show ?thesis
    using and_not_mask_unat [of x 2] by simp
qed

text \<open>The frame below the text: the array, its address, the count and the return address.\<close>

lemma arg_frame:
  fixes slots :: "u32 list" and m :: mem
  assumes a: "4 dvd unat argv" "12 \<le> unat argv" "unat argv + 4 * (length slots + 1) \<le> 4294967296" and n: "n = length slots"
  defines "m1 \<equiv> fold (\<lambda>i m. store32 m (argv + 4 * of_nat i) (slots ! i)) [0..<n] m"
  defines "m2 \<equiv> store32 (store32 (store32 (store32 m1 (argv + 4 * of_nat n) 0) (argv - 4) argv) (argv - 8) (of_nat n)) (argv - 12) 0"
  shows "load32 m2 (argv - 12) = 0" "load32 m2 (argv - 8) = of_nat n" "load32 m2 (argv - 4) = argv"
    "load32 m2 (argv + 4 * of_nat n) = 0" "i < n \<Longrightarrow> load32 m2 (argv + 4 * of_nat i) = slots ! i"
    "unat x < unat argv - 12 \<or> unat argv + 4 * (n + 1) \<le> unat x \<Longrightarrow> m2 x = m x"
proof -
  have u: "unat (argv - 4) = unat argv - 4" "unat (argv - 8) = unat argv - 8" "unat (argv - 12) = unat argv - 12"
    using a(2) by (simp_all add: unat_sub word_le_nat_alt)
  have v: "unat (argv + 4 * of_nat i) = unat argv + 4 * i" if "i \<le> n" for i
    using that a(3) n unat_plus [of argv "4 * i"] by simp
  have al: "word_aligned (argv - 4)" "word_aligned (argv - 8)" "word_aligned (argv - 12)"
    using a(1,2) u by (simp_all add: word_aligned_def mod_eq_0_iff_dvd dvd_diff_nat)
  have alv: "word_aligned (argv + 4 * of_nat i)" if "i \<le> n" for i
    using v [OF that] a(1) by (simp add: word_aligned_def dvd_eq_mod_eq_0)
  have ne: "argv - 4 \<noteq> argv - 8" "argv - 4 \<noteq> argv - 12" "argv - 8 \<noteq> argv - 12"
    using u a(2) by (auto simp: word_unat_eq_iff)
  have nev: "argv + 4 * of_nat i \<noteq> argv - 4" "argv + 4 * of_nat i \<noteq> argv - 8" "argv + 4 * of_nat i \<noteq> argv - 12" if "i \<le> n" for i
    using u v [OF that] a(2) by (auto simp only: word_unat_eq_iff)
  note st = argv_stores [OF a(1), where slots = "\<lambda>i. slots ! i" and n = n and m = m]
  note ld = load32_store32_other al alv ne ne [symmetric] nev nev [symmetric]
  show "load32 m2 (argv - 12) = 0" "load32 m2 (argv - 8) = of_nat n" "load32 m2 (argv - 4) = argv"
    by (simp_all add: m2_def ld)
  show "load32 m2 (argv + 4 * of_nat n) = 0"
    by (simp add: m2_def ld)
  show "load32 m2 (argv + 4 * of_nat i) = slots ! i" if "i < n"
  proof -
    have "argv + 4 * of_nat n \<noteq> argv + 4 * of_nat i"
      using v [of n] v [of i] that by (metis add_left_cancel less_imp_le_nat mult_left_cancel nat_neq_iff order_refl zero_neq_numeral)
    then show ?thesis
      using that a(3) n st(1) by (simp add: m2_def ld m1_def)
  qed
  show "m2 x = m x" if "unat x < unat argv - 12 \<or> unat argv + 4 * (n + 1) \<le> unat x"
  proof -
    have "x \<notin> footprint (argv - 4) 4" "x \<notin> footprint (argv - 8) 4" "x \<notin> footprint (argv - 12) 4" "x \<notin> footprint (argv + 4 * of_nat n) 4"
      using that u v [of n] a n by (auto simp: unat_footprint)
    moreover have "unat x < unat argv \<or> unat argv + 4 * n \<le> unat x"
      using that by auto
    ultimately show ?thesis
      using st(2) [of x] a(3) n by (simp add: m2_def m1_def store32_outside)
  qed
qed

lemma words_length: "(\<Sum>w\<leftarrow>words_of acc p. length w) \<le> length acc + length p"
  by (induction acc p rule: words_of.induct) (auto intro: le_SucI)

lemma text_size_take: "text_size (take n ws) \<le> (\<Sum>w\<leftarrow>ws. length w) + n"
proof (induction ws arbitrary: n)
  case (Cons w ws)
  show ?case
    using Cons [of "n - 1"] by (cases n) auto
qed simp

declare split_args.simps [simp del]

text \<open>The block that is built of the first eight words of the line.\<close>

lemma args_build_words:
  assumes "0 \<notin> set line" "length line < 0x80000000" "320 \<le> unat stack_top" "args_build line stack_top m = (sp, m')"
  defines "ws \<equiv> take 8 (words_of [] line)"
  shows "if text_size ws > 256 then sp = 0 \<and> m' = m
    else 4 dvd unat sp \<and> unat stack_top \<le> unat sp + 320 \<and> unat sp < unat stack_top \<and>
      load32 m' sp = 0 \<and> load32 m' (sp + 4) = of_nat (length ws) \<and>
      (let argv = load32 m' (sp + 8) in load32 m' (argv + 4 * of_nat (length ws)) = 0 \<and>
        (\<forall>i < length ws. cstr (bytes_at m' (load32 m' (argv + 4 * of_nat i))) (ws ! i))) \<and>
      (\<forall>x. unat x < unat stack_top - 320 \<or> unat stack_top \<le> unat x \<longrightarrow> m' x = m x)"
proof -
  let ?t = "text_size ws" and ?n = "length ws"
  have ws: "split_args 0 line = ws"
    by (simp add: split_args_words ws_def)
  have total: "fold (\<lambda>w t. t + (of_nat (length w) + 1)) ws 0 = (of_nat ?t :: u32)"
    using total_text [of ws 0] by simp
  have t: "?t < 4294967296"
    using text_size_take [of 8 "words_of [] line"] words_length [of "[]" line] assms(2) by (simp add: ws_def)
  have big: "of_nat ?t > ARG_BYTES \<longleftrightarrow> ?t > 256"
    using t by (simp add: ARG_BYTES_def word_less_nat_alt unat_of_nat_u32)
  show ?thesis
  proof (cases "?t > 256")
    case True
    then show ?thesis
      using assms(4) big by (simp add: args_build_def ws total Let_def)
  next
    case False
    define base where "base = (stack_top - of_nat ?t) AND NOT 3"
    define argv where "argv = base - of_nat (?n + 1) * 4"
    obtain slots m0 where c: "copy_args base (of_nat 0) ws m = (slots, m0)"
      by fastforce
    have n: "?n \<le> 8"
      by (simp add: ws_def)
    have "unat (stack_top - of_nat ?t) = unat stack_top - ?t"
      using False assms(3) by (simp add: unat_sub word_le_nat_alt unat_of_nat_u32)
    then have ut: "unat base = 4 * ((unat stack_top - ?t) div 4)"
      by (simp only: base_def round_down_4)
    have "unat (of_nat (?n + 1) * 4 :: u32) = 4 * (?n + 1)"
      using n unat_of_nat_u32 [of "?n + 1"] unat_mult_u32 [of "of_nat (?n + 1)" 4] by (simp del: of_nat_add of_nat_Suc)
    then have ua: "unat argv = unat base - 4 * (?n + 1)"
      using ut n False assms(3) by (simp add: argv_def unat_sub word_le_nat_alt)
    have bounds: "unat base + ?t \<le> unat stack_top" "unat stack_top \<le> unat base + ?t + 3" "12 + 4 * (?n + 1) \<le> unat base"
      using ut n False assms(3) by presburger+
    have zero: "\<forall>w \<in> set ws. 0 \<notin> set w"
      using words_of_chars [of _ "[]" line] assms(1) by (force simp: ws_def dest: in_set_takeD)
    have cok: "length slots = ?n" "\<And>i. i < ?n \<Longrightarrow> cstr (bytes_at m0 (slots ! i)) (ws ! i) \<and> unat base \<le> unat (slots ! i) \<and>
        unat (slots ! i) + length (ws ! i) + 1 \<le> unat base + ?t"
      "\<And>x. unat x < unat base \<or> unat base + ?t \<le> unat x \<Longrightarrow> m0 x = m x"
      using copy_args_ok [of base 0 ws m] c zero bounds(1) unat_u32_less [of stack_top] by auto
    have al: "4 dvd unat argv"
      using ua ut by (simp add: dvd_diff_nat)
    have av: "12 \<le> unat argv" "unat argv + 4 * (?n + 1) = unat base" "unat argv + 4 * (length slots + 1) \<le> 4294967296"
      using ua bounds(3) cok(1) unat_u32_less [of base] by simp_all
    define m1 where "m1 = fold (\<lambda>i m. store32 m (argv + 4 * of_nat i) (slots ! i)) [0..<?n] m0"
    have c0: "copy_args base 0 ws m = (slots, m0)"
      using c by simp
    have "\<not> ARG_BYTES < of_nat ?t"
      using False big by simp
    then have "args_build line stack_top m = (argv - 4 - 4 - 4, store32 (store32 (store32 (store32 m1 (argv + 4 * of_nat ?n) 0)
        (argv - 4) argv) (argv - 4 - 4) (of_nat ?n)) (argv - 4 - 4 - 4) 0)"
      by (simp only: args_build_def ws total Let_def base_def [symmetric] if_False c0 prod.case argv_def [symmetric] m1_def [symmetric])
    moreover have "argv - 4 - 4 = argv - 8" "argv - 8 - 4 = argv - 12"
      by simp_all
    ultimately have res: "sp = argv - 12" "m' = store32 (store32 (store32 (store32 m1 (argv + 4 * of_nat ?n) 0) (argv - 4) argv)
        (argv - 8) (of_nat ?n)) (argv - 12) 0"
      using assms(4) by simp_all
    note fr = arg_frame [OF al av(1,3) cok(1) [symmetric], where m = m0, folded m1_def, folded res(2)]
    have usp: "unat sp = unat argv - 12"
      using av(1) by (simp add: res(1) unat_sub word_le_nat_alt)
    have fields: "load32 m' sp = 0" "load32 m' (sp + 4) = of_nat ?n" "load32 m' (sp + 8) = argv"
      using fr(1-3) by (simp_all add: res(1))
    have str: "cstr (bytes_at m' (load32 m' (argv + 4 * of_nat i))) (ws ! i)" if i: "i < ?n" for i
    proof -
      have "unat (slots ! i + of_nat j) = unat (slots ! i) + j" if "j \<le> length (ws ! i)" for j
        using that cok(2) [OF i] bounds(1) unat_u32_less [of stack_top] by (intro unat_plus) simp
      then have "bytes_at m' (slots ! i) j = bytes_at m0 (slots ! i) j" if "j \<le> length (ws ! i)" for j
        using that cok(2) [OF i] av(2) unfolding bytes_at_def by (intro fr(6)) simp
      then show ?thesis
        using cok(2) [OF i] by (simp add: fr(5) [OF i] cstr_def)
    qed
    have frame: "m' x = m x" if "unat x < unat stack_top - 320 \<or> unat stack_top \<le> unat x" for x
    proof -
      have "unat x < unat argv - 12 \<or> unat base \<le> unat x" "unat x < unat base \<or> unat base + ?t \<le> unat x"
        using that bounds(1,2) av(2) n False by auto
      then show ?thesis
        using fr(6) [of x] cok(3) [of x] av(2) by simp
    qed
    have place: "4 dvd unat sp" "unat stack_top \<le> unat sp + 320" "unat sp < unat stack_top"
      using usp al av(1,2) bounds n False by (auto simp: dvd_diff_nat)
    show ?thesis
      using False fields str frame place fr(4) by (simp add: Let_def)
  qed
qed

text \<open>
  C28.  The argument block of a line of at most eight words.  If the words with their terminators
  take more than 256 bytes, the result is 0 and memory is untouched; otherwise the stack pointer is word
  aligned, and a program entered there finds a return address of 0, \<open>argc\<close>, and \<open>argv\<close>: an array of
  pointers to all words of the line as C strings, closed by a null pointer.  Only the 320 bytes below the top of the
  stack are written.
\<close>

theorem args_build_correct:
  assumes "0 \<notin> set line" "length line < 0x80000000" "320 \<le> unat stack_top" "args_build line stack_top m = (sp, m')"
  defines "ws \<equiv> words_of [] line"
  assumes "length ws \<le> 8"
  shows "if text_size ws > 256 then sp = 0 \<and> m' = m
    else 4 dvd unat sp \<and> unat stack_top \<le> unat sp + 320 \<and> unat sp < unat stack_top \<and>
      load32 m' sp = 0 \<and> load32 m' (sp + 4) = of_nat (length ws) \<and>
      (let argv = load32 m' (sp + 8) in load32 m' (argv + 4 * of_nat (length ws)) = 0 \<and>
        (\<forall>i < length ws. cstr (bytes_at m' (load32 m' (argv + 4 * of_nat i))) (ws ! i))) \<and>
      (\<forall>x. unat x < unat stack_top - 320 \<or> unat stack_top \<le> unat x \<longrightarrow> m' x = m x)"
proof -
  have "take 8 (words_of [] line) = ws"
    using assms(6) by (simp add: ws_def)
  then show ?thesis
    using args_build_words [OF assms(1-4)] by (simp only:)
qed

theorem args_build_correct_witness:
  "case args_build (str ''calc  1 2'') 0xF0000 (\<lambda>_. 0) of (sp, m) \<Rightarrow>
     load32 m sp = 0 \<and> load32 m (sp + 4) = 3 \<and> 4 dvd unat sp \<and>
     cstr (bytes_at m (load32 m (load32 m (sp + 8) + 4))) (str ''1'')"
proof -
  obtain sp m where r: "args_build (str ''calc  1 2'') 0xF0000 (\<lambda>_. 0) = (sp, m)"
    by (cases "args_build (str ''calc  1 2'') 0xF0000 (\<lambda>_. 0)")
  have w: "words_of [] (str ''calc  1 2'') = [str ''calc'', str ''1'', str ''2'']"
    by code_simp
  have h: "0 \<notin> set (str ''calc  1 2'')" "length (str ''calc  1 2'') < 0x80000000" "320 \<le> unat (0xF0000 :: u32)"
    by (simp_all add: str_def)
  have t: "text_size [str ''calc'', str ''1'', str ''2''] = 9"
    by (simp add: str_def)
  have c: "(if text_size [str ''calc'', str ''1'', str ''2''] > 256 then P else Q) = Q" for P Q
    unfolding t by simp
  have l: "length (words_of [] (str ''calc  1 2'')) \<le> 8"
    by (simp add: w)
  note q = args_build_correct [OF h r l, unfolded w c Let_def]
  have "load32 m sp = 0" "load32 m (sp + 4) = 3" "4 dvd unat sp"
    using q by simp_all
  moreover have "cstr (bytes_at m (load32 m (load32 m (sp + 8) + 4 * of_nat 1))) ([str ''calc'', str ''1'', str ''2''] ! 1)"
    using q by (elim conjE) (drule spec [where x = 1], simp)
  ultimately show ?thesis
    unfolding r by simp
qed

end
