(* ===== verification/Traps.thy ===== *)
theory Traps
  imports Proc Demand Keyboard Fs Args
begin

text \<open>
  Entry into the kernel: the fault handler of \<open>kernel/isr.c\<close>, the system calls of \<open>kernel/syscall.c\<close> and the launcher of
  \<open>kernel/usermode.c\<close>.  The state puts together the components a trap reaches.  User pointers are below 8 MB,
  where every address space maps memory to itself, so they index the physical memory.
\<close>

section \<open>State\<close>

record registers =
  ds :: u32
  edi :: u32
  esi :: u32
  ebp :: u32
  esp :: u32
  ebx :: u32
  edx :: u32
  ecx :: u32
  eax :: u32
  int_no :: u32
  err_code :: u32
  eip :: u32
  cs :: u32
  eflags :: u32
  useresp :: u32
  ss :: u32

record 'd kernel =
  screen :: console
  ticks :: u32
  keys :: keyboard
  procs_st :: procs
  vm_st :: vm
  demand_st :: demand
  fs_st :: "'d fs"
  rand_s :: u32
  cr2 :: u32
  fault_armed :: bool
  g_user_faulted :: bool

text \<open>
  How a trap ends: back to the interrupted instruction, in the context saved for faults, in the context saved for the end of
  the program, or never.
\<close>

datatype outcome = Resume | Recover | Leave | Halt

section \<open>Faults\<close>

definition exception_names :: "string list" where
  "exception_names = [
     ''divide by zero'', ''debug'', ''non-maskable interrupt'', ''breakpoint'',
     ''overflow'', ''bound range exceeded'', ''invalid opcode'', ''device not available'',
     ''double fault'', ''coprocessor segment overrun'', ''invalid TSS'',
     ''segment not present'', ''stack-segment fault'', ''general protection fault'',
     ''page fault'', ''reserved'', ''x87 floating-point'', ''alignment check'',
     ''machine check'', ''SIMD floating-point'', ''virtualization'', ''control protection'',
     ''reserved'', ''reserved'', ''reserved'', ''reserved'', ''reserved'', ''reserved'',
     ''hypervisor injection'', ''VMM communication'', ''security'', ''reserved'']"

definition fault_arm :: "'d kernel \<Rightarrow> 'd kernel" where
  "fault_arm s = s\<lparr>fault_armed := True\<rparr>"

definition fault_disarm :: "'d kernel \<Rightarrow> 'd kernel" where
  "fault_disarm s = s\<lparr>fault_armed := False\<rparr>"

definition red :: "string \<Rightarrow> console \<Rightarrow> console" where
  "red t c = kprint_color (str t) COLOR_RED_ON_BLACK c"

definition report_fault :: "registers \<Rightarrow> u32 \<Rightarrow> console \<Rightarrow> console" where
  "report_fault r addr c =
     (let c = red ''\<newline>  [CPU exception] '' c;
          c = (if int_no r < 32 then red (exception_names ! unat (int_no r)) c else c);
          c = red '' (int '' c;
          c = kprint_dec (int_no r) c;
          c = red '')\<newline>'' c
      in if int_no r = 14 then
           let c = red ''  faulting address '' c;
               c = kprint_hex addr c;
               c = red '', error code '' c;
               c = kprint_hex (err_code r) c
           in kprint_char 10 c
         else c)"

text \<open>\<open>isr_handler\<close> from the point where the fault is known to be an error.\<close>

definition fatal_fault :: "registers \<Rightarrow> 'd kernel \<Rightarrow> outcome \<times> 'd kernel" where
  "fatal_fault r s =
     (let s = s\<lparr>screen := report_fault r (cr2 s) (screen s)\<rparr> in
      if fault_armed s then (Recover, s\<lparr>fault_armed := False, g_user_faulted := True\<rparr>)
      else (Halt, s\<lparr>screen := red ''  no handler armed; halting.\<newline>'' (screen s)\<rparr>))"

definition isr_handler :: "registers \<Rightarrow> 'd kernel \<Rightarrow> outcome \<times> 'd kernel" where
  "isr_handler r s =
     (if int_no r = 14 then
        let (served, d, v) = demand_handle (cr2 s) (err_code r) (demand_st s) (vm_st s);
            s = s\<lparr>demand_st := d, vm_st := v\<rparr>
        in if served then (Resume, s)
           else
             let (served, v) = vmm_cow_handle (cr2 s) (err_code r) (vm_st s);
                 s = s\<lparr>vm_st := v\<rparr>
             in if served then (Resume, s) else fatal_fault r s
      else fatal_fault r s)"

section \<open>System calls\<close>

definition in_user_zone :: "u32 \<Rightarrow> u32 \<Rightarrow> bool" where
  "in_user_zone p len \<longleftrightarrow> p \<ge> 0x00080000 \<and> (ucast p :: u64) + ucast len \<le> 0x00100000"

function string_loop :: "mem \<Rightarrow> u32 \<Rightarrow> bool" where
  "string_loop m p = (if p < 0x00100000 then (if m p = 0 then True else string_loop m (p + 1)) else False)"
  by pat_completeness auto
termination
  by (relation "measure (\<lambda>(m, p). 0x00100000 - unat p)") (auto simp: word_less_nat_alt unat_add_u32)

declare string_loop.simps [simp del]

definition user_string_ok :: "mem \<Rightarrow> u32 \<Rightarrow> bool" where
  "user_string_ok m p = (if \<not> in_user_zone p 1 then False else string_loop m p)"

definition from_user :: "registers \<Rightarrow> bool" where
  "from_user r \<longleftrightarrow> cs r AND 3 = 3"

definition USER_HEAP_END :: u32 where
  "USER_HEAP_END = 0x0009F000"

text \<open>
  The interrupts that wake a waiting call, in the order they come.  A timer interrupt only counts here: preemption is armed
  in no state in which a program runs.
\<close>

datatype irq = Tick | Key u8

fun take_irq :: "irq \<Rightarrow> 'd kernel \<Rightarrow> 'd kernel" where
  "take_irq Tick s = s\<lparr>ticks := ticks s + 1\<rparr>"
| "take_irq (Key sc) s = s\<lparr>keys := keyboard_callback sc (keys s)\<rparr>"

text \<open>The waiting loops; no value means that the call is still waiting after these interrupts.\<close>

fun read_wait :: "irq list \<Rightarrow> 'd kernel \<Rightarrow> (int \<times> 'd kernel) option" where
  "read_wait [] s =
     (let (c, k) = keyboard_getchar (keys s) in if c < 0 then None else Some (c, s\<lparr>keys := k\<rparr>))"
| "read_wait (e # es) s =
     (let (c, k) = keyboard_getchar (keys s) in if c < 0 then read_wait es (take_irq e (s\<lparr>keys := k\<rparr>)) else Some (c, s\<lparr>keys := k\<rparr>))"

fun sleep_wait :: "u32 \<Rightarrow> irq list \<Rightarrow> 'd kernel \<Rightarrow> 'd kernel option" where
  "sleep_wait target [] s = (if ticks s < target then None else Some s)"
| "sleep_wait target (e # es) s = (if ticks s < target then sleep_wait target es (take_irq e s) else Some s)"

definition sys_sbrk :: "u32 \<Rightarrow> 'd kernel \<Rightarrow> u32 \<times> 'd kernel" where
  "sys_sbrk n s =
     (let p = proc_current (procs_st s);
          old = (if p_brk p \<noteq> 0 then p_brk p else USER_HEAP_BASE);
          want = old + n
      in if n = 0 then (old, s)
         else if want < old \<or> want > USER_HEAP_END then (- 1, s)
         else (old, s\<lparr>procs_st := set_slot (current_idx (procs_st s)) (p\<lparr>p_brk := want\<rparr>) (procs_st s)\<rparr>))"

definition sys_rand :: "'d kernel \<Rightarrow> u32 \<times> 'd kernel" where
  "sys_rand s =
     (let x = (if rand_s s = 0 then ticks s * 2654435761 + 1 else rand_s s);
          x = x * 1103515245 + 12345
      in (drop_bit 16 x AND 0x7FFF, s\<lparr>rand_s := x\<rparr>))"

definition sys_write :: "registers \<Rightarrow> 'd kernel \<Rightarrow> (u32 \<times> 'd kernel) option" where
  "sys_write r s =
     (if from_user r \<and> \<not> user_string_ok (ram (vm_st s)) (ebx r) then Some (- 1, s)
      else case kprint (bytes_at (ram (vm_st s)) (ebx r)) (screen s) of None \<Rightarrow> None
      | Some c \<Rightarrow> Some (0, s\<lparr>screen := c\<rparr>))"

definition sys_fwrite :: "'d ports \<Rightarrow> registers \<Rightarrow> 'd kernel \<Rightarrow> (u32 \<times> 'd kernel) option" where
  "sys_fwrite dev r s =
     (let m = ram (vm_st s) in
      if user_string_ok m (ebx r) \<and> in_user_zone (ecx r) (edx r) then
        case fs_write dev (bytes_at m (ebx r)) m (ecx r) (edx r) (fs_st s) of None \<Rightarrow> None
        | Some (rc, f) \<Rightarrow> Some (of_int rc, s\<lparr>fs_st := f\<rparr>)
      else Some (- 1, s))"

definition sys_fread :: "'d ports \<Rightarrow> registers \<Rightarrow> 'd kernel \<Rightarrow> (u32 \<times> 'd kernel) option" where
  "sys_fread dev r s =
     (let m = ram (vm_st s) in
      if user_string_ok m (ebx r) \<and> in_user_zone (ecx r) (edx r) then
        case fs_read dev (bytes_at m (ebx r)) (ecx r) (edx r) m (fs_st s) of None \<Rightarrow> None
        | Some (rc, got, m, f) \<Rightarrow>
            Some (if rc = 0 then (case got of None \<Rightarrow> 0 | Some n \<Rightarrow> n) else - 1,
              s\<lparr>vm_st := (vm_st s)\<lparr>ram := m\<rparr>, fs_st := f\<rparr>)
      else Some (- 1, s))"

definition returns :: "registers \<Rightarrow> u32 \<times> 'd kernel \<Rightarrow> outcome \<times> registers \<times> 'd kernel" where
  "returns r p = (Resume, r\<lparr>eax := fst p\<rparr>, snd p)"

definition syscall_handler :: "'d ports \<Rightarrow> irq list \<Rightarrow> registers \<Rightarrow> 'd kernel \<Rightarrow> (outcome \<times> registers \<times> 'd kernel) option" where
  "syscall_handler dev evs r s =
     (if eax r = 0 then map_option (returns r) (sys_write r s)
      else if eax r = 1 then Some (returns r (ticks s, s))
      else if eax r = 8 then Some (returns r (of_int (p_pid (proc_current (procs_st s))), s))
      else if eax r = 9 then Some (returns r (sys_sbrk (ebx r) s))
      else if eax r = 2 then Some (Leave, r, s)
      else if eax r = 3 then map_option (\<lambda>(c, s). returns r (of_int c, s)) (read_wait evs s)
      else if eax r = 4 then map_option (\<lambda>s. returns r (0, s)) (sleep_wait (ticks s + ebx r) evs s)
      else if eax r = 5 then Some (returns r (sys_rand s))
      else if eax r = 6 then map_option (returns r) (sys_fwrite dev r s)
      else if eax r = 7 then map_option (returns r) (sys_fread dev r s)
      else Some (returns r (- 1, s)))"

section \<open>Running a program\<close>

definition USER_LOAD_ADDR :: u32 where
  "USER_LOAD_ADDR = 0x00080000"

definition USER_STACK_TOP :: u32 where
  "USER_STACK_TOP = 0x000F0000"

text \<open>
  \<open>run\<close> is the program itself: from its entry point and stack pointer it takes the kernel to the state in which a
  trap leaves it for good, by \<open>Leave\<close> or \<open>Recover\<close>.
\<close>

definition run_user_at_sp :: "(u32 \<Rightarrow> u32 \<Rightarrow> 'd kernel \<Rightarrow> 'd kernel) \<Rightarrow> u32 \<Rightarrow> u32 \<Rightarrow> 'd kernel \<Rightarrow> 'd kernel" where
  "run_user_at_sp run entry sp s =
     (let s = s\<lparr>g_user_faulted := False\<rparr>;
          s = fault_arm s;
          s = run entry sp s;
          s = fault_disarm s
      in s\<lparr>screen := (if g_user_faulted s
           then red ''  the program faulted and was terminated; the kernel survived.\<newline>'' (screen s)
           else kprint_lit ''  program exited cleanly; back in the kernel (ring 0).\<newline>'' (screen s))\<rparr>)"

definition run_user_at :: "(u32 \<Rightarrow> u32 \<Rightarrow> 'd kernel \<Rightarrow> 'd kernel) \<Rightarrow> u32 \<Rightarrow> 'd kernel \<Rightarrow> 'd kernel" where
  "run_user_at run entry s =
     (let (sp, m) = args_build [] USER_STACK_TOP (ram (vm_st s)) in
      run_user_at_sp run entry sp (s\<lparr>vm_st := (vm_st s)\<lparr>ram := m\<rparr>\<rparr>))"

definition run_user_program :: "(u32 \<Rightarrow> u32 \<Rightarrow> 'd kernel \<Rightarrow> 'd kernel) \<Rightarrow> u8 list \<Rightarrow> 'd kernel \<Rightarrow> 'd kernel" where
  "run_user_program run user_prog s =
     (let v = paging_reset_user_zone (vm_st s);
          v = v\<lparr>ram := put_bytes USER_LOAD_ADDR user_prog (ram v)\<rparr>
      in run_user_at run USER_LOAD_ADDR (s\<lparr>vm_st := v\<rparr>))"

section \<open>User memory\<close>

definition user_zone :: "u32 set" where
  "user_zone = {a. 0x80000 \<le> unat a \<and> unat a < 0x100000}"

definition zone_eq :: "mem \<Rightarrow> mem \<Rightarrow> bool" where
  "zone_eq m m' \<longleftrightarrow> (\<forall>a \<in> user_zone. m a = m' a)"

lemma in_user_zone_iff: "in_user_zone p len \<longleftrightarrow> 0x80000 \<le> unat p \<and> unat p + unat len \<le> 0x100000"
proof -
  have "unat ((ucast p :: u64) + ucast len) = unat p + unat len"
    using unat_u32_less [of p] unat_u32_less [of len] by (simp add: unat_word_ariths unsigned_ucast_eq take_bit_eq_mod)
  then show ?thesis
    by (simp add: in_user_zone_def word_le_nat_alt)
qed

lemma in_user_zone_range: "in_user_zone p len \<Longrightarrow> i < unat len \<Longrightarrow> p + of_nat i \<in> user_zone"
  using unat_plus [of p i] by (simp add: in_user_zone_iff user_zone_def)

lemma string_loop_iff:
  "string_loop m p \<longleftrightarrow> (\<exists>xs. cstr (bytes_at m p) xs \<and> unat p + length xs < 0x100000)"
proof (induction m p rule: string_loop.induct)
  case (1 m p)
  show ?case
  proof (cases "unat p < 0x100000 \<and> m p \<noteq> 0")
    case True
    have p1: "unat (p + 1) = unat p + 1"
      using True unat_plus [of p 1] by simp
    have tl: "(\<lambda>k. bytes_at m p (Suc k)) = bytes_at m (p + 1)"
      by (simp add: bytes_at_def add.assoc)
    have "string_loop m p \<longleftrightarrow> (\<exists>xs. cstr (bytes_at m (p + 1)) xs \<and> unat (p + 1) + length xs < 0x100000)"
      using 1 True by (subst string_loop.simps) (simp add: word_less_nat_alt)
    also have "\<dots> \<longleftrightarrow> (\<exists>xs. cstr (bytes_at m p) xs \<and> unat p + length xs < 0x100000)"
    proof
      assume "\<exists>xs. cstr (bytes_at m (p + 1)) xs \<and> unat (p + 1) + length xs < 0x100000"
      then obtain xs where "cstr (bytes_at m (p + 1)) xs" "unat (p + 1) + length xs < 0x100000"
        by blast
      then show "\<exists>xs. cstr (bytes_at m p) xs \<and> unat p + length xs < 0x100000"
        using True p1 tl by (intro exI [of _ "m p # xs"]) (simp add: bytes_at_def add.assoc)
    next
      assume "\<exists>xs. cstr (bytes_at m p) xs \<and> unat p + length xs < 0x100000"
      then obtain xs where xs: "cstr (bytes_at m p) xs" "unat p + length xs < 0x100000"
        by blast
      then obtain y ys where "xs = y # ys"
        using True by (cases xs) (auto simp: bytes_at_def)
      then show "\<exists>xs. cstr (bytes_at m (p + 1)) xs \<and> unat (p + 1) + length xs < 0x100000"
        using xs p1 tl by (intro exI [of _ ys]) simp
    qed
    finally show ?thesis .
  next
    case False
    then show ?thesis
    proof (cases "unat p < 0x100000")
      case True
      then have "m p = 0"
        using False by simp
      then show ?thesis
        using True by (subst string_loop.simps) (auto simp: word_less_nat_alt bytes_at_def intro!: exI [of _ "[]"])
    qed (subst string_loop.simps, simp add: word_less_nat_alt)
  qed
qed

text \<open>An accepted string lies in the user zone with its terminator.\<close>

lemma user_string_iff:
  "user_string_ok m p \<longleftrightarrow> 0x80000 \<le> unat p \<and> (\<exists>xs. cstr (bytes_at m p) xs \<and> unat p + length xs < 0x100000)"
  by (auto simp: user_string_ok_def string_loop_iff in_user_zone_iff)

lemma zone_string:
  assumes "zone_eq m m'" "cstr (bytes_at m p) xs" "0x80000 \<le> unat p" "unat p + length xs < 0x100000"
  shows "\<forall>i \<le> length xs. bytes_at m' p i = bytes_at m p i" "cstr (bytes_at m' p) xs"
proof -
  show a: "\<forall>i \<le> length xs. bytes_at m' p i = bytes_at m p i"
  proof (intro allI impI)
    fix i
    assume "i \<le> length xs"
    then have "p + of_nat i \<in> user_zone"
      using assms(3,4) unat_plus [of p i] by (simp add: user_zone_def)
    then show "bytes_at m' p i = bytes_at m p i"
      using assms(1) by (simp add: zone_eq_def bytes_at_def)
  qed
  then show "cstr (bytes_at m' p) xs"
    using assms(2) by (auto simp: cstr_def)
qed

lemma zone_eq_sym: "zone_eq m m' \<Longrightarrow> zone_eq m' m"
  by (simp add: zone_eq_def)

lemma user_string_zone: "zone_eq m m' \<Longrightarrow> user_string_ok m' p = user_string_ok m p"
  unfolding user_string_iff using zone_string(2) [of m m' p] zone_string(2) [of m' m p] zone_eq_sym by blast

section \<open>What a call depends on\<close>

text \<open>A string is read up to its terminator only.\<close>

lemma strcmp_loop_cong:
  assumes "cstr (\<lambda>k. b (i + k)) xs" "\<forall>k \<le> length xs. b' (i + k) = b (i + k)"
  shows "strcmp_loop a b' i = strcmp_loop a b i"
  using assms
proof (induction xs arbitrary: i)
  case Nil
  then show ?case
    by (subst (1 2) strcmp_loop.simps) auto
next
  case (Cons x xs)
  have "cstr (\<lambda>k. b (i + 1 + k)) xs" "\<forall>k \<le> length xs. b' (i + 1 + k) = b (i + 1 + k)"
    using Cons.prems by (auto simp: add.assoc)
  from Cons.IH [OF this] show ?case
    using Cons.prems(2) by (subst (1 2) strcmp_loop.simps) (auto dest: spec [of _ 0])
qed

lemma strncpy_loop_cong:
  assumes "cstr (\<lambda>j. b (i + j)) xs" "\<forall>j \<le> length xs. b' (i + j) = b (i + j)"
  shows "strncpy_loop k i b' dst = strncpy_loop k i b dst"
  using assms
proof (induction k arbitrary: i xs dst)
  case (Suc k)
  show ?case
  proof (cases xs)
    case Nil
    then show ?thesis
      using Suc.prems by simp
  next
    case (Cons x ys)
    have "cstr (\<lambda>j. b (i + 1 + j)) ys" "\<forall>j \<le> length ys. b' (i + 1 + j) = b (i + 1 + j)"
      using Suc.prems Cons by (auto simp: add.assoc)
    from Suc.IH [OF this] show ?thesis
      using Suc.prems Cons by (auto dest: spec [of _ 0])
  qed
qed simp

lemma find_loop_cong:
  assumes "cstr nm xs" "\<forall>i \<le> length xs. nm' i = nm i"
  shows "find_loop es nm' is = find_loop es nm is"
  using strcmp_loop_cong [of nm 0 xs nm'] assms by (induction "is") (simp_all add: strcmp_def cong: option.case_cong if_cong)

lemma find_cong:
  "cstr nm xs \<Longrightarrow> \<forall>i \<le> length xs. nm' i = nm i \<Longrightarrow> find es nm' = find es nm"
  unfolding find_def by (rule find_loop_cong)

lemma new_entry_cong:
  "cstr nm xs \<Longrightarrow> \<forall>i \<le> length xs. nm' i = nm i \<Longrightarrow> new_entry dev nm' i s = new_entry dev nm i s"
  using strncpy_loop_cong [of nm 0 xs nm'] by (simp add: new_entry_def strncpy_z_def Let_def)

text \<open>Chunks stay inside the data.\<close>

lemma chunk_inside: "i < unat (chunk sz off) \<Longrightarrow> unat off + i < unat sz"
proof -
  assume "i < unat (chunk sz off)"
  moreover have "unat (chunk sz off) \<le> unat sz - unat off"
    using unat_sub [of off sz] by (auto simp: chunk_def Let_def word_less_nat_alt word_le_nat_alt)
  ultimately show ?thesis
    by linarith
qed

lemma write_sectors_cong:
  assumes "zone_eq m m'" "in_user_zone src n" "sz \<le> n"
  shows "write_sectors dev m' src sz start ks s = write_sectors dev m src sz start ks s"
proof (induction ks arbitrary: s)
  case (Cons k ks)
  let ?off = "of_nat k * 512 :: u32"
  have "map (\<lambda>i. m' (src + ?off + of_nat i)) [0..<unat (chunk sz ?off)] = map (\<lambda>i. m (src + ?off + of_nat i)) [0..<unat (chunk sz ?off)]"
  proof (rule map_cong [OF refl])
    fix i
    assume "i \<in> set [0..<unat (chunk sz ?off)]"
    then have lt: "unat ?off + i < unat n"
      using chunk_inside [of i sz ?off] assms(3) by (simp add: word_le_nat_alt)
    have "src + ?off + of_nat i = src + of_nat (unat ?off + i)"
      by (simp add: add.assoc)
    also have "\<dots> \<in> user_zone"
      using in_user_zone_range [OF assms(2) lt] .
    finally show "m' (src + ?off + of_nat i) = m (src + ?off + of_nat i)"
      using assms(1) by (simp add: zone_eq_def)
  qed
  then show ?case
    using Cons.IH by (simp add: Let_def del: map_eq_conv split: prod.split)
qed simp

lemma fs_write_cong:
  assumes "zone_eq m m'" "cstr nm xs" "\<forall>i \<le> length xs. nm' i = nm i" "in_user_zone src n"
  shows "fs_write dev nm' m' src n s = fs_write dev nm m src n s"
proof -
  have "write_file dev i m' src n s = write_file dev i m src n s" for i s
  proof -
    have "(if n > SLOT_SECTORS * 512 then SLOT_SECTORS * 512 else n) \<le> n"
      by (simp add: less_imp_le)
    then show ?thesis
      unfolding write_file_def Let_def by (simp only: write_sectors_cong [OF assms(1,4)])
  qed
  then show ?thesis
    unfolding fs_write_def find_cong [OF assms(2,3)] new_entry_cong [OF assms(2,3)] by (simp split: option.split)
qed

text \<open>Reading a file: the outcome does not depend on memory, and memory changes in the buffer only.\<close>

lemma put_bytes_zone:
  assumes "in_user_zone dst n" "unat off + length w \<le> unat n"
  shows "a \<notin> user_zone \<Longrightarrow> put_bytes (dst + off) w m a = m a" "zone_eq m m' \<Longrightarrow> zone_eq (put_bytes (dst + off) w m) (put_bytes (dst + off) w m')"
proof -
  have d: "unat (dst + off) = unat dst + unat off"
    using assms unat_plus [of dst "unat off"] by (simp add: in_user_zone_iff)
  then have p: "put_bytes (dst + off) w m x = (if unat (dst + off) \<le> unat x \<and> unat x < unat (dst + off) + length w then w ! (unat x - unat (dst + off)) else m x)" for m x
    using assms by (intro put_bytes_apply) (simp add: in_user_zone_iff)
  show "a \<notin> user_zone \<Longrightarrow> put_bytes (dst + off) w m a = m a"
    using assms d by (auto simp: p user_zone_def in_user_zone_iff)
  show "zone_eq m m' \<Longrightarrow> zone_eq (put_bytes (dst + off) w m) (put_bytes (dst + off) w m')"
    by (simp add: zone_eq_def p)
qed

lemma read_sectors_zone:
  assumes "in_user_zone dst n" "sz \<le> n" "zone_eq m m'" "read_sectors dev dst sz start ks m s = (ok, m1, s1)"
  shows "\<exists>m1'. read_sectors dev dst sz start ks m' s = (ok, m1', s1) \<and> zone_eq m1 m1' \<and>
    (\<forall>a. a \<notin> user_zone \<longrightarrow> m1 a = m a \<and> m1' a = m' a)"
  using assms(3,4)
proof (induction ks arbitrary: m m' s)
  case (Cons k ks)
  let ?off = "of_nat k * 512 :: u32"
  obtain r b d where rd: "ata_read dev (start + of_nat k) 1 (secbuf s) (disk s) = (r, b, d)"
    by (cases "ata_read dev (start + of_nat k) 1 (secbuf s) (disk s)")
  show ?case
  proof (cases "r = 0")
    case True
    let ?w = "take (unat (chunk sz ?off)) b"
    show ?thesis
    proof (cases "?w = []")
      case True
      then show ?thesis
        using Cons.IH [OF Cons.prems(1)] Cons.prems(2) rd \<open>r = 0\<close> by (auto simp: Let_def)
    next
      case False
      then have "0 < length ?w" "length ?w \<le> unat (chunk sz ?off)"
        by auto
      then have "unat ?off + length ?w \<le> unat n"
        using chunk_inside [of "length ?w - 1" sz ?off] assms(2) unfolding word_le_nat_alt by linarith
      note w = put_bytes_zone [OF assms(1) this]
      show ?thesis
        using Cons.IH [OF w(2) [OF Cons.prems(1)]] Cons.prems(2) rd \<open>r = 0\<close> w(1) by (fastforce simp: Let_def)
    qed
  next
    case False
    then show ?thesis
      using Cons.prems rd by (auto simp: Let_def)
  qed
qed auto

lemma fs_read_zone:
  assumes "zone_eq m m'" "cstr nm xs" "\<forall>i \<le> length xs. nm' i = nm i" "in_user_zone buf n" "fs_read dev nm buf n m s = Some (rc, got, m1, f)"
  shows "\<exists>m1'. fs_read dev nm' buf n m' s = Some (rc, got, m1', f) \<and> zone_eq m1 m1' \<and>
    (\<forall>a. a \<notin> user_zone \<longrightarrow> m1 a = m a \<and> m1' a = m' a)"
proof -
  obtain i where f: "find (dir s) nm = Some i"
    using assms(5) by (auto simp: fs_read_def split: option.splits)
  show ?thesis
  proof (cases i)
    case None
    then show ?thesis
      using f assms(1,5) find_cong [OF assms(2,3)] by (simp add: fs_read_def)
  next
    case (Some j)
    define sz where "sz = (if fsize (dir s ! j) > n then n else fsize (dir s ! j))"
    have "sz \<le> n"
      by (simp add: sz_def not_less)
    obtain ok m2 s2 where rs: "read_sectors dev buf sz (start_lba (dir s ! j)) [0..<unat ((sz + 511) div 512)] m s = (ok, m2, s2)"
      by (cases "read_sectors dev buf sz (start_lba (dir s ! j)) [0..<unat ((sz + 511) div 512)] m s")
    have e: "fs_read dev nm0 buf n m0 s =
        (case read_sectors dev buf sz (start_lba (dir s ! j)) [0..<unat ((sz + 511) div 512)] m0 s of (ok, m, s) \<Rightarrow>
          if \<not> ok then Some (- 1, None, m, s) else Some (0, Some sz, m, s))" if "find (dir s) nm0 = Some (Some j)" for nm0 m0
      using that unfolding fs_read_def Let_def sz_def by (simp split: prod.split)
    have r: "(if ok then (0, Some sz, m2, s2) else (- 1, None, m2, s2)) = (rc, got, m1, f)"
      using assms(5) f Some rs e by (auto split: if_splits)
    obtain m2' where m2': "read_sectors dev buf sz (start_lba (dir s ! j)) [0..<unat ((sz + 511) div 512)] m' s = (ok, m2', s2)"
      "zone_eq m2 m2'" "\<forall>a. a \<notin> user_zone \<longrightarrow> m2 a = m a \<and> m2' a = m' a"
      using read_sectors_zone [OF assms(4) \<open>sz \<le> n\<close> assms(1) rs] by blast
    have "fs_read dev nm' buf n m' s = (if ok then Some (0, Some sz, m2', s2) else Some (- 1, None, m2', s2))"
      using f Some m2'(1) e [of nm'] find_cong [OF assms(2,3)] by simp
    then show ?thesis
      using r m2'(2,3) by (auto split: if_splits)
  qed
qed

text \<open>The state with other memory; and two answers of the kernel that agree in all but memory outside the user zone.\<close>

definition with_ram :: "mem \<Rightarrow> 'd kernel \<Rightarrow> 'd kernel" where
  "with_ram m s = s\<lparr>vm_st := (vm_st s)\<lparr>ram := m\<rparr>\<rparr>"

definition kept_apart :: "mem \<Rightarrow> mem \<Rightarrow> 'd kernel \<Rightarrow> 'd kernel \<Rightarrow> bool" where
  "kept_apart m m' s1 s2 \<longleftrightarrow> s2 = with_ram (ram (vm_st s2)) s1 \<and> zone_eq (ram (vm_st s1)) (ram (vm_st s2)) \<and>
     (\<forall>a. a \<notin> user_zone \<longrightarrow> ram (vm_st s1) a = m a \<and> ram (vm_st s2) a = m' a)"

lemma kept_apart_simple:
  "zone_eq (ram (vm_st s)) m' \<Longrightarrow> vm_st s1 = vm_st s \<Longrightarrow> kept_apart (ram (vm_st s)) m' s1 (with_ram m' s1)"
  by (simp add: kept_apart_def with_ram_def)

lemma with_ram_simps [simp]: "screen (with_ram m s) = screen s" "ticks (with_ram m s) = ticks s" "keys (with_ram m s) = keys s"
  "procs_st (with_ram m s) = procs_st s" "fs_st (with_ram m s) = fs_st s" "rand_s (with_ram m s) = rand_s s"
  "ram (vm_st (with_ram m s)) = m" "vm_st (with_ram m s) = (vm_st s)\<lparr>ram := m\<rparr>"
  by (simp_all add: with_ram_def)

lemma with_ram_update [simp]: "(with_ram m s)\<lparr>screen := c\<rparr> = with_ram m (s\<lparr>screen := c\<rparr>)" "(with_ram m s)\<lparr>ticks := t\<rparr> = with_ram m (s\<lparr>ticks := t\<rparr>)"
  "(with_ram m s)\<lparr>keys := k\<rparr> = with_ram m (s\<lparr>keys := k\<rparr>)" "(with_ram m s)\<lparr>procs_st := p\<rparr> = with_ram m (s\<lparr>procs_st := p\<rparr>)"
  "(with_ram m s)\<lparr>fs_st := f\<rparr> = with_ram m (s\<lparr>fs_st := f\<rparr>)" "(with_ram m s)\<lparr>rand_s := x\<rparr> = with_ram m (s\<lparr>rand_s := x\<rparr>)"
  by (simp_all add: with_ram_def)

lemma take_irq_ram: "take_irq e (with_ram m s) = with_ram m (take_irq e s)" "vm_st (take_irq e s) = vm_st s"
  by (cases e; simp)+

lemma read_wait_ram:
  "read_wait es (with_ram m s) = map_option (\<lambda>(c, s). (c, with_ram m s)) (read_wait es s)"
  "read_wait es s = Some (c, s') \<Longrightarrow> vm_st s' = vm_st s"
  by (induction es s rule: read_wait.induct) (auto simp: take_irq_ram split: prod.splits if_splits)

lemma sleep_wait_ram:
  "sleep_wait t es (with_ram m s) = map_option (with_ram m) (sleep_wait t es s)"
  "sleep_wait t es s = Some s' \<Longrightarrow> vm_st s' = vm_st s"
  by (induction t es s rule: sleep_wait.induct) (auto simp: take_irq_ram split: if_splits)

text \<open>A system call that answers the same on both sides.\<close>

definition apart_calls :: "mem \<Rightarrow> mem \<Rightarrow> (u32 \<times> 'd kernel) option \<Rightarrow> (u32 \<times> 'd kernel) option \<Rightarrow> bool" where
  "apart_calls m m' = rel_option (\<lambda>(x, s1) (y, s2). x = y \<and> kept_apart m m' s1 s2)"

lemma sys_write_apart:
  assumes "from_user r" "zone_eq (ram (vm_st s)) m'"
  shows "apart_calls (ram (vm_st s)) m' (sys_write r s) (sys_write r (with_ram m' s))"
proof (cases "user_string_ok (ram (vm_st s)) (ebx r)")
  case True
  then obtain xs where xs: "cstr (bytes_at (ram (vm_st s)) (ebx r)) xs" "0x80000 \<le> unat (ebx r)" "unat (ebx r) + length xs < 0x100000"
    unfolding user_string_iff by blast
  then show ?thesis
    using True user_string_zone [OF assms(2)] kprint_cstr [OF xs(1)] kprint_cstr [OF zone_string(2) [OF assms(2) xs]]
    by (auto simp: sys_write_def apart_calls_def intro!: kept_apart_simple [OF assms(2)])
next
  case False
  then show ?thesis
    using user_string_zone [OF assms(2)] assms by (auto simp: sys_write_def apart_calls_def intro!: kept_apart_simple [OF assms(2)])
qed

lemma sys_fwrite_apart:
  assumes "zone_eq (ram (vm_st s)) m'"
  shows "apart_calls (ram (vm_st s)) m' (sys_fwrite dev r s) (sys_fwrite dev r (with_ram m' s))"
proof (cases "user_string_ok (ram (vm_st s)) (ebx r) \<and> in_user_zone (ecx r) (edx r)")
  case True
  then obtain xs where xs: "cstr (bytes_at (ram (vm_st s)) (ebx r)) xs" "0x80000 \<le> unat (ebx r)" "unat (ebx r) + length xs < 0x100000"
    unfolding user_string_iff by blast
  have "fs_write dev (bytes_at m' (ebx r)) m' (ecx r) (edx r) (fs_st s) =
      fs_write dev (bytes_at (ram (vm_st s)) (ebx r)) (ram (vm_st s)) (ecx r) (edx r) (fs_st s)"
    using fs_write_cong [OF assms xs(1) zone_string(1) [OF assms xs]] True by blast
  then show ?thesis
    using True user_string_zone [OF assms]
    by (auto simp: sys_fwrite_def apart_calls_def Let_def split: option.split intro!: kept_apart_simple [OF assms])
next
  case False
  then show ?thesis
    using user_string_zone [OF assms] by (auto simp: sys_fwrite_def apart_calls_def Let_def intro!: kept_apart_simple [OF assms])
qed

lemma sys_fread_apart:
  assumes "zone_eq (ram (vm_st s)) m'"
  shows "apart_calls (ram (vm_st s)) m' (sys_fread dev r s) (sys_fread dev r (with_ram m' s))"
proof (cases "user_string_ok (ram (vm_st s)) (ebx r) \<and> in_user_zone (ecx r) (edx r)")
  case True
  then obtain xs where xs: "cstr (bytes_at (ram (vm_st s)) (ebx r)) xs" "0x80000 \<le> unat (ebx r)" "unat (ebx r) + length xs < 0x100000"
    unfolding user_string_iff by blast
  note z = zone_string [OF assms xs]
  have c: "fs_read dev (bytes_at m' (ebx r)) (ecx r) (edx r) m' (fs_st s) = None \<longleftrightarrow>
      fs_read dev (bytes_at (ram (vm_st s)) (ebx r)) (ecx r) (edx r) (ram (vm_st s)) (fs_st s) = None"
    using find_cong [OF xs(1) z(1)] by (auto simp: fs_read_def Let_def split: option.splits prod.splits)
  show ?thesis
  proof (cases "fs_read dev (bytes_at (ram (vm_st s)) (ebx r)) (ecx r) (edx r) (ram (vm_st s)) (fs_st s)")
    case None
    then show ?thesis
      using c True user_string_zone [OF assms] by (simp add: sys_fread_def apart_calls_def Let_def)
  next
    case (Some res)
    then obtain rc got m1 f where res: "fs_read dev (bytes_at (ram (vm_st s)) (ebx r)) (ecx r) (edx r) (ram (vm_st s)) (fs_st s) = Some (rc, got, m1, f)"
      by (cases res) auto
    obtain m1' where m1': "fs_read dev (bytes_at m' (ebx r)) (ecx r) (edx r) m' (fs_st s) = Some (rc, got, m1', f)" "zone_eq m1 m1'"
      "\<forall>a. a \<notin> user_zone \<longrightarrow> m1 a = ram (vm_st s) a \<and> m1' a = m' a"
      using fs_read_zone [OF assms xs(1) z(1) _ res] True by blast
    then show ?thesis
      using res True user_string_zone [OF assms] by (simp add: sys_fread_def apart_calls_def Let_def kept_apart_def with_ram_def)
  qed
next
  case False
  then show ?thesis
    using user_string_zone [OF assms] by (auto simp: sys_fread_def apart_calls_def Let_def intro!: kept_apart_simple [OF assms])
qed

section \<open>Waiting calls\<close>

fun presses :: "irq list \<Rightarrow> key_event list" where
  "presses [] = []"
| "presses (Tick # es) = presses es"
| "presses (Key sc # es) = Irq sc # presses es"

lemma getchar_cases:
  assumes "kb_inv k"
  shows "kb_items k = [] \<Longrightarrow> keyboard_getchar k = (- 1, k)" "kb_items k = c # rest \<Longrightarrow> fst (keyboard_getchar k) = uint c"
  using kb_items_Nil [OF assms] kb_getchar_items [OF assms] by (auto simp: keyboard_getchar_def split: if_splits)

lemma read_wait_now: "kb_inv (keys s) \<Longrightarrow> kb_items (keys s) = c # rest \<Longrightarrow> \<exists>s'. read_wait es s = Some (uint c, s')"
  using getchar_cases(2) [of "keys s" c rest] by (cases es) (auto split: prod.splits)

lemma read_wait_answers:
  assumes "kb_inv (keys s)" "kb_items (keys s) @ typed (mode (keys s)) (presses es) = c # rest"
  shows "\<exists>s'. read_wait es s = Some (uint c, s')"
  using assms
proof (induction es arbitrary: s)
  case Nil
  then show ?case
    using read_wait_now [of s c rest "[]"] by simp
next
  case (Cons e es)
  show ?case
  proof (cases "kb_items (keys s)")
    case Nil
    note empty = getchar_cases(1) [OF Cons.prems(1) Nil]
    show ?thesis
    proof (cases e)
      case Tick
      then show ?thesis
        using Cons.IH [of "take_irq e s"] Cons.prems empty by simp
    next
      case (Key sc)
      obtain x m' where x: "key (mode (keys s)) sc = (x, m')"
        by (cases "key (mode (keys s)) sc")
      let ?k = "keyboard_callback sc (keys s)"
      have k: "mode ?k = m'" "plain ?k = (case x of None \<Rightarrow> plain (keys s) | Some y \<Rightarrow> enqueue y (plain (keys s)))"
        using keyboard_callback_key [of sc "keys s"] by (simp_all add: x)
      have i: "kb_inv ?k" "kb_items ?k = (case x of None \<Rightarrow> [] | Some y \<Rightarrow> [y])"
        using arg_cong [OF k(2), of kb_inv] arg_cong [OF k(2), of kb_items] Cons.prems(1) Nil
        by (auto split: option.splits simp: ring.inv_push ring.items_push)
      have "kb_items (keys (take_irq e s)) @ typed (mode (keys (take_irq e s))) (presses es) = c # rest"
        using Cons.prems(2) Nil Key i(2) k(1) x by simp
      then show ?thesis
        using Cons.IH [of "take_irq e s"] i(1) Key empty by simp
    qed
  next
    case (Cons y ys)
    then show ?thesis
      using read_wait_now [OF Cons.prems(1), of c ys "e # es"] Cons.prems(2) by simp
  qed
qed

lemma sleep_wait_answers:
  assumes "unat target \<le> unat (ticks s) + length (filter ((=) Tick) es)"
  shows "\<exists>s'. sleep_wait target es s = Some s' \<and> target \<le> ticks s'"
  using assms
proof (induction es arbitrary: s)
  case Nil
  then show ?case
    by (simp add: word_less_nat_alt word_le_nat_alt)
next
  case (Cons e es)
  show ?case
  proof (cases "ticks s < target")
    case True
    have "unat target \<le> unat (ticks (take_irq e s)) + length (filter ((=) Tick) es)"
      using Cons.prems True unat_add_one [OF True] by (cases e) auto
    then show ?thesis
      using Cons.IH True by simp
  qed simp
qed

section \<open>Properties of system calls\<close>

lemma apart_returns:
  "apart_calls m m' x y \<Longrightarrow>
   rel_option (\<lambda>(o1, r1, s1) (o2, r2, s2). o1 = o2 \<and> r1 = r2 \<and> kept_apart m m' s1 s2) (map_option (returns r) x) (map_option (returns r) y)"
  by (auto simp: apart_calls_def option.rel_map returns_def elim!: option.rel_mono_strong)

lemma rel_if:
  "(c \<Longrightarrow> rel_option R a a') \<Longrightarrow> (\<not> c \<Longrightarrow> rel_option R b b') \<Longrightarrow> rel_option R (if c then a else b) (if c then a' else b')"
  by simp

text \<open>
  C3: a system call keeps the kernel and the program apart, both ways. Take a call from ring 3 and let the memory outside the
  user zone hold anything else instead: the call answers the same, prints the same, stores the same on the disk
  and leaves the user zone the same, so nothing outside the zone can leak out through it. In both runs the memory
  outside the zone is as it was, so nothing can be written there through it, whatever pointers the program passes.
\<close>

theorem syscall_isolation:
  assumes user: "from_user r" and z: "zone_eq (ram (vm_st s)) m'"
  shows "rel_option (\<lambda>(o1, r1, s1) (o2, r2, s2). o1 = o2 \<and> r1 = r2 \<and> kept_apart (ram (vm_st s)) m' s1 s2)
    (syscall_handler dev evs r s) (syscall_handler dev evs r (with_ram m' s))"
proof -
  let ?R = "rel_option (\<lambda>(o1, r1, s1) (o2, r2, s2). o1 = o2 \<and> r1 = r2 \<and> kept_apart (ram (vm_st s)) m' s1 s2)"
  have sbrk: "?R (Some (returns r (sys_sbrk n s))) (Some (returns r (sys_sbrk n (with_ram m' s))))" for n
    using z by (auto simp: returns_def sys_sbrk_def Let_def intro!: kept_apart_simple)
  have rand: "?R (Some (returns r (sys_rand s))) (Some (returns r (sys_rand (with_ram m' s))))"
    using z by (auto simp: returns_def sys_rand_def Let_def intro!: kept_apart_simple)
  have const: "?R (Some (returns r (x, s))) (Some (returns r (x, with_ram m' s)))" for x
    using z by (auto simp: returns_def intro!: kept_apart_simple)
  have leave: "?R (Some (Leave, r, s)) (Some (Leave, r, with_ram m' s))"
    using z by (auto intro!: kept_apart_simple)
  have read: "?R (map_option (\<lambda>(c, s). returns r (of_int c, s)) (read_wait evs s)) (map_option (\<lambda>(c, s). returns r (of_int c, s)) (read_wait evs (with_ram m' s)))"
    using z read_wait_ram(2) [of evs s]
    by (cases "read_wait evs s") (auto simp: read_wait_ram(1) returns_def intro!: kept_apart_simple)
  have sleep: "?R (map_option (\<lambda>s. returns r (0, s)) (sleep_wait t evs s)) (map_option (\<lambda>s. returns r (0, s)) (sleep_wait t evs (with_ram m' s)))" for t
    using z sleep_wait_ram(2) [of t evs s]
    by (cases "sleep_wait t evs s") (auto simp: sleep_wait_ram(1) returns_def intro!: kept_apart_simple)
  show ?thesis
    unfolding syscall_handler_def with_ram_simps
    by (intro rel_if apart_returns sys_write_apart sys_fwrite_apart sys_fread_apart user z sbrk rand const leave read sleep)
qed

text \<open>A kernel that has just booted, and a program that asks it to print what is in kernel memory.\<close>

definition booted_kernel :: "drive kernel" where
  "booted_kernel = \<lparr>screen = \<lparr>video = \<lambda>_. 0, cursor = 0, text_color = COLOR_WHITE_ON_BLACK\<rparr>, ticks = 7, keys = kb_empty,
     procs_st = procs_boot, vm_st = boot_vm, demand_st = demand_boot, fs_st = fs_init (ide 3) first_boot, rand_s = 0, cr2 = 0,
     fault_armed = True, g_user_faulted = False\<rparr>"

definition user_call :: "u32 \<Rightarrow> u32 \<Rightarrow> u32 \<Rightarrow> u32 \<Rightarrow> registers" where
  "user_call a b c d = \<lparr>ds = 0x23, edi = 0, esi = 0, ebp = 0, esp = 0, ebx = b, edx = d, ecx = c, eax = a, int_no = 0x80, err_code = 0,
     eip = 0x80000, cs = 0x1B, eflags = 0x202, useresp = 0xEFFFC, ss = 0x23\<rparr>"

lemma from_user_call [simp]: "from_user (user_call a b c d)"
  by (simp add: from_user_def user_call_def)

theorem syscall_isolation_witness:
  "syscall_handler (ide 3) [] (user_call 0 0x200000 0 0) booted_kernel = Some (Resume, user_call (- 1) 0x200000 0 0, booted_kernel) \<and>
   (\<exists>s2. syscall_handler (ide 3) [] (user_call 0 0x200000 0 0) (with_ram ((ram boot_vm)(0x200000 := 65)) booted_kernel) =
      Some (Resume, user_call (- 1) 0x200000 0 0, s2) \<and> ram (vm_st s2) 0x200000 = 65 \<and> screen s2 = screen booted_kernel)"
proof -
  let ?r = "user_call 0 0x200000 0 0"
  let ?m = "(ram boot_vm)(0x200000 := 65)"
  have z: "zone_eq (ram (vm_st booted_kernel)) ?m"
    by (auto simp: zone_eq_def booted_kernel_def user_zone_def)
  have r: "syscall_handler (ide 3) [] ?r booted_kernel = Some (Resume, user_call (- 1) 0x200000 0 0, booted_kernel)"
    by (simp add: syscall_handler_def sys_write_def user_string_iff user_call_def from_user_def returns_def)
  then obtain s2 where "syscall_handler (ide 3) [] ?r (with_ram ?m booted_kernel) = Some (Resume, user_call (- 1) 0x200000 0 0, s2)"
    "kept_apart (ram (vm_st booted_kernel)) ?m booted_kernel s2"
    using syscall_isolation [where r = ?r and dev = "ide 3" and evs = "[]", OF from_user_call z]
    by (cases "syscall_handler (ide 3) [] ?r (with_ram ?m booted_kernel)") auto
  moreover from this(2) have "ram (vm_st s2) 0x200000 = 65" "screen s2 = screen booted_kernel"
    by (auto simp: kept_apart_def user_zone_def) (metis with_ram_simps(1))
  ultimately show ?thesis
    using r by blast
qed

lemma find_returns: "cstr nm xs \<Longrightarrow> find es nm \<noteq> None"
proof -
  assume nm: "cstr nm xs"
  have "find_loop es nm is \<noteq> None" for "is"
  proof (induction "is")
    case (Cons i "is")
    have "\<exists>r. strcmp (name_at es i) nm = Some r"
      using strcmp_cstr [OF cstr_takeWhile nm] unfolding name_at_def by blast
    then show ?case
      using Cons by auto
  qed simp
  then show ?thesis
    by (simp add: find_def)
qed

text \<open>
  C23: the kernel answers. Whatever arguments a program passes, every system call but the two that wait on purpose
  returns or ends the program. A read returns the first character that is typed, however many other interrupts come before it; a sleep
  returns once the ticks it asked for have passed, and not before, as long as the tick counter does not wrap meanwhile.
\<close>

theorem syscall_answers:
  assumes "from_user r"
  shows "(eax r \<noteq> 3 \<and> eax r \<noteq> 4 \<longrightarrow> (\<exists>a. syscall_handler dev evs r s = Some a)) \<and>
    (eax r = 3 \<and> kb_inv (keys s) \<and> kb_items (keys s) @ typed (mode (keys s)) (presses evs) = c # rest \<longrightarrow>
       (\<exists>s'. syscall_handler dev evs r s = Some (Resume, r\<lparr>eax := ucast c\<rparr>, s'))) \<and>
    (eax r = 4 \<and> unat (ticks s) + unat (ebx r) < 2 ^ 32 \<and> unat (ebx r) \<le> length (filter ((=) Tick) evs) \<longrightarrow>
       (\<exists>s'. syscall_handler dev evs r s = Some (Resume, r\<lparr>eax := 0\<rparr>, s') \<and> unat (ticks s) + unat (ebx r) \<le> unat (ticks s')))"
proof (intro conjI impI)
  assume e: "eax r \<noteq> 3 \<and> eax r \<noteq> 4"
  have name: "\<exists>xs. cstr (bytes_at m p) xs" if "user_string_ok m p" for m p
    using that by (auto simp: user_string_iff)
  have w: "sys_write r s \<noteq> None"
  proof (cases "user_string_ok (ram (vm_st s)) (ebx r)")
    case True
    then obtain xs where "cstr (bytes_at (ram (vm_st s)) (ebx r)) xs"
      using name by blast
    then show ?thesis
      using kprint_cstr by (auto simp: sys_write_def)
  qed (use assms in \<open>simp add: sys_write_def\<close>)
  have found: "\<exists>i. find es (bytes_at m p) = Some i" if "user_string_ok m p" for es m p
    using name [OF that] find_returns [of "bytes_at m p"] by blast
  have f: "sys_fwrite dev r s \<noteq> None" "sys_fread dev r s \<noteq> None"
    using found [of "ram (vm_st s)" "ebx r" "dir (fs_st s)"] by (auto simp: sys_fwrite_def sys_fread_def fs_write_def fs_read_def Let_def split: option.splits prod.splits)
  show "\<exists>a. syscall_handler dev evs r s = Some a"
    using w f e by (auto simp: syscall_handler_def returns_def)
next
  assume "eax r = 3 \<and> kb_inv (keys s) \<and> kb_items (keys s) @ typed (mode (keys s)) (presses evs) = c # rest"
  then show "\<exists>s'. syscall_handler dev evs r s = Some (Resume, r\<lparr>eax := ucast c\<rparr>, s')"
    using read_wait_answers [of s evs c rest] by (auto simp: syscall_handler_def returns_def)
next
  assume a: "eax r = 4 \<and> unat (ticks s) + unat (ebx r) < 2 ^ 32 \<and> unat (ebx r) \<le> length (filter ((=) Tick) evs)"
  then have "unat (ticks s + ebx r) = unat (ticks s) + unat (ebx r)"
    by (intro unat_add_no_wrap) simp
  then show "\<exists>s'. syscall_handler dev evs r s = Some (Resume, r\<lparr>eax := 0\<rparr>, s') \<and> unat (ticks s) + unat (ebx r) \<le> unat (ticks s')"
    using sleep_wait_answers [of "ticks s + ebx r" s evs] a by (auto simp: syscall_handler_def returns_def word_le_nat_alt)
qed

theorem syscall_answers_witness:
  "\<exists>s'. syscall_handler (ide 3) [Tick, Key 0x2A, Tick, Key 0x1E, Key 0x30] (user_call 3 0 0 0) booted_kernel =
     Some (Resume, user_call 65 0 0 0, s')"
proof -
  have t: "typed (mode kb_empty) [Irq 0x2A, Irq 0x1E, Irq 0x30] = [65, 66]"
    by (simp add: mode_def kb_empty_def) code_simp
  have k: "kb_inv kb_empty" "kb_items kb_empty = []"
    by (simp_all add: kb_inv_def kb_items_def kb_empty_def)
  show ?thesis
    using syscall_answers [where r = "user_call 3 0 0 0" and dev = "ide 3" and s = booted_kernel and c = 65 and rest = "[66]"
        and evs = "[Tick, Key 0x2A, Tick, Key 0x1E, Key 0x30]", OF from_user_call] t k
    by (simp add: user_call_def booted_kernel_def)
qed

text \<open>The break of the running program.\<close>

definition heap_break :: "'d kernel \<Rightarrow> u32" where
  "heap_break s = (let p = proc_current (procs_st s) in if p_brk p \<noteq> 0 then p_brk p else USER_HEAP_BASE)"

lemma sys_sbrk_ok:
  assumes "USER_HEAP_BASE \<le> heap_break s" "heap_break s \<le> USER_HEAP_END" "current_idx (procs_st s) < length (table (procs_st s))"
    and "sys_sbrk n s = (a, s')"
  shows "(if unat (heap_break s) + unat n \<le> unat USER_HEAP_END
      then a = heap_break s \<and> unat (heap_break s') = unat (heap_break s) + unat n
      else a = - 1 \<and> s' = s) \<and>
    USER_HEAP_BASE \<le> heap_break s' \<and> heap_break s' \<le> USER_HEAP_END \<and>
    (\<forall>i. i \<noteq> current_idx (procs_st s) \<longrightarrow> slot_of (procs_st s') i = slot_of (procs_st s) i) \<and>
    s' = s\<lparr>procs_st := procs_st s'\<rparr>"
proof -
  define old where "old = heap_break s"
  have o: "old \<noteq> 0" "unat old \<le> 0x9F000" "0x90000 \<le> unat old"
    using assms(1,2) by (auto simp: old_def USER_HEAP_BASE_def USER_HEAP_END_def word_le_nat_alt)
  have room: "old + n < old \<or> old + n > USER_HEAP_END \<longleftrightarrow> \<not> unat old + unat n \<le> unat USER_HEAP_END"
    using o unat_u32_less [of n] by (auto simp: word_less_nat_alt unat_add_u32 USER_HEAP_END_def mod_if)
  have sb: "sys_sbrk n s = (if n = 0 then (old, s) else if \<not> unat old + unat n \<le> unat USER_HEAP_END then (- 1, s)
      else (old, s\<lparr>procs_st := set_slot (current_idx (procs_st s)) ((proc_current (procs_st s))\<lparr>p_brk := old + n\<rparr>) (procs_st s)\<rparr>))"
    unfolding room [symmetric] by (simp add: sys_sbrk_def old_def heap_break_def Let_def)
  show ?thesis
  proof (cases "n \<noteq> 0 \<and> unat old + unat n \<le> unat USER_HEAP_END")
    case True
    then have s': "a = old" "s' = s\<lparr>procs_st := set_slot (current_idx (procs_st s)) ((proc_current (procs_st s))\<lparr>p_brk := old + n\<rparr>) (procs_st s)\<rparr>"
      using assms(4) sb by auto
    have sum: "unat (old + n) = unat old + unat n"
      using True by (intro unat_add_no_wrap) (simp add: USER_HEAP_END_def)
    then have "old + n \<noteq> 0"
      using o by (auto simp: word_unat_eq_iff)
    then have "heap_break s' = old + n"
      using assms(3) by (simp add: s' heap_break_def proc_current_def slot_of_def set_slot_def)
    then show ?thesis
      using True s' sum o assms(3) by (auto simp: old_def [symmetric] slot_of_def set_slot_def word_le_nat_alt USER_HEAP_BASE_def USER_HEAP_END_def)
  next
    case False
    then have "s' = s" "a = (if n = 0 then old else - 1)"
      using assms(4) sb by (auto split: if_splits)
    then show ?thesis
      using False assms(1,2) o by (auto simp: old_def [symmetric] word_le_nat_alt USER_HEAP_END_def)
  qed
qed

text \<open>
  C39: \<open>sbrk\<close> hands out the heap and nothing else. While the break lies in the heap, a request is granted exactly when the
  rest of the heap has room for it: then the answer is the old break, the break moves up by exactly the size
  requested, also when the addition would wrap around, and stays in the heap, so successive grants do not overlap. Otherwise the answer is \<open>-1\<close> and
  nothing changes. No other process is touched.
\<close>

theorem sbrk_correct:
  assumes "USER_HEAP_BASE \<le> heap_break s" "heap_break s \<le> USER_HEAP_END" "current_idx (procs_st s) < length (table (procs_st s))"
    and "sys_sbrk n s = (a, s')"
  shows "(if unat (heap_break s) + unat n \<le> unat USER_HEAP_END
      then a = heap_break s \<and> unat (heap_break s') = unat (heap_break s) + unat n
      else a = - 1 \<and> s' = s) \<and>
    USER_HEAP_BASE \<le> heap_break s' \<and> heap_break s' \<le> USER_HEAP_END \<and>
    (\<forall>i. i \<noteq> current_idx (procs_st s) \<longrightarrow> slot_of (procs_st s') i = slot_of (procs_st s) i) \<and>
    s' = s\<lparr>procs_st := procs_st s'\<rparr>"
  using assms by (rule sys_sbrk_ok)

theorem sbrk_correct_witness:
  "(case sys_sbrk 0x1000 booted_kernel of (a, s) \<Rightarrow> a = 0x90000 \<and> unat (heap_break s) = 0x91000) \<and>
   (case sys_sbrk (- 16) booted_kernel of (a, s) \<Rightarrow> a = - 1 \<and> s = booted_kernel)"
proof -
  have b: "heap_break booted_kernel = USER_HEAP_BASE" "current_idx (procs_st booted_kernel) < length (table (procs_st booted_kernel))"
    by (simp_all add: heap_break_def booted_kernel_def proc_current_def slot_of_def procs_boot_def zero_proc_def MAX_PROCS_def)
  have le: "USER_HEAP_BASE \<le> USER_HEAP_END"
    by (simp add: USER_HEAP_BASE_def USER_HEAP_END_def word_le_nat_alt)
  show ?thesis
    using sbrk_correct [of booted_kernel, unfolded b(1), OF order_refl le b(2) prod.collapse [symmetric], of "0x1000"]
      sbrk_correct [of booted_kernel, unfolded b(1), OF order_refl le b(2) prod.collapse [symmetric], of "- 16"]
    by (simp add: USER_HEAP_BASE_def USER_HEAP_END_def case_prod_unfold)
qed

section \<open>Properties of faults\<close>

lemma cr3_map_alloc: "cr3 (snd (vmm_map_alloc d v flags s)) = cr3 s"
  by (auto simp: vmm_map_alloc_def vmm_map_def table_for_def alloc_frame_def zero_frame_def set_entry_def free_frame_def Let_def split: prod.splits if_splits)

lemma cr3_demand_handle: "cr3 (snd (snd (demand_handle a err d s))) = cr3 s"
  using cr3_map_alloc [of "active_dir s" "FRAME_OF a" _ s] by (auto simp: demand_handle_eq split: option.splits prod.splits) (metis snd_conv)

lemma cow_unmarked:
  "\<not> (bit err 1 \<and> bit (pte s (active_dir s) v) 0 \<and> bit (pte s (active_dir s) v) 9) \<Longrightarrow> vmm_cow_handle v err s = (False, s)"
  by (auto simp: vmm_cow_handle_def pte_def Let_def flag_simps split: if_splits)

lemma fatal_fault_ok:
  "fatal_fault r s = (out, s') \<Longrightarrow>
     if fault_armed s then out = Recover \<and> s' = s\<lparr>screen := screen s', fault_armed := False, g_user_faulted := True\<rparr>
     else out = Halt \<and> s' = s\<lparr>screen := screen s'\<rparr>"
  by (auto simp: fatal_fault_def Let_def split: if_splits)

lemma isr_handler_unserved:
  assumes "isr_handler r s = (out, s')" "int_no r \<noteq> 14 \<or> (promised (demand_st s) (active_dir (vm_st s)) (cr2 s) = None \<or> bit (err_code r) 0) \<and>
      \<not> (bit (err_code r) 1 \<and> bit (pte (vm_st s) (active_dir (vm_st s)) (cr2 s)) 0 \<and> bit (pte (vm_st s) (active_dir (vm_st s)) (cr2 s)) 9)"
  shows "fatal_fault r s = (out, s')"
proof (cases "int_no r = 14")
  case True
  then have "demand_handle (cr2 s) (err_code r) (demand_st s) (vm_st s) = (False, demand_st s, vm_st s)"
    "vmm_cow_handle (cr2 s) (err_code r) (vm_st s) = (False, vm_st s)"
    using assms(2) cow_unmarked by (auto simp: demand_handle_eq)
  then show ?thesis
    using assms(1) True by (simp add: isr_handler_def)
qed (use assms(1) in \<open>simp add: isr_handler_def\<close>)

lemma isr_handler_served:
  assumes inv: "vm_inv (vm_st s) D L" "active_dir (vm_st s) \<in> D" and a: "0x800000 \<le> cr2 s"
    and err: "bit (err_code r) 0 \<longleftrightarrow> bit (pte (vm_st s) (active_dir (vm_st s)) (cr2 s)) 0"
    and h: "isr_handler r s = (Resume, s')"
  defines "d \<equiv> active_dir (vm_st s)"
  shows "vm_inv (vm_st s') D L \<and> (\<forall>c \<in> D - {d}. unchanged (vm_st s) (vm_st s') c) \<and>
    bit (pte (vm_st s') d (cr2 s)) 0 \<and> s' = s\<lparr>vm_st := vm_st s', demand_st := demand_st s'\<rparr> \<and>
    (bit (err_code r) 0 \<longrightarrow> bit (err_code r) 1 \<and> bit (pte (vm_st s') d (cr2 s)) 1 \<and>
       owners (pmm_st (vm_st s')) (FRAME_OF (pte (vm_st s') d (cr2 s))) = 1)"
proof -
  have nf: "fatal_fault r t \<noteq> (Resume, s')" for t
    by (auto simp: fatal_fault_def Let_def)
  then have r: "int_no r = 14"
    using h by (auto simp: isr_handler_def split: if_splits)
  obtain ok1 dm v1 where h1: "demand_handle (cr2 s) (err_code r) (demand_st s) (vm_st s) = (ok1, dm, v1)"
    by (cases "demand_handle (cr2 s) (err_code r) (demand_st s) (vm_st s)")
  obtain ok2 v2 where h2: "vmm_cow_handle (cr2 s) (err_code r) v1 = (ok2, v2)"
    by fastforce
  have e: "ok1 \<and> s' = s\<lparr>demand_st := dm, vm_st := v1\<rparr> \<or> \<not> ok1 \<and> ok2 \<and> s' = s\<lparr>demand_st := dm, vm_st := v2\<rparr>"
    using h h1 h2 r nf by (cases ok1; cases ok2) (simp_all add: isr_handler_def Let_def)
  have "bit (err_code r) 0 \<or> \<not> bit (pte (vm_st s) (active_dir (vm_st s)) (cr2 s)) 0"
    using err by blast
  note dem = demand_handle_ok [OF inv a this h1]
  show ?thesis
  proof (cases "bit (err_code r) 0")
    case True
    then have d: "\<not> ok1" "dm = demand_st s" "v1 = vm_st s"
      using dem by auto
    show ?thesis
      using e d vmm_cow_handle_ok [OF inv a h2 [unfolded d(3)]] by (simp add: d_def)
  next
    case False
    have "\<not> ok2" if "\<not> ok1"
    proof -
      have "pte v1 (active_dir (vm_st s)) (cr2 s) = pte (vm_st s) (active_dir (vm_st s)) (cr2 s)"
        using dem that a by (simp add: same_view_def)
      moreover have "active_dir v1 = active_dir (vm_st s)"
        using cr3_demand_handle [of "cr2 s" "err_code r" "demand_st s" "vm_st s"] h1 by (simp add: active_dir_def)
      ultimately show ?thesis
        using cow_unmarked [of "err_code r" v1 "cr2 s"] err False h2 by simp
    qed
    then have "ok1" "s' = s\<lparr>demand_st := dm, vm_st := v1\<rparr>"
      using e by blast+
    moreover have "bit (pte v1 (active_dir (vm_st s)) (cr2 s)) 0"
      using dem \<open>ok1\<close> by (auto simp: bit_or_iff)
    ultimately show ?thesis
      using dem False by (auto simp: d_def)
  qed
qed

text \<open>
  C5: an exception ends in the right way.  Unless it is a page fault on an address that was promised to the running
  space and had no page, or a write to a page that is present and marked copy-on-write, the handler changes no memory,
  no address space and no promise: in any state of the kernel and at any address it goes to the recovery point if one is armed,
  disarming it and recording the fault, and stops the machine otherwise.  It resumes the program only
  otherwise; when the fault is above 8 MB in a process's address space, with the error code the processor gives (bit 0 is set if the page
  was present, bit 1 for a write), the page is then present and, after a write to a copy-on-write page, writable and private, the counts of frames
  stay exact, no other address space changes and nothing but memory and the count of faults served does.
\<close>

theorem page_fault_correct:
  assumes "isr_handler r s = (out, s')"
  defines "d \<equiv> active_dir (vm_st s)"
  shows "(int_no r \<noteq> 14 \<or> (promised (demand_st s) d (cr2 s) = None \<or> bit (err_code r) 0) \<and>
      \<not> (bit (err_code r) 1 \<and> bit (pte (vm_st s) d (cr2 s)) 0 \<and> bit (pte (vm_st s) d (cr2 s)) 9) \<longrightarrow>
      (if fault_armed s then out = Recover \<and> s' = s\<lparr>screen := screen s', fault_armed := False, g_user_faulted := True\<rparr>
       else out = Halt \<and> s' = s\<lparr>screen := screen s'\<rparr>)) \<and>
    (out = Resume \<and> vm_inv (vm_st s) D L \<and> d \<in> D \<and> 0x800000 \<le> cr2 s \<and> (bit (err_code r) 0 \<longleftrightarrow> bit (pte (vm_st s) d (cr2 s)) 0) \<longrightarrow>
      vm_inv (vm_st s') D L \<and> (\<forall>c \<in> D - {d}. unchanged (vm_st s) (vm_st s') c) \<and>
      bit (pte (vm_st s') d (cr2 s)) 0 \<and> s' = s\<lparr>vm_st := vm_st s', demand_st := demand_st s'\<rparr> \<and>
      (bit (err_code r) 0 \<longrightarrow> bit (err_code r) 1 \<and> bit (pte (vm_st s') d (cr2 s)) 1 \<and>
         owners (pmm_st (vm_st s')) (FRAME_OF (pte (vm_st s') d (cr2 s))) = 1))"
  using fatal_fault_ok [OF isr_handler_unserved [OF assms(1)]] isr_handler_served [of s D L r s'] assms(1) unfolding d_def by blast

lemma only_report:
  "x = s\<lparr>screen := screen x, fault_armed := a, g_user_faulted := b\<rparr> \<Longrightarrow> vm_st x = vm_st s \<and> g_user_faulted x = b"
  "x = s\<lparr>screen := screen x\<rparr> \<Longrightarrow> vm_st x = vm_st s"
  by (cases x; cases s; simp)+

theorem page_fault_correct_witness:
  "let s = booted_kernel\<lparr>vm_st := running_space, demand_st := first_promise, cr2 := 0x01000ABC\<rparr>;
       r = (user_call 0 0 0 0)\<lparr>int_no := 14, err_code := 2\<rparr>
   in (case isr_handler r s of (out, s') \<Rightarrow> out = Resume \<and> bit (pte (vm_st s') (fst first_space) 0x01000ABC) 0) \<and>
      (case isr_handler r (s\<lparr>demand_st := demand_boot\<rparr>) of (out, s') \<Rightarrow> out = Recover \<and> vm_st s' = running_space \<and> g_user_faulted s') \<and>
      (case isr_handler (r\<lparr>err_code := 0\<rparr>) (booted_kernel\<lparr>cr2 := 0x100000\<rparr>) of (out, s') \<Rightarrow> out = Recover \<and> vm_st s' = boot_vm \<and> g_user_faulted s') \<and>
      (case isr_handler (r\<lparr>int_no := 0\<rparr>) (booted_kernel\<lparr>fault_armed := False\<rparr>) of (out, s') \<Rightarrow> out = Halt \<and> vm_st s' = boot_vm)"
proof -
  define s where "s = booted_kernel\<lparr>vm_st := running_space, demand_st := first_promise, cr2 := 0x01000ABC\<rparr>"
  define r where "r = (user_call 0 0 0 0)\<lparr>int_no := 14, err_code := 2\<rparr>"
  have r: "int_no r = 14" "err_code r = 2" and s: "vm_st s = running_space" "demand_st s = first_promise" "cr2 s = 0x01000ABC" "fault_armed s"
    by (simp_all add: r_def s_def booted_kernel_def)
  have pt: "pte running_space (active_dir running_space) 0x01000ABC = 0"
    using running_space_inv(1,3) by simp
  obtain ok d' v where h: "demand_handle 0x01000ABC 2 first_promise running_space = (ok, d', v)"
    by (cases "demand_handle 0x01000ABC 2 first_promise running_space")
  have ok
    using demand_handle_ok [OF running_space_inv(2) _ _ _ h] running_space_inv(1,4) first_promise_promised pt by simp
  then have "fst (isr_handler r s) = Resume"
    using h r s by (auto simp: isr_handler_def split: prod.splits)
  then have one: "bit (pte (vm_st (snd (isr_handler r s))) (fst first_space) 0x01000ABC) 0"
    using page_fault_correct [OF surjective_pairing, of r s "{fst first_space}" "{#}"] r(2) s pt running_space_inv(1,2) by simp
  let ?t = "s\<lparr>demand_st := demand_boot\<rparr>" and ?k = "booted_kernel\<lparr>cr2 := 0x100000\<rparr>" and ?l = "booted_kernel\<lparr>fault_armed := False\<rparr>"
  let ?q = "r\<lparr>err_code := 0\<rparr>" and ?z = "r\<lparr>int_no := 0\<rparr>"
  have k: "vm_st ?k = boot_vm" "fault_armed ?k" "demand_st ?k = demand_boot" "vm_st ?l = boot_vm" "\<not> fault_armed ?l"
    by (simp_all add: booted_kernel_def)
  have "fst (isr_handler (r) (?t)) = Recover \<and> snd (isr_handler (r) (?t)) = (?t)\<lparr>screen := screen (snd (isr_handler (r) (?t))), fault_armed := False, g_user_faulted := True\<rparr>"
    using page_fault_correct [OF surjective_pairing, of "r" "?t"] r s pt demand_boot_empty(1) by simp
  then have two: "fst (isr_handler (r) (?t)) = Recover" "vm_st (snd (isr_handler (r) (?t))) = vm_st (?t)" "g_user_faulted (snd (isr_handler (r) (?t)))"
    using only_report(1) [where x = "snd (isr_handler (r) (?t))" and s = "?t"] by blast+
  have "fst (isr_handler (?q) (?k)) = Recover \<and> snd (isr_handler (?q) (?k)) = (?k)\<lparr>screen := screen (snd (isr_handler (?q) (?k))), fault_armed := False, g_user_faulted := True\<rparr>"
    using page_fault_correct [OF surjective_pairing, of "?q" "?k"] k demand_boot_empty(1) by simp
  then have three: "fst (isr_handler (?q) (?k)) = Recover" "vm_st (snd (isr_handler (?q) (?k))) = vm_st (?k)" "g_user_faulted (snd (isr_handler (?q) (?k)))"
    using only_report(1) [where x = "snd (isr_handler (?q) (?k))" and s = "?k"] by blast+
  have "fst (isr_handler (?z) (?l)) = Halt \<and> snd (isr_handler (?z) (?l)) = (?l)\<lparr>screen := screen (snd (isr_handler (?z) (?l)))\<rparr>"
    using page_fault_correct [OF surjective_pairing, of "?z" "?l"] k by simp
  then have four: "fst (isr_handler (?z) (?l)) = Halt" "vm_st (snd (isr_handler (?z) (?l))) = vm_st (?l)"
    using only_report(2) [where x = "snd (isr_handler (?z) (?l))" and s = "?l"] by blast+
  show ?thesis
    unfolding Let_def s_def [symmetric] r_def [symmetric] case_prod_unfold
    using one \<open>fst (isr_handler r s) = Resume\<close> two three four k s(1) by simp
qed

end
