(* ===== verification/Umalloc.thy ===== *)
theory Umalloc
  imports Blocks Traps
begin

text \<open>
  The heap of a user program, \<open>user/umalloc.h\<close>: a first-fit allocator that grows its heap with the \<open>sbrk\<close> system call.  Its
  blocks are headers in the memory of the program, laid out as in \<open>Blocks\<close> with a header of 16 bytes.
\<close>

definition U_HDR :: u32 where
  "U_HDR = 16"

text \<open>
  The memory the program works on, its list head, and the state of the kernel behind the system calls.  \<open>sbrk\<close> neither reads nor
  writes the memory of the program.
\<close>

record 's uheap =
  uram :: mem
  u_head :: u32
  os :: 's

text \<open>The system call, from the registers \<open>r\<close> of the program.\<close>

definition u_sbrk :: "'d ports \<Rightarrow> registers \<Rightarrow> u32 \<Rightarrow> 'd kernel \<Rightarrow> (u32 \<times> 'd kernel) option" where
  "u_sbrk dev r incr s =
     map_option (\<lambda>(out, r, s). (eax r, s)) (syscall_handler dev [] (r\<lparr>eax := 9, ebx := incr\<rparr>) s)"

partial_function (option) coalesce_loop :: "u32 \<Rightarrow> mem \<Rightarrow> mem option" where
  "coalesce_loop b m =
     (if b \<noteq> 0 \<and> block_next m b \<noteq> 0 then
        if block_free m b \<noteq> 0 \<and> block_free m (block_next m b) \<noteq> 0 then
          let m = store32 m b (block_size m b + (U_HDR + block_size m (block_next m b)));
              m = store32 m (b + 8) (block_next m (block_next m b))
          in coalesce_loop b m
        else coalesce_loop (block_next m b) m
      else Some m)"

definition u_coalesce :: "'s uheap \<Rightarrow> 's uheap option" where
  "u_coalesce h = map_option (\<lambda>m. h\<lparr>uram := m\<rparr>) (coalesce_loop (u_head h) (uram h))"

text \<open>The body of the search of \<open>umalloc\<close> once a block fits.\<close>

definition umalloc_take :: "u32 \<Rightarrow> u32 \<Rightarrow> mem \<Rightarrow> mem" where
  "umalloc_take want b m =
     (let m = (if want + U_HDR + 8 \<le> block_size m b
               then let rest = b + U_HDR + want;
                        m = store32 m rest (block_size m b - want - U_HDR);
                        m = store32 m (rest + 4) 1;
                        m = store32 m (rest + 8) (block_next m b);
                        m = store32 m b want
                    in store32 m (b + 8) rest
               else m)
      in store32 m (b + 4) 0)"

text \<open>The search; the inner value is missing if the list ends without a fit.\<close>

partial_function (option) fit_loop :: "u32 \<Rightarrow> u32 \<Rightarrow> mem \<Rightarrow> (u32 \<times> mem) option option" where
  "fit_loop want b m =
     (if b = 0 then Some None
      else if block_free m b \<noteq> 0 \<and> want \<le> block_size m b
      then Some (Some (b + U_HDR, umalloc_take want b m))
      else fit_loop want (block_next m b) m)"

partial_function (option) last_loop :: "u32 \<Rightarrow> mem \<Rightarrow> u32 option" where
  "last_loop t m = (if block_next m t \<noteq> 0 then last_loop (block_next m t) m else Some t)"

definition umalloc :: "(u32 \<Rightarrow> 's \<Rightarrow> (u32 \<times> 's) option) \<Rightarrow> u32 \<Rightarrow> 's uheap \<Rightarrow> (u32 \<times> 's uheap) option" where
  "umalloc sbrk want h =
     (if want = 0 then Some (0, h)
      else
        let want = (want + 7) AND NOT 7 in
        case fit_loop want (u_head h) (uram h) of None \<Rightarrow> None
        | Some (Some (p, m)) \<Rightarrow> Some (p, h\<lparr>uram := m\<rparr>)
        | Some None \<Rightarrow>
            (case sbrk (U_HDR + want) (os h) of None \<Rightarrow> None
             | Some (b, s) \<Rightarrow>
                 if b = - 1 then Some (0, h\<lparr>os := s\<rparr>)
                 else
                   let m = store32 (uram h) b want;
                       m = store32 m (b + 4) 0;
                       m = store32 m (b + 8) 0
                   in if u_head h = 0 then Some (b + U_HDR, h\<lparr>uram := m, u_head := b, os := s\<rparr>)
                      else case last_loop (u_head h) m of None \<Rightarrow> None
                      | Some t \<Rightarrow> Some (b + U_HDR, h\<lparr>uram := store32 m (t + 8) b, os := s\<rparr>)))"

definition ufree :: "u32 \<Rightarrow> 's uheap \<Rightarrow> 's uheap option" where
  "ufree p h =
     (if p = 0 then Some h
      else let b = p - U_HDR in u_coalesce (h\<lparr>uram := store32 (uram h) (b + 4) 1\<rparr>))"

section \<open>Searching and merging\<close>

lemma umalloc_take_block: "umalloc_take = take_block U_HDR 8"
  by (simp add: fun_eq_iff umalloc_take_def take_block_def)

interpretation uh: free_list 16 U_HDR 8 8 fit_loop "\<lambda>p m. Some (p, m)" "\<lambda>_. None"
proof unfold_locales
  show "fit_loop sz 0 m = Some None" for sz m
    by (simp add: fit_loop.simps)
  show "fit_loop sz cur m =
      (if block_free m cur \<noteq> 0 \<and> sz \<le> block_size m cur then Some (Some (cur + U_HDR, take_block U_HDR 8 sz cur m))
       else fit_loop sz (block_next m cur) m)" if "cur \<noteq> 0" for sz cur m
    using that by (subst fit_loop.simps) (simp add: umalloc_take_block)
qed (simp_all add: U_HDR_def)

fun merge :: "(nat \<times> bool) list \<Rightarrow> (nat \<times> bool) list" where
  "merge ((n, f) # (k, g) # bs) = (if f \<and> g then merge ((n + 16 + k, True) # bs) else (n, f) # merge ((k, g) # bs))"
| "merge bs = bs"

text \<open>The contents of the payloads in \<open>U\<close> are the same in both memories.\<close>

definition same_in :: "(nat \<times> nat) set \<Rightarrow> mem \<Rightarrow> mem \<Rightarrow> bool" where
  "same_in U m m' \<longleftrightarrow> (\<forall>(c, l) \<in> U. \<forall>x. c \<le> unat x \<and> unat x < c + l \<longrightarrow> m' x = m x)"

lemma same_in_trans: "same_in U m m' \<Longrightarrow> same_in U m' m'' \<Longrightarrow> same_in U m m''"
  by (fastforce simp: same_in_def)

lemma same_in_mono: "same_in U m m' \<Longrightarrow> V \<subseteq> U \<Longrightarrow> same_in V m m'"
  by (auto simp: same_in_def)

text \<open>A change inside a header touches no payload.\<close>

lemma same_in_header:
  "blocks 16 m p a e bs \<Longrightarrow> \<forall>x. unat x < a \<or> a + 16 \<le> unat x \<longrightarrow> m' x = m x \<Longrightarrow> same_in (in_use 16 a bs) m m'"
  using uh.in_use_range by (fastforce simp: same_in_def)

definition absorb :: "u32 \<Rightarrow> mem \<Rightarrow> mem" where
  "absorb b m =
     (let m = store32 m b (block_size m b + (U_HDR + block_size m (block_next m b)))
      in store32 m (b + 8) (block_next m (block_next m b)))"

lemma coalesce_end: "b = 0 \<or> block_next m b = 0 \<Longrightarrow> coalesce_loop b m = Some m"
  by (subst coalesce_loop.simps) auto

lemma coalesce_step:
  "b \<noteq> 0 \<Longrightarrow> block_next m b \<noteq> 0 \<Longrightarrow> coalesce_loop b m =
     (if block_free m b \<noteq> 0 \<and> block_free m (block_next m b) \<noteq> 0 then coalesce_loop b (absorb b m)
      else coalesce_loop (block_next m b) m)"
  by (subst coalesce_loop.simps) (simp add: absorb_def Let_def)

lemma absorb_blocks:
  assumes b: "blocks 16 m p a e ((n, True) # (k, True) # bs)" and e: "e \<le> 0x400000"
  shows "blocks 16 (absorb p m) p a e ((n + 16 + k, True) # bs)" "\<forall>x. unat x < a \<or> a + 16 \<le> unat x \<longrightarrow> absorb p m x = m x"
    "coalesce_loop p m = coalesce_loop p (absorb p m)"
proof -
  note mg = uh.merge_next [OF b e]
  have p: "4 dvd unat p" "unat p + 12 \<le> 4294967296" "p \<noteq> 0"
    using b e by auto
  have "absorb p m = store32 (store32 m p (block_size m p + (U_HDR + block_size m (block_next m p)))) (p + 8)
      (block_next (store32 m p (block_size m p + (U_HDR + block_size m (block_next m p)))) (block_next m p))"
    using header_words [OF p(1,2)] by (simp add: absorb_def Let_def block_next_def load_store_aligned)
  then show "blocks 16 (absorb p m) p a e ((n + 16 + k, True) # bs)" "\<forall>x. unat x < a \<or> a + 16 \<le> unat x \<longrightarrow> absorb p m x = m x"
    using mg(1,2) by simp_all
  show "coalesce_loop p m = coalesce_loop p (absorb p m)"
    using mg(3-5) p(3) by (simp add: coalesce_step)
qed

lemma coalesce_loop_merge:
  assumes "blocks 16 m p a e bs" "e \<le> 0x400000"
  shows "\<exists>m'. coalesce_loop p m = Some m' \<and> blocks 16 m' p a e (merge bs) \<and> same_in (in_use 16 a bs) m m' \<and>
    (\<forall>x. unat x < a \<longrightarrow> m' x = m x)"
  using assms
proof (induction bs arbitrary: m p a rule: merge.induct)
  case (1 n f k g bs)
  show ?case
  proof (cases "f \<and> g")
    case True
    then have fg: "f = True" "g = True"
      by simp_all
    note ab = absorb_blocks [OF "1.prems" [unfolded fg]]
    obtain m' where m': "coalesce_loop p (absorb p m) = Some m'" "blocks 16 m' p a e (merge ((n + 16 + k, True) # bs))"
        "same_in (in_use 16 a ((n + 16 + k, True) # bs)) (absorb p m) m'" "\<forall>x. unat x < a \<longrightarrow> m' x = absorb p m x"
      using "1.IH"(1) [OF True ab(1) "1.prems"(2)] by blast
    have "in_use 16 a ((n + 16 + k, True) # bs) = in_use 16 a ((n, f) # (k, g) # bs)"
      by (simp add: fg add_ac)
    then have "same_in (in_use 16 a ((n, f) # (k, g) # bs)) m m'"
      using same_in_trans [OF same_in_header [OF "1.prems"(1) ab(2)]] m'(3) by simp
    then show ?thesis
      using m' ab(2,3) by (auto simp: fg)
  next
    case False
    have p: "p \<noteq> 0" "block_next m p \<noteq> 0" "block_free m p = of_bool f" "block_free m (block_next m p) = of_bool g"
        "unat (block_next m p) = a + 16 + n"
      using "1.prems"(1) by auto
    have tl: "blocks 16 m (block_next m p) (a + 16 + n) e ((k, g) # bs)"
      using "1.prems"(1) by simp
    obtain m' where m': "coalesce_loop (block_next m p) m = Some m'" "blocks 16 m' (block_next m p) (a + 16 + n) e (merge ((k, g) # bs))"
        "same_in (in_use 16 (a + 16 + n) ((k, g) # bs)) m m'" "\<forall>x. unat x < a + 16 + n \<longrightarrow> m' x = m x"
      using "1.IH"(2) [OF False tl "1.prems"(2)] by blast
    have "coalesce_loop p m = Some m'"
      using m'(1) p False by (auto simp: coalesce_step)
    moreover have "blocks 16 m' p a e ((n, f) # merge ((k, g) # bs))"
      using m'(2,4) "1.prems"(2) by (intro uh.blocks_head [OF "1.prems"(1)]) simp_all
    moreover have "same_in (in_use 16 a ((n, f) # (k, g) # bs)) m m'"
      using m'(3,4) by (auto simp: same_in_def)
    ultimately show ?thesis
      using m'(4) False by auto
  qed
qed (auto simp: coalesce_end same_in_def)

lemma merge_in_use: "in_use 16 a (merge bs) = in_use 16 a bs"
  by (induction bs arbitrary: a rule: merge.induct) (auto simp: add_ac)

lemma merge_head_free: "head_free (merge ((n, f) # bs)) = f"
  by (induction "(n, f) # bs" arbitrary: n f bs rule: merge.induct) auto

lemma merge_coalesced: "coalesced (merge bs)"
  by (induction bs rule: merge.induct) (auto simp: merge_head_free)

lemma merge_sizes: "\<forall>(n, f) \<in> set bs. 8 dvd n \<Longrightarrow> \<forall>(n, f) \<in> set (merge bs). 8 dvd n"
  by (induction bs rule: merge.induct) auto

section \<open>Releasing and growing\<close>

fun mark_free :: "nat \<Rightarrow> nat \<Rightarrow> (nat \<times> bool) list \<Rightarrow> (nat \<times> bool) list" where
  "mark_free q a [] = []"
| "mark_free q a ((n, f) # bs) = (if q = a + 16 then (n, True) # bs else (n, f) # mark_free q (a + 16 + n) bs)"

lemma mark_free_blocks:
  assumes "blocks 16 m p a e bs" "(unat q, n) \<in> in_use 16 a bs" "e \<le> 0x400000"
  shows "blocks 16 (store32 m (q - U_HDR + 4) 1) p a e (mark_free (unat q) a bs) \<and>
    (\<forall>x. unat x < unat q - 16 \<or> unat q \<le> unat x \<longrightarrow> store32 m (q - U_HDR + 4) 1 x = m x)"
  using assms
proof (induction m p a e bs rule: uh.blocks_induct)
  case (Cons m p a e k f bs)
  have tl: "blocks 16 m (block_next m p) (a + 16 + k) e bs"
    using Cons(2) by simp
  show ?case
  proof (cases "unat q = a + 16")
    case True
    have "unat (q - U_HDR) = a"
      using True by (simp add: U_HDR_def unat_sub_no_wrap word_le_nat_alt)
    then have "q - U_HDR = p"
      using Cons(2) by (simp add: word_unat_eq_iff)
    then show ?thesis
      using uh.set_flag [OF Cons(2), of True] Cons(4) True by simp
  next
    case False
    then have u: "(unat q, n) \<in> in_use 16 (a + 16 + k) bs"
      using Cons(3) by (auto split: if_splits)
    note ih = Cons(1) [OF tl u Cons(4)]
    have "a + 16 + k + 16 \<le> unat q"
      using uh.in_use_range [OF tl u] by simp
    then have "blocks 16 (store32 m (q - U_HDR + 4) 1) p a e ((k, f) # mark_free (unat q) (a + 16 + k) bs)"
      using ih Cons(4) by (intro uh.blocks_head [OF Cons(2)]) auto
    then show ?thesis
      using ih False by simp
  qed
qed simp

lemma mark_free_in_use:
  assumes "blocks 16 m p a e bs" "(q, n) \<in> in_use 16 a bs"
  shows "in_use 16 a (mark_free q a bs) = in_use 16 a bs - {(q, n)}"
  using assms
proof (induction m p a e bs rule: uh.blocks_induct)
  case (Cons m p a e k f bs)
  have tl: "blocks 16 m (block_next m p) (a + 16 + k) e bs"
    using Cons(2) by simp
  have far: "a + 16 + k + 16 \<le> b" if "(b, l) \<in> in_use 16 (a + 16 + k) bs" for b l
    using uh.in_use_range [OF tl that] by simp
  show ?case
  proof (cases "q = a + 16")
    case True
    then have "\<not> f" "n = k" "(q, n) \<notin> in_use 16 (a + 16 + k) bs"
      using Cons(3) far [of q n] by (auto split: if_splits)
    then show ?thesis
      using True by auto
  next
    case False
    then have "(q, n) \<in> in_use 16 (a + 16 + k) bs"
      using Cons(3) by (auto split: if_splits)
    then show ?thesis
      using Cons(1) [OF tl] False by auto
  qed
qed simp

lemma mark_free_sizes: "\<forall>(n, f) \<in> set bs. 8 dvd n \<Longrightarrow> \<forall>(n, f) \<in> set (mark_free q a bs). 8 dvd n"
  by (induction q a bs rule: mark_free.induct) auto

text \<open>A block behind the end of the heap becomes the last one.\<close>

definition new_block :: "u32 \<Rightarrow> u32 \<Rightarrow> mem \<Rightarrow> mem" where
  "new_block b want m = (let m = store32 m b want; m = store32 m (b + 4) 0 in store32 m (b + 8) 0)"

lemma new_block_fields:
  assumes "4 dvd unat b" "unat b + 16 \<le> 0x400000"
  shows "block_size (new_block b want m) b = want" "block_free (new_block b want m) b = 0" "block_next (new_block b want m) b = 0"
    "\<forall>x. unat x < unat b \<or> unat b + 16 \<le> unat x \<longrightarrow> new_block b want m x = m x"
proof -
  have le: "unat b + 12 \<le> 4294967296"
    using assms(2) by simp
  note w = header_words [OF assms(1) le]
  show "block_size (new_block b want m) b = want" "block_free (new_block b want m) b = 0" "block_next (new_block b want m) b = 0"
    by (simp_all add: new_block_def Let_def block_size_def block_free_def block_next_def load_store_aligned w)
  show "\<forall>x. unat x < unat b \<or> unat b + 16 \<le> unat x \<longrightarrow> new_block b want m x = m x"
    using w assms(2) by (auto simp: new_block_def Let_def store32_far)
qed

lemma last_loop_append:
  assumes "blocks 16 m p a e bs" "bs \<noteq> []" "e + 16 + k \<le> 0x400000" "unat b = e" "4 dvd k" "unat (block_size m b) = k"
    "block_free m b = 0" "block_next m b = 0"
  shows "\<exists>t. last_loop p m = Some t \<and> a \<le> unat t \<and> unat t + 16 \<le> e \<and> blocks 16 (store32 m (t + 8) b) p a (e + 16 + k) (bs @ [(k, False)]) \<and>
    same_in (in_use 16 a bs) m (store32 m (t + 8) b)"
  using assms
proof (induction m p a e bs rule: uh.blocks_induct)
  case (Cons m p a e n f bs)
  note bl = Cons(2)
  have tl: "blocks 16 m (block_next m p) (a + 16 + n) e bs"
    using bl by simp
  have le: "a + 16 + n \<le> e"
    using bl by simp
  have p: "4 dvd unat p" "unat p + 12 \<le> 4294967296" "unat p = a" "unat (block_size m p) = n" "block_free m p = of_bool f"
      "4 dvd n" "a \<noteq> 0"
    using bl Cons(4) by auto
  note w = header_words [OF p(1,2)]
  show ?case
  proof (cases "bs = []")
    case True
    then have nx: "block_next m p = 0" "e = a + 16 + n"
      using tl by simp_all
    let ?m = "store32 m (p + 8) b"
    have far: "\<forall>x. unat x < a \<or> a + 16 \<le> unat x \<longrightarrow> ?m x = m x"
      using w p(2,3) by (auto simp: store32_far)
    have "block_size ?m p = block_size m p" "block_free ?m p = block_free m p" "block_next ?m p = b"
      by (simp_all add: block_size_def block_free_def block_next_def load_store_aligned w)
    moreover have "block_size ?m b = block_size m b \<and> block_free ?m b = block_free m b \<and> block_next ?m b = block_next m b"
      by (rule fields_cong) (use far Cons(4,5) nx(2) in auto)
    ultimately have "blocks 16 ?m p a (e + 16 + k) [(n, f), (k, False)]"
      using p nx(2) Cons(4-9) by auto
    moreover have "last_loop p m = Some p"
      using nx(1) by (simp add: last_loop.simps)
    ultimately show ?thesis
      using same_in_header [OF bl far] p(3) True by auto
  next
    case False
    then obtain t where t: "last_loop (block_next m p) m = Some t" "a + 16 + n \<le> unat t" "unat t + 16 \<le> e"
        "blocks 16 (store32 m (t + 8) b) (block_next m p) (a + 16 + n) (e + 16 + k) (bs @ [(k, False)])"
        "same_in (in_use 16 (a + 16 + n) bs) m (store32 m (t + 8) b)"
      using Cons(1) [OF tl] Cons(4-9) by auto
    have "block_next m p \<noteq> 0"
      using tl False by (cases bs) auto
    then have "last_loop p m = Some t"
      using t(1) by (subst last_loop.simps) simp
    moreover have "unat (t + 8) = unat t + 8"
      using t(3) Cons(4) by (intro unat_plus_num) simp
    then have far: "\<forall>x. unat x < a + 16 + n \<longrightarrow> store32 m (t + 8) b x = m x"
      using t(2,3) Cons(4) by (auto simp: store32_far)
    moreover have "blocks 16 (store32 m (t + 8) b) p a (e + 16 + k) ((n, f) # bs @ [(k, False)])"
      using far t(4) Cons(4) by (intro uh.blocks_head [OF bl]) simp_all
    moreover have "same_in (in_use 16 a ((n, f) # bs)) m (store32 m (t + 8) b)"
      using t(5) far by (auto simp: same_in_def)
    ultimately show ?thesis
      using t(2,3) by auto
  qed
qed simp

section \<open>Well-formed heaps\<close>

text \<open>
  \<open>uheap_ok brk base h bs\<close>: the heap from \<open>base\<close> to the break consists of the blocks \<open>bs\<close>, every
  payload is 8-byte aligned, and no two free blocks are neighbours.
\<close>

definition uheap_ok :: "('s \<Rightarrow> nat) \<Rightarrow> nat \<Rightarrow> 's uheap \<Rightarrow> (nat \<times> bool) list \<Rightarrow> bool" where
  "uheap_ok brk base h bs \<longleftrightarrow> blocks 16 (uram h) (u_head h) base (brk (os h)) bs \<and> coalesced bs \<and>
     8 dvd base \<and> (\<forall>(n, f) \<in> set bs. 8 dvd n)"

lemma blocks_aligned:
  "blocks 16 m p a e bs \<Longrightarrow> 8 dvd a \<Longrightarrow> \<forall>(n, f) \<in> set bs. 8 dvd n \<Longrightarrow> 8 dvd e \<and> (\<forall>(c, l) \<in> in_use 16 a bs. 8 dvd c)"
proof (induction m p a e bs rule: uh.blocks_induct)
  case (Cons m p a e n f bs)
  have "8 dvd a + 16 + n"
    using Cons(3,4) by (intro dvd_add) auto
  then show ?case
    using Cons by auto
qed simp

lemma first_fit_keeps:
  "first_fit 16 8 sz a bs = Some (q, bs') \<Longrightarrow> coalesced bs \<Longrightarrow> \<forall>(n, f) \<in> set bs. 8 dvd n \<Longrightarrow> 8 dvd sz \<Longrightarrow>
   coalesced bs' \<and> (head_free bs' \<longrightarrow> head_free bs) \<and> (\<forall>(n, f) \<in> set bs'. 8 dvd n)"
proof (induction bs arbitrary: a bs')
  case (Cons nf bs)
  obtain n f where nf: "nf = (n, f)"
    by (cases nf)
  show ?case
  proof (cases "f \<and> sz \<le> n")
    case True
    then show ?thesis
      using Cons(2-5) by (auto simp: nf dvd_diff_nat split: if_splits)
  next
    case False
    then obtain bs2 where b2: "first_fit 16 8 sz (a + 16 + n) bs = Some (q, bs2)" "bs' = (n, f) # bs2"
      using Cons(2) by (auto simp: nf)
    then show ?thesis
      using Cons(1) [OF b2(1)] Cons(3-5) by (auto simp: nf)
  qed
qed simp

lemma coalesced_append: "coalesced bs \<Longrightarrow> coalesced (bs @ [(k, False)])"
proof (induction bs rule: coalesced.induct)
  case (2 n f bs)
  then show ?case
    by (cases bs) auto
qed simp

lemma in_use_append: "blocks 16 m p a e bs \<Longrightarrow> in_use 16 a (bs @ [(k, False)]) = insert (e + 16, k) (in_use 16 a bs)"
  by (induction m p a e bs rule: uh.blocks_induct) auto

lemma round_up_8:
  assumes "unat n \<le> 0xFFFFFFE8"
  shows "unat ((n + 7 :: u32) AND NOT 7) = 8 * ((unat n + 7) div 8)"
proof -
  have "(7 :: u32) = mask 3"
    by (simp add: mask_eq_exp_minus_1)
  then have "unat ((n + 7) AND NOT 7) = 8 * (unat (n + 7) div 8)"
    using and_not_mask_unat [of "n + 7" 3] by simp
  also have "unat (n + 7) = unat n + 7"
    using assms by (simp add: unat_add_u32)
  finally show ?thesis .
qed

text \<open>What the allocator relies on: a break that only moves up, by what was asked for, and not past a limit.\<close>

locale sbrk_service =
  fixes sbrk :: "u32 \<Rightarrow> 's \<Rightarrow> (u32 \<times> 's) option" and brk :: "'s \<Rightarrow> nat" and up :: "'s \<Rightarrow> bool" and limit :: nat
  assumes limit: "limit \<le> 0x400000"
    and brk_range: "up s \<Longrightarrow> 0 < brk s \<and> brk s \<le> limit"
    and granted: "up s \<Longrightarrow> n \<noteq> 0 \<Longrightarrow> brk s + unat n \<le> limit \<Longrightarrow>
      \<exists>b s'. sbrk n s = Some (b, s') \<and> unat b = brk s \<and> brk s' = brk s + unat n \<and> up s'"
    and refused: "up s \<Longrightarrow> limit < brk s + unat n \<Longrightarrow> sbrk n s = Some (- 1, s)"
begin

text \<open>What \<open>umalloc\<close> does to the list of blocks.\<close>

lemma umalloc_fits:
  assumes ok: "uheap_ok brk base h bs" "up (os h)" and want: "want \<noteq> 0" "unat want \<le> 0xFFFFFFE8"
    and ff: "first_fit 16 8 (8 * ((unat want + 7) div 8)) base bs = Some (q, bs')"
  shows "\<exists>p m'. umalloc sbrk want h = Some (p, h\<lparr>uram := m'\<rparr>) \<and> unat p = q \<and> uheap_ok brk base (h\<lparr>uram := m'\<rparr>) bs' \<and>
    same_in (in_use 16 base bs) (uram h) m'"
proof -
  let ?w = "(want + 7) AND NOT 7"
  have w: "unat ?w = 8 * ((unat want + 7) div 8)" "4 dvd unat ?w" "8 dvd unat ?w"
    using round_up_8 [OF want(2)] by simp_all
  have b: "blocks 16 (uram h) (u_head h) base (brk (os h)) bs" and e: "brk (os h) \<le> 0x400000"
    using ok limit brk_range [OF ok(2)] by (simp_all add: uheap_ok_def)
  obtain p m' where p: "fit_loop ?w (u_head h) (uram h) = Some (Some (p, m'))" "unat p = q"
      "blocks 16 m' (u_head h) base (brk (os h)) bs'"
      "\<forall>x. unat x < fst (chosen 16 (unat ?w) base bs) \<or> fst (chosen 16 (unat ?w) base bs) + 16 + snd (chosen 16 (unat ?w) base bs) \<le> unat x
         \<longrightarrow> m' x = uram h x"
    using uh.search_first_fit [OF b e w(2)] ff unfolding w(1) by (simp only: option.case prod.case) blast
  have "same_in (in_use 16 base bs) (uram h) m'"
    using uh.first_fit_Some [OF b ff] p(4) unfolding w(1) by (fastforce simp: same_in_def)
  moreover have "uheap_ok brk base (h\<lparr>uram := m'\<rparr>) bs'"
    using ok(1) p(3) first_fit_keeps [OF ff] by (simp add: uheap_ok_def)
  moreover have "umalloc sbrk want h = Some (p, h\<lparr>uram := m'\<rparr>)"
    using p(1) want(1) by (simp add: umalloc_def)
  ultimately show ?thesis
    using p(2) by blast
qed

lemma umalloc_grows:
  assumes ok: "uheap_ok brk base h bs" "up (os h)" and want: "want \<noteq> 0" "unat want \<le> 0xFFFFFFE8"
    and ff: "first_fit 16 8 (8 * ((unat want + 7) div 8)) base bs = None"
    and room: "brk (os h) + 16 + 8 * ((unat want + 7) div 8) \<le> limit"
  shows "\<exists>p h'. umalloc sbrk want h = Some (p, h') \<and> unat p = brk (os h) + 16 \<and> up (os h') \<and>
    uheap_ok brk base h' (bs @ [(8 * ((unat want + 7) div 8), False)]) \<and> same_in (in_use 16 base bs) (uram h) (uram h')"
proof -
  let ?w = "(want + 7) AND NOT 7" and ?sz = "8 * ((unat want + 7) div 8)"
  have w: "unat ?w = ?sz" "4 dvd unat ?w" "8 dvd unat ?w"
    using round_up_8 [OF want(2)] by simp_all
  have b: "blocks 16 (uram h) (u_head h) base (brk (os h)) bs" and e: "brk (os h) \<le> 0x400000"
    using ok limit brk_range [OF ok(2)] by (simp_all add: uheap_ok_def)
  have srch: "fit_loop ?w (u_head h) (uram h) = Some None"
    using uh.search_first_fit [OF b e w(2)] ff unfolding w(1) by simp
  have hw: "unat (U_HDR + ?w) = 16 + ?sz"
    using want(2) w(1) by (simp add: U_HDR_def unat_add_u32)
  obtain c s where c: "sbrk (U_HDR + ?w) (os h) = Some (c, s)" "unat c = brk (os h)" "brk s = brk (os h) + 16 + ?sz" "up s"
  proof -
    have "U_HDR + ?w \<noteq> 0"
      using hw by (metis add_is_0 unat_0 zero_neq_numeral)
    then show ?thesis
      using that granted [OF ok(2), of "U_HDR + ?w"] room hw by (auto simp: add.assoc)
  qed
  have "unat (- 1 :: u32) = 4294967295"
    by (simp add: unsigned_minus_1_eq_mask mask_eq_exp_minus_1)
  then have c1: "c \<noteq> - 1" "4 dvd unat c" "unat c + 16 \<le> 0x400000"
    using c(2,3) brk_range [OF c(4)] limit blocks_aligned [OF b] ok(1)
    by (auto simp: uheap_ok_def dest: dvd_trans [of 4 8, rotated])
  let ?m = "new_block c ?w (uram h)"
  note nb = new_block_fields [OF c1(2,3), of ?w "uram h"]
  have b': "blocks 16 ?m (u_head h) base (brk (os h)) bs"
    by (rule uh.blocks_cong [OF b]) (use nb(4) c(2) e in auto)
  have same: "same_in (in_use 16 base bs) (uram h) ?m"
    using uh.in_use_range [OF b] nb(4) c(2) by (fastforce simp: same_in_def)
  have um: "umalloc sbrk want h =
      (if u_head h = 0 then Some (c + U_HDR, h\<lparr>uram := ?m, u_head := c, os := s\<rparr>)
       else case last_loop (u_head h) ?m of None \<Rightarrow> None
       | Some t \<Rightarrow> Some (c + U_HDR, h\<lparr>uram := store32 ?m (t + 8) c, os := s\<rparr>))"
    using srch c(1) c1(1) want(1) by (simp add: umalloc_def new_block_def Let_def cong: option.case_cong)
  have p: "unat (c + U_HDR) = brk (os h) + 16"
    using c1(3) c(2) by (simp add: U_HDR_def unat_add_u32)
  have sizes: "coalesced (bs @ [(?sz, False)])" "8 dvd base" "\<forall>(n, f) \<in> set (bs @ [(?sz, False)]). 8 dvd n"
    using ok(1) coalesced_append [of bs] by (auto simp: uheap_ok_def)
  show ?thesis
  proof (cases "bs = []")
    case True
    then have z: "u_head h = 0" "base = brk (os h)"
      using b by simp_all
    then have "blocks 16 ?m c base (brk s) [(?sz, False)]"
      using nb(1-3) w c(2,3) c1(2) brk_range [OF ok(2)] by simp
    then show ?thesis
      using um p same sizes c(4) True z(1) by (auto simp: uheap_ok_def)
  next
    case False
    then have "u_head h \<noteq> 0"
      using b by (cases bs) auto
    moreover have "brk (os h) + 16 + ?sz \<le> 0x400000"
      using room limit by simp
    then obtain t where t: "last_loop (u_head h) ?m = Some t"
        "blocks 16 (store32 ?m (t + 8) c) (u_head h) base (brk (os h) + 16 + ?sz) (bs @ [(?sz, False)])"
        "same_in (in_use 16 base bs) ?m (store32 ?m (t + 8) c)"
      using last_loop_append [OF b' False _ c(2), of ?sz] nb(1-3) w(1) by auto
    ultimately show ?thesis
      using um p sizes c(3,4) same_in_trans [OF same] by (auto simp: uheap_ok_def)
  qed
qed

lemma umalloc_refused:
  assumes ok: "uheap_ok brk base h bs" "up (os h)" and want: "want \<noteq> 0" "unat want \<le> 0xFFFFFFE8"
    and ff: "first_fit 16 8 (8 * ((unat want + 7) div 8)) base bs = None"
    and room: "limit < brk (os h) + 16 + 8 * ((unat want + 7) div 8)"
  shows "umalloc sbrk want h = Some (0, h)"
proof -
  let ?w = "(want + 7) AND NOT 7"
  have w: "unat ?w = 8 * ((unat want + 7) div 8)" "4 dvd unat ?w"
    using round_up_8 [OF want(2)] by simp_all
  have b: "blocks 16 (uram h) (u_head h) base (brk (os h)) bs" and e: "brk (os h) \<le> 0x400000"
    using ok limit brk_range [OF ok(2)] by (simp_all add: uheap_ok_def)
  have "fit_loop ?w (u_head h) (uram h) = Some None"
    using uh.search_first_fit [OF b e w(2)] ff unfolding w(1) by simp
  moreover have "unat (U_HDR + ?w) = 16 + 8 * ((unat want + 7) div 8)"
    using want(2) w(1) by (simp add: U_HDR_def unat_add_u32)
  ultimately show ?thesis
    using refused [OF ok(2), of "U_HDR + ?w"] room want(1) by (simp add: umalloc_def)
qed

text \<open>The contract of \<open>umalloc\<close>.\<close>

lemma umalloc_ok:
  assumes ok: "uheap_ok brk base h bs" "up (os h)" and want: "unat want \<le> 0xFFFFFFE8"
  shows "\<exists>p h'. umalloc sbrk want h = Some (p, h') \<and>
    (if p = 0 then h' = h \<and> (want = 0 \<or> (\<forall>k. (k, True) \<in> set bs \<longrightarrow> k < unat want) \<and> limit < brk (os h) + 16 + 8 * ((unat want + 7) div 8))
     else \<exists>bs' k. uheap_ok brk base h' bs' \<and> up (os h') \<and> in_use 16 base bs' = insert (unat p, k) (in_use 16 base bs) \<and> unat want \<le> k \<and>
       8 dvd unat p \<and> base \<le> unat p \<and> unat p + k \<le> limit \<and>
       (\<forall>(c, l) \<in> in_use 16 base bs. c + l \<le> unat p \<or> unat p + k \<le> c) \<and> same_in (in_use 16 base bs) (uram h) (uram h'))"
proof (cases "want = 0")
  case False
  let ?sz = "8 * ((unat want + 7) div 8)"
  have sz: "unat want \<le> ?sz"
    by simp
  have b: "blocks 16 (uram h) (u_head h) base (brk (os h)) bs"
    using ok by (simp add: uheap_ok_def)
  have al: "8 dvd q" if "uheap_ok brk base h' bs'" "(q, k) \<in> in_use 16 base bs'" for h' bs' q k
    using blocks_aligned [of "uram h'" "u_head h'" base _ bs'] that by (auto simp: uheap_ok_def)
  show ?thesis
  proof (cases "first_fit 16 8 ?sz base bs")
    case None
    show ?thesis
    proof (cases "brk (os h) + 16 + ?sz \<le> limit")
      case True
      then obtain p h' where p: "umalloc sbrk want h = Some (p, h')" "unat p = brk (os h) + 16" "up (os h')"
          "uheap_ok brk base h' (bs @ [(?sz, False)])" "same_in (in_use 16 base bs) (uram h) (uram h')"
        using umalloc_grows [OF ok False want None] by blast
      have used: "in_use 16 base (bs @ [(?sz, False)]) = insert (unat p, ?sz) (in_use 16 base bs)"
        using in_use_append [OF b] p(2) by simp
      have "\<forall>(c, l) \<in> in_use 16 base bs. c + l \<le> unat p"
        using uh.in_use_range [OF b] p(2) by fastforce
      then have "uheap_ok brk base h' (bs @ [(?sz, False)]) \<and> up (os h') \<and>
          in_use 16 base (bs @ [(?sz, False)]) = insert (unat p, ?sz) (in_use 16 base bs) \<and> unat want \<le> ?sz \<and>
          8 dvd unat p \<and> base \<le> unat p \<and> unat p + ?sz \<le> limit \<and>
          (\<forall>(c, l) \<in> in_use 16 base bs. c + l \<le> unat p \<or> unat p + ?sz \<le> c) \<and> same_in (in_use 16 base bs) (uram h) (uram h')"
        using p al [OF p(4), of "unat p" ?sz] used True uh.blocks_le [OF b] by auto
      moreover have "p \<noteq> 0"
        using p(2) by auto
      ultimately show ?thesis
        using p(1) by (intro exI [of _ p] exI [of _ h']) auto
    next
      case no: False
      have "k < unat want" if "(k, True) \<in> set bs" for k
        using first_fit_None [OF None that] ok(1) that by (auto simp: uheap_ok_def elim!: dvdE)
      then show ?thesis
        using umalloc_refused [OF ok False want None] no by auto
    qed
  next
    case (Some qb)
    then obtain q bs' where q: "first_fit 16 8 ?sz base bs = Some (q, bs')"
      by (cases qb) simp
    obtain p m' where p: "umalloc sbrk want h = Some (p, h\<lparr>uram := m'\<rparr>)" "unat p = q" "uheap_ok brk base (h\<lparr>uram := m'\<rparr>) bs'"
        "same_in (in_use 16 base bs) (uram h) m'"
      using umalloc_fits [OF ok False want q] by blast
    note ff = uh.first_fit_Some [OF b q]
    obtain k where k: "?sz \<le> k" "k \<le> snd (chosen 16 ?sz base bs)" "in_use 16 base bs' = insert (q, k) (in_use 16 base bs)"
      using ff by auto
    have r: "q + k \<le> limit" "base \<le> q" "p \<noteq> 0" "\<forall>(c, l) \<in> in_use 16 base bs. c + l \<le> q \<or> q + k \<le> c"
      using ff k(2) brk_range [OF ok(2)] chosen_ge [of base 16 ?sz bs] p(2) by fastforce+
    moreover have "8 dvd q" "unat want \<le> k"
      using al [OF p(3), of q k] k sz by simp_all
    ultimately show ?thesis
      using p k(3) ok(2) by (intro exI [of _ p] exI [of _ "h\<lparr>uram := m'\<rparr>"]) (simp, blast)
  qed
qed (simp add: umalloc_def)

end

section \<open>The allocator on the kernel\<close>

lemma u_sbrk_eq: "u_sbrk dev r n s = Some (sys_sbrk n s)"
  by (simp add: u_sbrk_def syscall_handler_def returns_def)

text \<open>The running program has a slot in the process table and its break lies in the heap.\<close>

definition program_up :: "'d kernel \<Rightarrow> bool" where
  "program_up s \<longleftrightarrow> USER_HEAP_BASE \<le> heap_break s \<and> heap_break s \<le> USER_HEAP_END \<and>
     current_idx (procs_st s) < length (table (procs_st s))"

definition program_brk :: "'d kernel \<Rightarrow> nat" where
  "program_brk s = unat (heap_break s)"

interpretation us: sbrk_service "u_sbrk dev r" program_brk program_up "0x9F000" for dev :: "'d ports" and r :: registers
proof unfold_locales
  fix n :: u32 and s :: "'d kernel"
  assume up: "program_up s"
  have pre: "USER_HEAP_BASE \<le> heap_break s" "heap_break s \<le> USER_HEAP_END" "current_idx (procs_st s) < length (table (procs_st s))"
    using up by (simp_all add: program_up_def)
  show "0 < program_brk s \<and> program_brk s \<le> 0x9F000"
    using pre by (simp add: program_brk_def USER_HEAP_BASE_def USER_HEAP_END_def word_le_nat_alt)
  obtain a s' where s': "sys_sbrk n s = (a, s')"
    by fastforce
  note sb = sys_sbrk_ok [OF pre s']
  have slots: "current_idx (procs_st s') = current_idx (procs_st s)" "length (table (procs_st s')) = length (table (procs_st s))"
    using s' by (auto simp: sys_sbrk_def Let_def set_slot_def split: if_splits)
  show "\<exists>b s'. u_sbrk dev r n s = Some (b, s') \<and> unat b = program_brk s \<and> program_brk s' = program_brk s + unat n \<and> program_up s'"
    if "n \<noteq> 0" "program_brk s + unat n \<le> 0x9F000"
    using sb that slots pre(3) by (auto simp: u_sbrk_eq s' program_brk_def program_up_def USER_HEAP_END_def)
  show "u_sbrk dev r n s = Some (- 1, s)" if "0x9F000 < program_brk s + unat n"
    using sb that by (simp add: u_sbrk_eq s' program_brk_def USER_HEAP_END_def)
qed simp

lemma ufree_ok:
  assumes ok: "uheap_ok brk base h bs" and e: "brk (os h) \<le> 0x400000" and u: "(unat p, n) \<in> in_use 16 base bs"
  shows "\<exists>m' bs'. ufree p h = Some (h\<lparr>uram := m'\<rparr>) \<and> uheap_ok brk base (h\<lparr>uram := m'\<rparr>) bs' \<and>
    in_use 16 base bs' = in_use 16 base bs - {(unat p, n)} \<and> same_in (in_use 16 base bs') (uram h) m'"
proof -
  have b: "blocks 16 (uram h) (u_head h) base (brk (os h)) bs"
    using ok by (simp add: uheap_ok_def)
  let ?m = "store32 (uram h) (p - U_HDR + 4) 1" and ?bs = "mark_free (unat p) base bs"
  have mk: "blocks 16 ?m (u_head h) base (brk (os h)) ?bs" "\<forall>x. unat x < unat p - 16 \<or> unat p \<le> unat x \<longrightarrow> ?m x = uram h x"
    using mark_free_blocks [OF b u e] by simp_all
  obtain m' where m': "coalesce_loop (u_head h) ?m = Some m'" "blocks 16 m' (u_head h) base (brk (os h)) (merge ?bs)"
      "same_in (in_use 16 base ?bs) ?m m'"
    using coalesce_loop_merge [OF mk(1) e] by blast
  have used: "in_use 16 base (merge ?bs) = in_use 16 base bs - {(unat p, n)}" "in_use 16 base ?bs = in_use 16 base bs - {(unat p, n)}"
    using mark_free_in_use [OF b u] by (simp_all add: merge_in_use)
  have "same_in (in_use 16 base bs) (uram h) ?m"
    using uh.in_use_apart [OF b u] mk(2) by (fastforce simp: same_in_def)
  then have "same_in (in_use 16 base (merge ?bs)) (uram h) m'"
    using same_in_trans [OF same_in_mono [of _ "uram h" ?m] m'(3)] unfolding used by blast
  moreover have "p \<noteq> 0"
    using uh.in_use_range [OF b u] by auto
  then have "ufree p h = Some (h\<lparr>uram := m'\<rparr>)"
    using m'(1) by (simp add: ufree_def u_coalesce_def)
  moreover have "\<forall>(n, f) \<in> set (merge ?bs). 8 dvd n"
    using ok by (intro merge_sizes mark_free_sizes) (simp add: uheap_ok_def)
  then have "uheap_ok brk base (h\<lparr>uram := m'\<rparr>) (merge ?bs)"
    using ok m'(2) merge_coalesced [of ?bs] by (simp add: uheap_ok_def)
  ultimately show ?thesis
    using used(1) by blast
qed

text \<open>A program may write to its payloads.\<close>

lemma blocks_payload:
  assumes "blocks 16 m p a e bs" "(c, l) \<in> in_use 16 a bs" "e \<le> 4294967296" "\<forall>x. unat x < c \<or> c + l \<le> unat x \<longrightarrow> m' x = m x"
  shows "blocks 16 m' p a e bs"
  using assms
proof (induction m p a e bs rule: uh.blocks_induct)
  case (Cons m p a e n f bs)
  have tl: "blocks 16 m (block_next m p) (a + 16 + n) e bs" and p: "unat p = a" "a + 16 + n \<le> e"
    using Cons(2) by simp_all
  have "a + 16 \<le> c"
    using uh.in_use_range [OF Cons(2,3)] by simp
  then have hd: "block_size m' p = block_size m p \<and> block_free m' p = block_free m p \<and> block_next m' p = block_next m p"
    using Cons(4,5) p by (intro fields_cong) auto
  have "blocks 16 m' (block_next m p) (a + 16 + n) e bs"
  proof (cases "(c, l) \<in> in_use 16 (a + 16 + n) bs")
    case True
    then show ?thesis
      using Cons(1) [OF tl] Cons(4,5) by blast
  next
    case False
    then have "c = a + 16" "l = n"
      using Cons(3) by (auto split: if_splits)
    then show ?thesis
      using Cons(4,5) by (intro uh.blocks_cong [OF tl]) auto
  qed
  then show ?case
    using Cons(2) hd by simp
qed simp

lemma in_use_disjoint:
  "blocks 16 m p a e bs \<Longrightarrow> (b, k) \<in> in_use 16 a bs \<Longrightarrow> (c, l) \<in> in_use 16 a bs \<Longrightarrow>
   (b, k) = (c, l) \<or> b + k \<le> c \<or> c + l \<le> b"
proof (induction m p a e bs rule: uh.blocks_induct)
  case (Cons m p a e n f bs)
  have tl: "blocks 16 m (block_next m p) (a + 16 + n) e bs"
    using Cons(2) by simp
  show ?case
    using Cons(1) [OF tl] Cons(3,4) uh.in_use_range [OF tl] by (auto split: if_splits) fastforce+
qed simp

section \<open>Properties of the user heap\<close>

text \<open>
  C40: \<open>umalloc\<close> of at most \<open>0xFFFFFFE8\<close> bytes on the kernel's \<open>sbrk\<close>. It always returns. It returns 0, with nothing changed, only for a request of 0 bytes or
  when no free block is large enough and the heap cannot grow by a header and the request. Otherwise the block is 8-byte aligned, inside the user heap,
  at least as large as the request and disjoint from every block in use, and those keep their place, size and contents.
  (A larger request wraps around when the header is added, see \<open>umalloc_wraps\<close>.)
\<close>

theorem umalloc_correct:
  assumes "uheap_ok program_brk base h bs" "program_up (os h)" "unat want \<le> 0xFFFFFFE8"
  shows "\<exists>p h'. umalloc (u_sbrk dev r) want h = Some (p, h') \<and>
    (if p = 0 then h' = h \<and> (want = 0 \<or>
       (\<forall>k. (k, True) \<in> set bs \<longrightarrow> k < unat want) \<and> 0x9F000 < program_brk (os h) + 16 + 8 * ((unat want + 7) div 8))
     else \<exists>bs' k. uheap_ok program_brk base h' bs' \<and> program_up (os h') \<and>
       in_use 16 base bs' = insert (unat p, k) (in_use 16 base bs) \<and> unat want \<le> k \<and>
       8 dvd unat p \<and> base \<le> unat p \<and> unat p + k \<le> 0x9F000 \<and>
       (\<forall>(c, l) \<in> in_use 16 base bs. c + l \<le> unat p \<or> unat p + k \<le> c) \<and> same_in (in_use 16 base bs) (uram h) (uram h'))"
  using assms by (rule us.umalloc_ok)

text \<open>A program that has just been started.\<close>

definition fresh_heap :: "drive kernel uheap" where
  "fresh_heap = \<lparr>uram = \<lambda>_. 0, u_head = 0, os = booted_kernel\<rparr>"

lemma booted_up: "program_up booted_kernel" "heap_break booted_kernel = USER_HEAP_BASE"
  by (simp_all add: program_up_def heap_break_def booted_kernel_def proc_current_def slot_of_def procs_boot_def zero_proc_def MAX_PROCS_def
      USER_HEAP_BASE_def USER_HEAP_END_def)

lemma fresh_heap_ok: "uheap_ok program_brk 0x90000 fresh_heap []" "program_up (os fresh_heap)"
  using booted_up by (simp_all add: uheap_ok_def fresh_heap_def program_brk_def USER_HEAP_BASE_def)

theorem umalloc_correct_witness:
  "\<exists>p h'. umalloc (u_sbrk (ide 3) (user_call 0 0 0 0)) 100 fresh_heap = Some (p, h') \<and> p \<noteq> 0 \<and> 8 dvd unat p"
proof -
  have brk: "program_brk (os fresh_heap) = 0x90000"
    using booted_up by (simp add: fresh_heap_def program_brk_def USER_HEAP_BASE_def)
  obtain p h' where "umalloc (u_sbrk (ide 3) (user_call 0 0 0 0)) 100 fresh_heap = Some (p, h')"
    "if p = 0 then 0x9F000 < program_brk (os fresh_heap) + 16 + 8 * ((unat (100 :: u32) + 7) div 8) else 8 dvd unat p"
    using umalloc_correct [OF fresh_heap_ok, of 100 "ide 3" "user_call 0 0 0 0"] by (auto split: if_splits)
  then show ?thesis
    by (cases "p = 0") (simp_all add: brk)
qed

text \<open>
  What a program can do with its heap: allocate, free a block it holds, write to a block it holds.  The set holds its live blocks,
  as address and size requested.
\<close>

inductive u_reach :: "'d ports \<Rightarrow> registers \<Rightarrow> 'd kernel uheap \<Rightarrow> (u32 \<times> u32) set \<Rightarrow> bool" for dev r where
  start: "program_up (os h) \<Longrightarrow> heap_break (os h) = USER_HEAP_BASE \<Longrightarrow> u_head h = 0 \<Longrightarrow> u_reach dev r h {}"
| alloc: "u_reach dev r h L \<Longrightarrow> unat want \<le> 0xFFFFFFE8 \<Longrightarrow> umalloc (u_sbrk dev r) want h = Some (p, h') \<Longrightarrow>
    u_reach dev r h' (if p = 0 then L else insert (p, want) L)"
| free: "u_reach dev r h L \<Longrightarrow> (p, n) \<in> L \<Longrightarrow> ufree p h = Some h' \<Longrightarrow> u_reach dev r h' (L - {(p, n)})"
| poke: "u_reach dev r h L \<Longrightarrow> (p, n) \<in> L \<Longrightarrow> i < n \<Longrightarrow> u_reach dev r (h\<lparr>uram := (uram h)(p + i := b)\<rparr>) L"

definition live_ok :: "(nat \<times> bool) list \<Rightarrow> (u32 \<times> u32) set \<Rightarrow> bool" where
  "live_ok bs L \<longleftrightarrow> (\<forall>(p, n) \<in> L. n \<noteq> 0 \<and> (\<exists>k. unat n \<le> k \<and> (unat p, k) \<in> in_use 16 0x90000 bs)) \<and>
     (\<forall>(p, n) \<in> L. \<forall>(q, l) \<in> L. p = q \<longrightarrow> n = l)"

lemma program_brk_le: "program_up s \<Longrightarrow> program_brk s \<le> 0x9F000"
  by (simp add: program_up_def program_brk_def USER_HEAP_END_def word_le_nat_alt)

lemma live_free:
  assumes "live_ok bs L" "(p, n) \<in> L" "in_use 16 0x90000 bs' = in_use 16 0x90000 bs - {(unat p, k)}"
  shows "live_ok bs' (L - {(p, n)})"
proof -
  have ne: "unat q \<noteq> unat p" if "(q, l) \<in> L - {(p, n)}" for q l
    using that assms(1,2) by (fastforce simp: live_ok_def word_unat_eq_iff [symmetric])
  have "l \<noteq> 0 \<and> (\<exists>j. unat l \<le> j \<and> (unat q, j) \<in> in_use 16 0x90000 bs')" if "(q, l) \<in> L - {(p, n)}" for q l
    using that ne [OF that] assms(1,3) by (fastforce simp: live_ok_def)
  moreover have "\<forall>(p, n) \<in> L. \<forall>(q, l) \<in> L. p = q \<longrightarrow> n = l"
    using assms(1) unfolding live_ok_def by (rule conjunct2)
  ultimately show ?thesis
    unfolding live_ok_def by blast
qed

lemma live_new:
  assumes "live_ok bs L" "\<forall>(q, l) \<in> L. q \<noteq> p" "n \<noteq> 0" "unat n \<le> k" "in_use 16 0x90000 bs' = insert (unat p, k) (in_use 16 0x90000 bs)"
  shows "live_ok bs' (insert (p, n) L)"
proof -
  have "l \<noteq> 0 \<and> (\<exists>j. unat l \<le> j \<and> (unat q, j) \<in> in_use 16 0x90000 bs')" if "(q, l) \<in> insert (p, n) L" for q l
  proof (cases "(q, l) \<in> L")
    case True
    then show ?thesis
      using assms(1,5) by (auto simp: live_ok_def)
  next
    case False
    then show ?thesis
      using that assms(3-5) by auto
  qed
  moreover have "m = l" if "(q, m) \<in> insert (p, n) L" "(q, l) \<in> insert (p, n) L" for q m l
    using that assms(1,2) by (auto simp: live_ok_def)
  ultimately show ?thesis
    unfolding live_ok_def by blast
qed

lemma u_reach_ok: "u_reach dev r h L \<Longrightarrow> program_up (os h) \<and> (\<exists>bs. uheap_ok program_brk 0x90000 h bs \<and> live_ok bs L)"
proof (induction rule: u_reach.induct)
  case (start h)
  then have "uheap_ok program_brk 0x90000 h []"
    by (simp add: uheap_ok_def program_brk_def USER_HEAP_BASE_def)
  then show ?case
    using start(1) by (auto simp: live_ok_def)
next
  case (alloc h L want p h')
  then obtain bs where bs: "program_up (os h)" "uheap_ok program_brk 0x90000 h bs" "live_ok bs L"
    by blast
  show ?case
  proof (cases "p = 0")
    case True
    then show ?thesis
      using us.umalloc_ok [OF bs(2,1) alloc(2), of dev r] alloc(3) bs by auto
  next
    case False
    then obtain bs' k where u: "uheap_ok program_brk 0x90000 h' bs'" "program_up (os h')" "unat want \<le> k"
        "in_use 16 0x90000 bs' = insert (unat p, k) (in_use 16 0x90000 bs)"
        "\<forall>(c, l) \<in> in_use 16 0x90000 bs. c + l \<le> unat p \<or> unat p + k \<le> c"
      using us.umalloc_ok [OF bs(2,1) alloc(2), of dev r] alloc(3) by auto
    have w: "want \<noteq> 0"
      using alloc(3) False by (auto simp: umalloc_def)
    have new: "q \<noteq> p" if ql: "(q, l) \<in> L" for q l
    proof
      assume "q = p"
      then obtain j where "l \<noteq> 0" "unat l \<le> j" "(unat p, j) \<in> in_use 16 0x90000 bs"
        using ql bs(3) by (auto simp: live_ok_def)
      then show False
        using u(3,5) w by (fastforce simp: word_unat_eq_iff)
    qed
    have "live_ok bs' (insert (p, want) L)"
      using live_new [OF bs(3) _ w u(3,4)] new by blast
    then show ?thesis
      using u(1,2) False by auto
  qed
next
  case (free h L p n h')
  then obtain bs where bs: "program_up (os h)" "uheap_ok program_brk 0x90000 h bs" "live_ok bs L"
    by blast
  have e: "program_brk (os h) \<le> 0x400000"
    using program_brk_le [OF bs(1)] by simp
  obtain k where "(unat p, k) \<in> in_use 16 0x90000 bs"
    using bs(3) free(2) by (auto simp: live_ok_def)
  from ufree_ok [OF bs(2) e this] free(3) obtain m' bs' where u: "h' = h\<lparr>uram := m'\<rparr>" "uheap_ok program_brk 0x90000 h' bs'"
      "in_use 16 0x90000 bs' = in_use 16 0x90000 bs - {(unat p, k)}"
    by auto
  then show ?case
    using live_free [OF bs(3) free(2) u(3)] bs(1) by auto
next
  case (poke h L p n i b)
  then obtain bs where bs: "program_up (os h)" "uheap_ok program_brk 0x90000 h bs" "live_ok bs L"
    by blast
  obtain k where k: "unat n \<le> k" "(unat p, k) \<in> in_use 16 0x90000 bs"
    using bs(3) poke(2) by (auto simp: live_ok_def)
  have bl: "blocks 16 (uram h) (u_head h) 0x90000 (program_brk (os h)) bs"
    using bs(2) by (simp add: uheap_ok_def)
  have e: "program_brk (os h) \<le> 4294967296" "unat p + k \<le> 0x9F000"
    using program_brk_le [OF bs(1)] uh.in_use_range [OF bl k(2)] by simp_all
  have "unat (p + i) = unat p + unat i" "unat i < k"
    using e(2) k(1) poke(3) by (auto simp: word_less_nat_alt intro!: unat_add_no_wrap)
  then have "\<forall>x. unat x < unat p \<or> unat p + k \<le> unat x \<longrightarrow> ((uram h)(p + i := b)) x = uram h x"
    by auto
  with bl k(2) e(1) have "blocks 16 ((uram h)(p + i := b)) (u_head h) 0x90000 (program_brk (os h)) bs"
    by (rule blocks_payload)
  then have "uheap_ok program_brk 0x90000 (h\<lparr>uram := (uram h)(p + i := b)\<rparr>) bs"
    using bs(2) unfolding uheap_ok_def by simp
  then show ?case
    using bs(1,3) by auto
qed

lemma live_block:
  assumes "uheap_ok program_brk 0x90000 h bs" "live_ok bs L" "program_up (os h)" "(p, n) \<in> L"
  obtains k where "unat n \<le> k" "(unat p, k) \<in> in_use 16 0x90000 bs" "8 dvd unat p" "0x90000 \<le> unat p" "unat p + k \<le> 0x9F000"
proof -
  obtain k where k: "unat n \<le> k" "(unat p, k) \<in> in_use 16 0x90000 bs"
    using assms(2,4) by (auto simp: live_ok_def)
  have b: "blocks 16 (uram h) (u_head h) 0x90000 (program_brk (os h)) bs" "8 dvd (0x90000 :: nat)" "\<forall>(n, f) \<in> set bs. 8 dvd n"
    using assms(1) by (simp_all add: uheap_ok_def)
  then have "8 dvd unat p"
    using blocks_aligned k(2) by fast
  then show thesis
    using that k uh.in_use_range [OF b(1) k(2)] program_brk_le [OF assms(3)] by auto
qed

lemma same_live:
  assumes "uheap_ok program_brk 0x90000 h bs" "live_ok bs L" "program_up (os h)" "(p, n) \<in> L" "same_in U (uram h) m'"
    "\<And>k. (unat p, k) \<in> in_use 16 0x90000 bs \<Longrightarrow> (unat p, k) \<in> U" "i < n"
  shows "m' (p + i) = uram h (p + i)"
proof -
  obtain k where k: "unat n \<le> k" "(unat p, k) \<in> in_use 16 0x90000 bs" "unat p + k \<le> 0x9F000"
    using live_block [OF assms(1-4)] by metis
  have "unat (p + i) = unat p + unat i" "unat i < k"
    using k(1,3) assms(7) by (auto simp: word_less_nat_alt intro!: unat_add_no_wrap)
  then show ?thesis
    using assms(5) assms(6) [OF k(2)] by (fastforce simp: same_in_def)
qed

lemma live_apart:
  assumes bs: "uheap_ok program_brk 0x90000 h bs" "live_ok bs L" and up: "program_up (os h)" and pq: "(p, n) \<in> L" "(q, l) \<in> L"
  shows "(q, l) = (p, n) \<or> unat p + unat n \<le> unat q \<or> unat q + unat l \<le> unat p"
proof -
  have b: "blocks 16 (uram h) (u_head h) 0x90000 (program_brk (os h)) bs"
    using bs(1) by (simp add: uheap_ok_def)
  obtain k where k: "unat n \<le> k" "(unat p, k) \<in> in_use 16 0x90000 bs"
    using live_block [OF bs up pq(1)] by metis
  obtain j where j: "unat l \<le> j" "(unat q, j) \<in> in_use 16 0x90000 bs"
    using live_block [OF bs up pq(2)] by metis
  have "p = q \<Longrightarrow> n = l"
    using pq bs(2) by (auto simp: live_ok_def)
  then show ?thesis
    using in_use_disjoint [OF b k(2) j(2)] k(1) j(1) by (auto simp: word_unat_eq_iff [symmetric])
qed

text \<open>
  C6: the heap is well formed in every state a program can bring it into by allocating blocks of at most \<open>0xFFFFFFE8\<close> bytes each, freeing blocks it
  holds and writing to them. (A larger request wraps around when the header is added and breaks the heap, see \<open>umalloc_wraps\<close>.) The blocks it holds are 8-byte aligned, inside the heap and disjoint, for the sizes requested. Every further call of \<open>umalloc\<close> for up to \<open>0xFFFFFFE8\<close> bytes, and of
  \<open>ufree\<close> for a block it holds, returns and leaves the contents of all (other) blocks it holds as they were.
\<close>

theorem user_heap_type:
  assumes "u_reach dev r h L"
  shows "(\<forall>(p, n) \<in> L. 8 dvd unat p \<and> 0x90000 \<le> unat p \<and> unat p + unat n \<le> 0x9F000 \<and>
       (\<forall>(q, l) \<in> L. (q, l) = (p, n) \<or> unat p + unat n \<le> unat q \<or> unat q + unat l \<le> unat p)) \<and>
     (\<forall>want. unat want \<le> 0xFFFFFFE8 \<longrightarrow> (\<exists>p h'. umalloc (u_sbrk dev r) want h = Some (p, h') \<and>
       (\<forall>(q, l) \<in> L. \<forall>i < l. uram h' (q + i) = uram h (q + i)))) \<and>
     (\<forall>(p, n) \<in> L. \<exists>h'. ufree p h = Some h' \<and> (\<forall>(q, l) \<in> L - {(p, n)}. \<forall>i < l. uram h' (q + i) = uram h (q + i)))"
proof -
  obtain bs where bs: "uheap_ok program_brk 0x90000 h bs" "live_ok bs L" and up: "program_up (os h)"
    using u_reach_ok [OF assms] by blast
  have e: "program_brk (os h) \<le> 0x400000"
    using program_brk_le [OF up] by simp
  have one: "n = l" if "(p, n) \<in> L" "(p, l) \<in> L" for p n l
    using that bs(2) by (auto simp: live_ok_def)
  have "8 dvd unat p \<and> 0x90000 \<le> unat p \<and> unat p + unat n \<le> 0x9F000 \<and>
      (\<forall>(q, l) \<in> L. (q, l) = (p, n) \<or> unat p + unat n \<le> unat q \<or> unat q + unat l \<le> unat p)" if pn: "(p, n) \<in> L" for p n
  proof -
    obtain k where "unat n \<le> k" "8 dvd unat p" "0x90000 \<le> unat p" "unat p + k \<le> 0x9F000"
      using live_block [OF bs up pn] by metis
    then show ?thesis
      using live_apart [OF bs up pn] by auto
  qed
  moreover have "\<exists>p h'. umalloc (u_sbrk dev r) want h = Some (p, h') \<and> (\<forall>(q, l) \<in> L. \<forall>i < l. uram h' (q + i) = uram h (q + i))"
    if want: "unat want \<le> 0xFFFFFFE8" for want
  proof -
    obtain p h' where p: "umalloc (u_sbrk dev r) want h = Some (p, h')" "h' = h \<or> same_in (in_use 16 0x90000 bs) (uram h) (uram h')"
      using us.umalloc_ok [OF bs(1) up want, of dev r] by (auto split: if_splits)
    have "uram h' (q + i) = uram h (q + i)" if "(q, l) \<in> L" "i < l" for q l i
      using p(2) same_live [OF bs up that(1) _ _ that(2)] by auto
    then show ?thesis
      using p(1) by blast
  qed
  moreover have "\<exists>h'. ufree p h = Some h' \<and> (\<forall>(q, l) \<in> L - {(p, n)}. \<forall>i < l. uram h' (q + i) = uram h (q + i))" if pn: "(p, n) \<in> L" for p n
  proof -
    obtain k where k: "(unat p, k) \<in> in_use 16 0x90000 bs"
      using live_block [OF bs up pn] by metis
    obtain m' bs' where m: "ufree p h = Some (h\<lparr>uram := m'\<rparr>)" "in_use 16 0x90000 bs' = in_use 16 0x90000 bs - {(unat p, k)}"
        "same_in (in_use 16 0x90000 bs') (uram h) m'"
      using ufree_ok [OF bs(1) e k] by blast
    have "m' (q + i) = uram h (q + i)" if "(q, l) \<in> L - {(p, n)}" "i < l" for q l i
    proof -
      have "unat q \<noteq> unat p"
        using that(1) one [OF pn, of l] by (auto simp: word_unat_eq_iff [symmetric])
      then show ?thesis
        using same_live [OF bs up _ m(3) _ that(2)] that(1) m(2) by auto
    qed
    then show ?thesis
      using m(1) by auto
  qed
  ultimately show ?thesis
    by blast
qed

theorem user_heap_type_witness:
  "case umalloc (u_sbrk (ide 3) (user_call 0 0 0 0)) 100 fresh_heap of None \<Rightarrow> False
   | Some (p, h) \<Rightarrow> p \<noteq> 0 \<and> 8 dvd unat p \<and> ufree p h \<noteq> None"
proof -
  have brk: "program_brk (os fresh_heap) = 0x90000"
    using booted_up by (simp add: fresh_heap_def program_brk_def USER_HEAP_BASE_def)
  have n: "unat (100 :: u32) \<le> 0xFFFFFFE8"
    by simp
  obtain p h where p: "umalloc (u_sbrk (ide 3) (user_call 0 0 0 0)) 100 fresh_heap = Some (p, h)" "p \<noteq> 0"
    using us.umalloc_ok [OF fresh_heap_ok n, of "ide 3" "user_call 0 0 0 0"] brk by (auto split: if_splits)
  have "u_reach (ide 3) (user_call 0 0 0 0) fresh_heap {}"
    using booted_up by (intro u_reach.start) (simp_all add: fresh_heap_def)
  from u_reach.alloc [OF this n p(1)] have "u_reach (ide 3) (user_call 0 0 0 0) h {(p, 100)}"
    using p(2) by simp
  from user_heap_type [OF this] show ?thesis
    by (auto simp: p)
qed

text \<open>
  A request so large that adding the header wraps around is not refused: the break does not move, and the block is
  recorded with the size that was asked for.
\<close>

lemma umalloc_wraps:
  "case umalloc (u_sbrk dev r) 0xFFFFFFF0 fresh_heap of None \<Rightarrow> False
   | Some (p, h) \<Rightarrow> p = 0x90010 \<and> os h = os fresh_heap \<and> block_size (uram h) 0x90000 = 0xFFFFFFF0"
proof -
  have s: "u_sbrk dev r 0 (os fresh_heap) = Some (0x90000, os fresh_heap)"
    using booted_up by (simp add: u_sbrk_eq sys_sbrk_def fresh_heap_def heap_break_def Let_def USER_HEAP_BASE_def)
  have w: "((0xFFFFFFF0 :: u32) + 7) AND NOT 7 = 0xFFFFFFF0" "U_HDR + 0xFFFFFFF0 = 0"
    by (simp_all add: U_HDR_def word_unat_eq_iff unat_add_u32)
  show ?thesis
    unfolding umalloc_def Let_def w using s
    by (simp add: fresh_heap_def U_HDR_def fit_loop.simps block_size_def load_store_aligned word_aligned_iff)
qed

end
