(* ===== verification/Editor.thy ===== *)
theory Editor
  imports Screen Keyboard
begin

text \<open>
  The line editor of the shell, \<open>kernel/shell.c\<close>: the line being typed, the history of commands and the keys that edit
  them.  \<open>handle_char\<close> is split at its call of \<open>execute\<close>: the keys other than Enter, what Enter does before the
  command runs, and what it does afterwards.  The commands themselves are not part of this theory.
\<close>

section \<open>Operations\<close>

definition LINE_MAX :: nat where
  "LINE_MAX = 128"

definition HIST_MAX :: nat where
  "HIST_MAX = 16"

record editor =
  line :: "u8 list"
  line_len :: nat
  history :: "u8 list list"
  hist_count :: nat
  hist_browse :: nat

function copy_loop :: "nat \<Rightarrow> u8 list \<Rightarrow> bytes \<Rightarrow> u8 list" where
  "copy_loop i dst src =
     (if src i \<noteq> 0 \<and> i < LINE_MAX - 1 then copy_loop (i + 1) (dst[i := src i]) src else dst[i := 0])"
  by pat_completeness auto
termination
  by (relation "measure (\<lambda>(i, dst, src). LINE_MAX - i)") auto

declare copy_loop.simps [simp del]

definition copy_line :: "u8 list \<Rightarrow> bytes \<Rightarrow> u8 list" where
  "copy_line dst src = copy_loop 0 dst src"

definition history_add :: "bytes \<Rightarrow> editor \<Rightarrow> editor" where
  "history_add s e =
     (let e = (if s 0 \<noteq> 0 then
                 if hist_count e < HIST_MAX
                 then e\<lparr>history := (history e)[hist_count e := copy_line (history e ! hist_count e) s], hist_count := hist_count e + 1\<rparr>
                 else
                   let hs = fold (\<lambda>k hs. hs[k := copy_line (hs ! k) (bytes_of (hs ! (k + 1)))]) [0..<HIST_MAX - 1] (history e)
                   in e\<lparr>history := hs[HIST_MAX - 1 := copy_line (hs ! (HIST_MAX - 1)) s]\<rparr>
               else e)
      in e\<lparr>hist_browse := hist_count e\<rparr>)"

text \<open>The two loops of \<open>replace_line\<close>.\<close>

fun erase_loop :: "nat \<Rightarrow> console \<Rightarrow> console" where
  "erase_loop 0 con = con"
| "erase_loop (Suc n) con = erase_loop n (kprint_char 8 con)"

function retype_loop :: "nat \<Rightarrow> bytes \<Rightarrow> u8 list \<Rightarrow> console \<Rightarrow> nat \<times> u8 list \<times> console" where
  "retype_loop i s ln con =
     (if s i \<noteq> 0 \<and> i < LINE_MAX - 1 then retype_loop (i + 1) s (ln[i := s i]) (kprint_char (s i) con) else (i, ln, con))"
  by pat_completeness auto
termination
  by (relation "measure (\<lambda>(i, s, ln, con). LINE_MAX - i)") auto

declare retype_loop.simps [simp del]

definition replace_line :: "bytes \<Rightarrow> editor \<times> console \<Rightarrow> editor \<times> console" where
  "replace_line s = (\<lambda>(e, con).
     let con = erase_loop (line_len e) con;
         (i, ln, con) = retype_loop 0 s (line e) con
     in (e\<lparr>line := ln[i := 0], line_len := i\<rparr>, con))"

definition history_prev :: "editor \<times> console \<Rightarrow> editor \<times> console" where
  "history_prev = (\<lambda>(e, con).
     if hist_count e > 0 \<and> hist_browse e > 0
     then let e = e\<lparr>hist_browse := hist_browse e - 1\<rparr>
          in replace_line (bytes_of (history e ! hist_browse e)) (e, con)
     else (e, con))"

definition history_next :: "editor \<times> console \<Rightarrow> editor \<times> console" where
  "history_next = (\<lambda>(e, con).
     if hist_browse e < hist_count e
     then let e = e\<lparr>hist_browse := hist_browse e + 1\<rparr>
          in replace_line (if hist_browse e = hist_count e then bytes_of [] else bytes_of (history e ! hist_browse e)) (e, con)
     else (e, con))"

definition prompt :: "console \<Rightarrow> console" where
  "prompt con = kprint_color (str ''pyro> '') COLOR_GREEN_ON_BLACK con"

text \<open>\<open>handle_char\<close> for every key but Enter.\<close>

definition edit_key :: "u8 \<Rightarrow> editor \<times> console \<Rightarrow> editor \<times> console" where
  "edit_key c = (\<lambda>(e, con).
     if c = KEY_UP then history_prev (e, con)
     else if c = KEY_DOWN then history_next (e, con)
     else if c = KEY_LEFT \<or> c = KEY_RIGHT then (e, con)
     else if c = 8 then
       if line_len e > 0 then (e\<lparr>line_len := line_len e - 1\<rparr>, kprint_char 8 con) else (e, con)
     else if line_len e < LINE_MAX - 1
     then (e\<lparr>line := (line e)[line_len e := c], line_len := line_len e + 1\<rparr>, kprint_char c con)
     else (e, con))"

text \<open>\<open>handle_char\<close> for Enter, before and after the command in \<open>line\<close> is executed.\<close>

definition submit_line :: "editor \<times> console \<Rightarrow> editor \<times> console" where
  "submit_line = (\<lambda>(e, con).
     let con = kprint_char 10 con;
         e = e\<lparr>line := (line e)[line_len e := 0]\<rparr>
     in (history_add (bytes_of (line e)) e, con))"

definition next_line :: "editor \<times> console \<Rightarrow> editor \<times> console" where
  "next_line = (\<lambda>(e, con). (e\<lparr>line_len := 0\<rparr>, prompt con))"

text \<open>Matching a command.\<close>

partial_function (option) streq_loop :: "bytes \<Rightarrow> bytes \<Rightarrow> nat \<Rightarrow> bool option" where
  "streq_loop a b i =
     (if a i \<noteq> 0 \<and> b i \<noteq> 0 then if a i \<noteq> b i then Some False else streq_loop a b (i + 1)
      else Some (a i = b i))"

definition streq :: "bytes \<Rightarrow> bytes \<Rightarrow> bool option" where
  "streq a b = streq_loop a b 0"

partial_function (option) starts_loop :: "bytes \<Rightarrow> bytes \<Rightarrow> nat \<Rightarrow> bool option" where
  "starts_loop s pre i =
     (if pre i \<noteq> 0 then if s i \<noteq> pre i then Some False else starts_loop s pre (i + 1) else Some True)"

definition starts_with :: "bytes \<Rightarrow> bytes \<Rightarrow> bool option" where
  "starts_with s pre = starts_loop s pre 0"

section \<open>The loops\<close>

lemma copy_loop_text:
  "cstr (\<lambda>k. src (i + k)) xs \<Longrightarrow> i + length xs \<le> 127 \<Longrightarrow> length dst = 128 \<Longrightarrow>
   copy_loop i dst src = take i dst @ xs @ 0 # drop (i + length xs + 1) dst"
proof (induction xs arbitrary: i dst)
  case Nil
  then show ?case
    by (subst copy_loop.simps) (simp add: upd_conv_take_nth_drop)
next
  case (Cons x xs)
  have "copy_loop i dst src = copy_loop (i + 1) (dst[i := x]) src"
    using Cons.prems by (subst copy_loop.simps) (simp add: LINE_MAX_def)
  also have "\<dots> = take (i + 1) (dst[i := x]) @ xs @ 0 # drop (i + 1 + length xs + 1) (dst[i := x])"
    using Cons.prems by (intro Cons.IH) simp_all
  also have "\<dots> = take i dst @ (x # xs) @ 0 # drop (i + length (x # xs) + 1) dst"
    using Cons.prems by (simp add: take_Suc_conv_app_nth)
  finally show ?case .
qed

lemma copy_line_text: "cstr src xs \<Longrightarrow> length xs \<le> 127 \<Longrightarrow> length dst = 128 \<Longrightarrow> copy_line dst src = xs @ 0 # drop (length xs + 1) dst"
  using copy_loop_text [of src 0 xs dst] by (simp add: copy_line_def)

lemma retype_loop_text:
  "cstr (\<lambda>k. s (i + k)) xs \<Longrightarrow> i + length xs \<le> 127 \<Longrightarrow> length ln = 128 \<Longrightarrow>
   retype_loop i s ln con = (i + length xs, take i ln @ xs @ drop (i + length xs) ln, fold kprint_char xs con)"
proof (induction xs arbitrary: i ln con)
  case Nil
  then show ?case
    by (subst retype_loop.simps) simp
next
  case (Cons x xs)
  have "retype_loop i s ln con = retype_loop (i + 1) s (ln[i := x]) (kprint_char x con)"
    using Cons.prems by (subst retype_loop.simps) (simp add: LINE_MAX_def)
  also have "\<dots> = (i + 1 + length xs, take (i + 1) (ln[i := x]) @ xs @ drop (i + 1 + length xs) (ln[i := x]), fold kprint_char xs (kprint_char x con))"
    using Cons.prems by (intro Cons.IH) simp_all
  also have "\<dots> = (i + length (x # xs), take i ln @ (x # xs) @ drop (i + length (x # xs)) ln, fold kprint_char (x # xs) con)"
    using Cons.prems by (simp add: take_Suc_conv_app_nth)
  finally show ?case .
qed

lemma erase_loop_fold: "erase_loop n con = fold kprint_char (replicate n 8) con"
  by (induction n arbitrary: con) simp_all

lemma streq_loop_text: "cstr (\<lambda>k. a (i + k)) xs \<Longrightarrow> cstr (\<lambda>k. b (i + k)) ys \<Longrightarrow> streq_loop a b i = Some (xs = ys)"
proof (induction xs arbitrary: i ys)
  case Nil
  then show ?case
    by (cases ys) (auto simp: streq_loop.simps [of a b i])
next
  case (Cons x xs)
  then show ?case
    using Cons.IH [of "i + 1" "tl ys"] by (cases ys) (auto simp: streq_loop.simps [of a b i])
qed

lemma starts_loop_text: "cstr (\<lambda>k. s (i + k)) xs \<Longrightarrow> cstr (\<lambda>k. pre (i + k)) ys \<Longrightarrow> starts_loop s pre i = Some (take (length ys) xs = ys)"
proof (induction ys arbitrary: i xs)
  case Nil
  then show ?case
    by (simp add: starts_loop.simps)
next
  case (Cons y ys)
  then show ?case
    using Cons.IH [of "i + 1" "tl xs"] by (cases xs) (auto simp: starts_loop.simps [of s pre i])
qed

section \<open>The editor a user expects\<close>

text \<open>The line typed so far, the commands given before, and the place in them that the arrow keys have reached.\<close>

record notebook =
  entry :: "u8 list"
  past :: "u8 list list"
  at :: nat

definition note_key :: "u8 \<Rightarrow> notebook \<Rightarrow> notebook" where
  "note_key c n =
     (if c = KEY_UP then if 0 < at n then n\<lparr>entry := past n ! (at n - 1), at := at n - 1\<rparr> else n
      else if c = KEY_DOWN then
        if at n < length (past n) then n\<lparr>entry := (past n @ [[]]) ! (at n + 1), at := at n + 1\<rparr> else n
      else if c = KEY_LEFT \<or> c = KEY_RIGHT then n
      else if c = 8 then n\<lparr>entry := butlast (entry n)\<rparr>
      else if length (entry n) < 127 then n\<lparr>entry := entry n @ [c]\<rparr> else n)"

text \<open>The last 16 commands are kept; an empty line is not one.\<close>

definition note_enter :: "notebook \<Rightarrow> notebook" where
  "note_enter n =
     (let cs = (if entry n = [] then past n else past n @ [entry n]);
          cs = drop (length cs - 16) cs
      in n\<lparr>entry := [], past := cs, at := length cs\<rparr>)"

text \<open>What a key prints: a change of the line by the arrow keys erases the old text and types the new one.\<close>

definition echo :: "u8 \<Rightarrow> notebook \<Rightarrow> u8 list" where
  "echo c n =
     (if c = KEY_UP \<and> 0 < at n \<or> c = KEY_DOWN \<and> at n < length (past n)
      then replicate (length (entry n)) 8 @ entry (note_key c n)
      else if c = KEY_UP \<or> c = KEY_DOWN \<or> c = KEY_LEFT \<or> c = KEY_RIGHT then []
      else if c = 8 then if entry n = [] then [] else [8]
      else if length (entry n) < 127 then [c] else [])"

definition ed_ok :: "editor \<Rightarrow> bool" where
  "ed_ok e \<longleftrightarrow> length (line e) = 128 \<and> line_len e \<le> 127 \<and> 0 \<notin> set (take (line_len e) (line e)) \<and>
     length (history e) = 16 \<and> hist_count e \<le> 16 \<and> hist_browse e \<le> hist_count e \<and>
     (\<forall>h \<in> set (history e). length h = 128) \<and> (\<forall>i < hist_count e. 0 \<in> set (history e ! i))"

definition ed_abs :: "editor \<Rightarrow> notebook" where
  "ed_abs e = \<lparr>entry = take (line_len e) (line e), past = map c_string (take (hist_count e) (history e)), at = hist_browse e\<rparr>"

lemma stored_text:
  assumes "length h = 128" "0 \<in> set h"
  shows "cstr (bytes_of h) (c_string h)" "length (c_string h) \<le> 127" "0 \<notin> set (c_string h)"
proof -
  show "cstr (bytes_of h) (c_string h)"
    using cstr_c_string [OF assms(2), of "[]"] by simp
  then show "0 \<notin> set (c_string h)"
    by (rule cstr_no_zero)
  then have "c_string h \<noteq> h"
    using assms(2) by auto
  moreover have "c_string h = take (length (c_string h)) h"
    unfolding c_string_def by (rule takeWhile_eq_take)
  ultimately have "length (c_string h) < length h"
    by (metis not_less take_all)
  then show "length (c_string h) \<le> 127"
    using assms(1) by simp
qed

lemma replace_line_text:
  assumes "length (line e) = 128" "cstr s xs" "length xs \<le> 127"
  shows "replace_line s (e, con) =
    (e\<lparr>line := xs @ 0 # drop (length xs + 1) (line e), line_len := length xs\<rparr>, fold kprint_char (replicate (line_len e) 8 @ xs) con)"
proof -
  have "drop (length xs) (line e) = line e ! length xs # drop (length xs + 1) (line e)"
    using assms(1,3) by (simp add: Cons_nth_drop_Suc)
  then have "(xs @ drop (length xs) (line e))[length xs := 0] = xs @ 0 # drop (length xs + 1) (line e)"
    by simp
  then show ?thesis
    using retype_loop_text [of s 0 xs "line e"] assms by (simp add: replace_line_def erase_loop_fold)
qed

lemma replaced:
  assumes "ed_ok e" "cstr s xs" "length xs \<le> 127" "k \<le> hist_count e"
  shows "case replace_line s (e\<lparr>hist_browse := k\<rparr>, con) of (e', con') \<Rightarrow>
    ed_ok e' \<and> ed_abs e' = (ed_abs e)\<lparr>entry := xs, at := k\<rparr> \<and> con' = fold kprint_char (replicate (length (entry (ed_abs e))) 8 @ xs) con"
proof -
  have "length (line (e\<lparr>hist_browse := k\<rparr>)) = 128" "0 \<notin> set xs"
    using assms(1,2) by (simp_all add: ed_ok_def cstr_def)
  then show ?thesis
    using assms replace_line_text [of "e\<lparr>hist_browse := k\<rparr>" s xs con] by (auto simp: ed_ok_def ed_abs_def)
qed

lemma shift_history:
  assumes "n < length hs"
  shows "fold (\<lambda>k hs. hs[k := f (hs ! k) (hs ! (k + 1))]) [0..<n] hs = map (\<lambda>k. f (hs ! k) (hs ! (k + 1))) [0..<n] @ drop n hs"
  using assms
proof (induction n)
  case (Suc n)
  have "drop n hs = hs ! n # drop (Suc n) hs" "drop (Suc n) hs = hs ! Suc n # drop (Suc (Suc n)) hs"
    using Suc.prems by (simp_all add: Cons_nth_drop_Suc)
  then show ?case
    using Suc by (simp add: list_update_append nth_append)
qed simp

lemma copied:
  assumes "cstr src xs" "length xs \<le> 127" "length dst = 128"
  shows "length (copy_line dst src) = 128" "0 \<in> set (copy_line dst src)" "c_string (copy_line dst src) = xs"
  using assms cstr_no_zero [OF assms(1)] by (simp_all add: copy_line_text c_string_terminated)

lemma history_full:
  assumes "length hs = 16" "\<forall>h \<in> set hs. length h = 128" "\<forall>i < 16. 0 \<in> set (hs ! i)" "cstr s xs" "length xs \<le> 127"
  defines "hs' \<equiv> fold (\<lambda>k hs. hs[k := copy_line (hs ! k) (bytes_of (hs ! (k + 1)))]) [0..<HIST_MAX - 1] hs"
  defines "hs'' \<equiv> hs'[HIST_MAX - 1 := copy_line (hs' ! (HIST_MAX - 1)) s]"
  shows "length hs'' = 16" "\<forall>h \<in> set hs''. length h = 128 \<and> 0 \<in> set h" "map c_string hs'' = tl (map c_string hs) @ [xs]"
proof -
  have "hs' = map (\<lambda>k. copy_line (hs ! k) (bytes_of (hs ! (k + 1)))) [0..<15] @ drop 15 hs"
    unfolding hs'_def using shift_history [of 15 hs "\<lambda>a b. copy_line a (bytes_of b)"] assms(1) by (simp add: HIST_MAX_def)
  moreover have "drop 15 hs = [hs ! 15]"
    using assms(1) Cons_nth_drop_Suc [of 15 hs] by simp
  ultimately have e: "hs'' = map (\<lambda>k. copy_line (hs ! k) (bytes_of (hs ! (k + 1)))) [0..<15] @ [copy_line (hs ! 15) s]"
    by (simp add: hs''_def HIST_MAX_def list_update_append nth_append)
  have len: "length (hs ! k) = 128" if "k < 16" for k
    using that assms(1,2) by simp
  have c: "length (copy_line (hs ! k) (bytes_of (hs ! (k + 1)))) = 128" "0 \<in> set (copy_line (hs ! k) (bytes_of (hs ! (k + 1))))"
    "c_string (copy_line (hs ! k) (bytes_of (hs ! (k + 1)))) = c_string (hs ! (k + 1))" if "k < 15" for k
    using copied [OF stored_text(1,2) len] len assms(3) that by simp_all
  have l: "length (copy_line (hs ! 15) s) = 128" "0 \<in> set (copy_line (hs ! 15) s)" "c_string (copy_line (hs ! 15) s) = xs"
    using copied [OF assms(4,5) len] by simp_all
  show "length hs'' = 16" "\<forall>h \<in> set hs''. length h = 128 \<and> 0 \<in> set h"
    using c l by (auto simp: e)
  have "map (\<lambda>k. c_string (copy_line (hs ! k) (bytes_of (hs ! (k + 1))))) [0..<15] = tl (map c_string hs)"
    by (rule nth_equalityI) (use assms(1) c(3) in \<open>simp_all add: nth_tl\<close>)
  then show "map c_string hs'' = tl (map c_string hs) @ [xs]"
    using l(3) by (simp add: e comp_def)
qed

lemma history_add_text:
  assumes ok: "ed_ok e" and s: "cstr s xs" "length xs \<le> 127"
  shows "ed_ok (history_add s e) \<and> ed_abs (history_add s e) = (note_enter ((ed_abs e)\<lparr>entry := xs\<rparr>))\<lparr>entry := entry (ed_abs e)\<rparr> \<and>
    line (history_add s e) = line e \<and> line_len (history_add s e) = line_len e"
proof -
  consider (empty) "xs = []" | (room) "xs \<noteq> []" "hist_count e < 16" | (full) "xs \<noteq> []" "hist_count e = 16"
    using ok by (auto simp: ed_ok_def le_less)
  then show ?thesis
  proof cases
    case empty
    then show ?thesis
      using ok s by (auto simp: history_add_def ed_ok_def ed_abs_def note_enter_def)
  next
    case room
    let ?i = "hist_count e"
    have "s 0 \<noteq> 0"
      using s(1) room(1) by (cases xs) auto
    then have h: "history_add s e = e\<lparr>history := (history e)[?i := copy_line (history e ! ?i) s], hist_count := ?i + 1, hist_browse := ?i + 1\<rparr>"
      using room(2) by (simp add: history_add_def HIST_MAX_def)
    have "length (history e ! ?i) = 128"
      using ok room(2) by (simp add: ed_ok_def)
    note c = copied [OF s this]
    have "ed_ok (history_add s e)"
      using ok room(2) c(1,2) by (auto simp: h ed_ok_def nth_list_update dest!: set_update_subset_insert [THEN subsetD])
    moreover have "take (?i + 1) ((history e)[?i := copy_line (history e ! ?i) s]) = take ?i (history e) @ [copy_line (history e ! ?i) s]"
      using ok room(2) by (simp add: ed_ok_def take_Suc_conv_app_nth)
    ultimately show ?thesis
      using room ok c(3) by (simp add: h ed_abs_def note_enter_def ed_ok_def)
  next
    case full
    define hs where "hs = fold (\<lambda>k hs. hs[k := copy_line (hs ! k) (bytes_of (hs ! (k + 1)))]) [0..<HIST_MAX - 1] (history e)"
    have "s 0 \<noteq> 0"
      using s(1) full(1) by (cases xs) auto
    then have h: "history_add s e = e\<lparr>history := hs[HIST_MAX - 1 := copy_line (hs ! (HIST_MAX - 1)) s], hist_browse := 16\<rparr>"
      using full(2) by (simp add: history_add_def HIST_MAX_def hs_def Let_def)
    have "length (history e) = 16" "\<forall>h \<in> set (history e). length h = 128" "\<forall>i < 16. 0 \<in> set (history e ! i)"
      using ok full(2) by (simp_all add: ed_ok_def)
    note f = history_full [OF this s, folded hs_def]
    have "ed_ok (history_add s e)"
      using ok full(2) f(1,2) by (simp add: h ed_ok_def)
    moreover have "drop 1 (map c_string (history e)) = tl (map c_string (history e))"
      by (simp add: drop_Suc)
    ultimately show ?thesis
      using full ok f(1,3) by (simp add: h ed_abs_def note_enter_def ed_ok_def)
  qed
qed


section \<open>Properties of the line editor\<close>

lemma edit_key_refines:
  assumes ok: "ed_ok e" and c: "c \<noteq> 0"
  shows "case edit_key c (e, con) of (e', con') \<Rightarrow>
    ed_ok e' \<and> ed_abs e' = note_key c (ed_abs e) \<and> con' = fold kprint_char (echo c (ed_abs e)) con"
proof -
  have keys: "KEY_UP \<noteq> KEY_DOWN" "KEY_LEFT \<noteq> KEY_UP" "KEY_RIGHT \<noteq> KEY_UP" "KEY_LEFT \<noteq> KEY_DOWN" "KEY_RIGHT \<noteq> KEY_DOWN"
    by (simp_all add: KEY_UP_def KEY_DOWN_def KEY_LEFT_def KEY_RIGHT_def)
  have recall: "cstr (bytes_of (history e ! i)) (past (ed_abs e) ! i)" "length (past (ed_abs e) ! i) \<le> 127" if "i < hist_count e" for i
    using stored_text [of "history e ! i"] ok that by (simp_all add: ed_ok_def ed_abs_def)
  have len: "length (past (ed_abs e)) = hist_count e" "at (ed_abs e) = hist_browse e" "length (entry (ed_abs e)) = line_len e"
    using ok by (simp_all add: ed_ok_def ed_abs_def)
  consider (up) "c = KEY_UP" "0 < hist_browse e" | (down) "c = KEY_DOWN" "hist_browse e < hist_count e"
    | (stay) "c = KEY_UP \<and> hist_browse e = 0 \<or> c = KEY_DOWN \<and> \<not> hist_browse e < hist_count e \<or> c = KEY_LEFT \<or> c = KEY_RIGHT"
    | (char) "c \<noteq> KEY_UP" "c \<noteq> KEY_DOWN" "c \<noteq> KEY_LEFT" "c \<noteq> KEY_RIGHT"
    by blast
  then show ?thesis
  proof cases
    case up
    then have b: "hist_browse e - 1 < hist_count e" "0 < hist_count e"
      using ok by (auto simp: ed_ok_def)
    show ?thesis
      using replaced [OF ok recall [OF b(1)], of "hist_browse e - 1" con] up b len
      by (simp add: edit_key_def history_prev_def note_key_def echo_def ed_abs_def)
  next
    case down
    show ?thesis
    proof (cases "hist_browse e + 1 = hist_count e")
      case True
      then show ?thesis
        using replaced [OF ok, of "bytes_of []" "[]" "hist_browse e + 1" con] down keys len
        by (simp add: edit_key_def history_next_def note_key_def echo_def nth_append bytes_of_def)
    next
      case False
      then have b: "hist_browse e + 1 < hist_count e"
        using down(2) by simp
      show ?thesis
        using replaced [OF ok recall [OF b], of "hist_browse e + 1" con] down b keys len
        by (simp add: edit_key_def history_next_def note_key_def echo_def nth_append)
    qed
  next
    case stay
    then have "edit_key c (e, con) = (e, con)"
      using keys by (elim disjE conjE) (simp_all add: edit_key_def history_prev_def history_next_def)
    moreover have "note_key c (ed_abs e) = ed_abs e" "echo c (ed_abs e) = []"
      using stay keys len by (elim disjE conjE; simp add: note_key_def echo_def)+
    ultimately show ?thesis
      using ok by simp
  next
    case char
    show ?thesis
    proof (cases "c = 8")
      case True
      have "0 \<notin> set (take (line_len e - 1) (line e))"
        using ok set_take_subset_set_take [of "line_len e - 1" "line_len e" "line e"] by (auto simp: ed_ok_def)
      then show ?thesis
        using True char ok len by (cases "line_len e = 0") (auto simp: edit_key_def note_key_def echo_def ed_ok_def ed_abs_def butlast_take)
    next
      case False
      then show ?thesis
        using char ok c len by (auto simp: edit_key_def note_key_def echo_def ed_ok_def ed_abs_def LINE_MAX_def take_Suc_conv_app_nth)
    qed
  qed
qed

text \<open>
  C13: the line editor of the shell behaves as a user expects. Seen as the text typed, the last sixteen commands and a place in them, every key does what the
  notebook above says: characters are appended up to 127 of them, backspace removes the last one and the arrow keys recall commands. The
  screen shows exactly these changes. On Enter the command executed is the text typed; afterwards it is the last command of the history and the line is empty.
\<close>

theorem editor_refines:
  assumes "ed_ok e" "c \<noteq> 0"
  shows "(case edit_key c (e, con) of (e', con') \<Rightarrow>
       ed_ok e' \<and> ed_abs e' = note_key c (ed_abs e) \<and> con' = fold kprint_char (echo c (ed_abs e)) con) \<and>
     (case submit_line (e, con) of (e', con') \<Rightarrow>
       cstr (bytes_of (line e')) (entry (ed_abs e)) \<and> con' = kprint_char 10 con \<and>
       (case next_line (e', con2) of (e'', con3) \<Rightarrow>
         ed_ok e'' \<and> ed_abs e'' = note_enter (ed_abs e) \<and> con3 = prompt con2))"
proof (rule conjI)
  show "case edit_key c (e, con) of (e', con') \<Rightarrow>
      ed_ok e' \<and> ed_abs e' = note_key c (ed_abs e) \<and> con' = fold kprint_char (echo c (ed_abs e)) con"
    using assms by (rule edit_key_refines)
  let ?xs = "take (line_len e) (line e)" and ?e = "e\<lparr>line := (line e)[line_len e := 0]\<rparr>"
  have l: "(line e)[line_len e := 0] = ?xs @ 0 # drop (line_len e + 1) (line e)"
    using assms(1) by (simp add: ed_ok_def upd_conv_take_nth_drop)
  have c: "cstr (bytes_of (line ?e)) ?xs" "length ?xs \<le> 127"
    using assms(1) l cstr_terminated [of ?xs "drop (line_len e + 1) (line e)"] by (simp_all add: ed_ok_def)
  have ok: "ed_ok ?e" "ed_abs ?e = ed_abs e"
    using assms(1) by (simp_all add: ed_ok_def ed_abs_def)
  define e' where "e' = history_add (bytes_of (line ?e)) ?e"
  have h: "ed_ok e'" "ed_abs e' = (note_enter ((ed_abs e)\<lparr>entry := ?xs\<rparr>))\<lparr>entry := entry (ed_abs e)\<rparr>" "line e' = line ?e"
    using history_add_text [OF ok(1) c] unfolding e'_def ok(2) by blast+
  have "ed_ok (e'\<lparr>line_len := 0\<rparr>)"
    using h(1) by (simp add: ed_ok_def)
  moreover have "(ed_abs e)\<lparr>entry := ?xs\<rparr> = ed_abs e" "entry (ed_abs e) = ?xs"
    by (simp_all add: ed_abs_def)
  moreover have "ed_abs (e'\<lparr>line_len := 0\<rparr>) = (ed_abs e')\<lparr>entry := []\<rparr>"
    by (simp add: ed_abs_def)
  moreover have "ed_abs (e'\<lparr>line_len := 0\<rparr>) = note_enter (ed_abs e)"
    unfolding calculation(4) h(2) calculation(2) by (simp add: note_enter_def Let_def)
  moreover have "cstr (bytes_of (line e')) ?xs"
    using h(3) c(1) by simp
  ultimately show "case submit_line (e, con) of (e', con') \<Rightarrow>
      cstr (bytes_of (line e')) (entry (ed_abs e)) \<and> con' = kprint_char 10 con \<and>
      (case next_line (e', con2) of (e'', con3) \<Rightarrow> ed_ok e'' \<and> ed_abs e'' = note_enter (ed_abs e) \<and> con3 = prompt con2)"
    by (simp add: submit_line_def next_line_def Let_def e'_def)
qed

text \<open>The static variables at the start, and a user who types \<open>ls\<close>.\<close>

definition boot_editor :: editor where
  "boot_editor = \<lparr>line = replicate 128 0, line_len = 0, history = replicate 16 (replicate 128 0), hist_count = 0, hist_browse = 0\<rparr>"

lemma boot_editor_ok: "ed_ok boot_editor" "ed_abs boot_editor = \<lparr>entry = [], past = [], at = 0\<rparr>"
  by (simp_all add: boot_editor_def ed_ok_def ed_abs_def)

theorem editor_refines_witness:
  "\<forall>con. case edit_key 0x73 (edit_key 0x6C (boot_editor, con)) of (e, con1) \<Rightarrow> entry (ed_abs e) = str ''ls'' \<and>
     (case submit_line (e, con1) of (e', con2) \<Rightarrow> cstr (bytes_of (line e')) (str ''ls'') \<and>
       past (ed_abs (fst (next_line (e', con2)))) = [str ''ls''])"
proof
  fix con
  obtain e1 con1 where 1: "edit_key 0x6C (boot_editor, con) = (e1, con1)"
    by fastforce
  obtain e2 con2 where 2: "edit_key 0x73 (e1, con1) = (e2, con2)"
    by fastforce
  have e1: "ed_ok e1" "ed_abs e1 = \<lparr>entry = [0x6C], past = [], at = 0\<rparr>"
    using editor_refines [OF boot_editor_ok(1), of "0x6C" con] 1
    by (simp_all add: boot_editor_ok note_key_def KEY_UP_def KEY_DOWN_def KEY_LEFT_def KEY_RIGHT_def)
  have e2: "ed_ok e2" "ed_abs e2 = \<lparr>entry = [0x6C, 0x73], past = [], at = 0\<rparr>"
    using editor_refines [OF e1(1), of "0x73" con1] 2 e1(2)
    by (simp_all add: note_key_def KEY_UP_def KEY_DOWN_def KEY_LEFT_def KEY_RIGHT_def)
  have ls: "str ''ls'' = [0x6C, 0x73]"
    by (simp add: str_def of_char_def)
  show "case edit_key 0x73 (edit_key 0x6C (boot_editor, con)) of (e, con1) \<Rightarrow> entry (ed_abs e) = str ''ls'' \<and>
     (case submit_line (e, con1) of (e', con2) \<Rightarrow> cstr (bytes_of (line e')) (str ''ls'') \<and>
       past (ed_abs (fst (next_line (e', con2)))) = [str ''ls''])"
    using editor_refines [OF e2(1), of 1 con2 "snd (submit_line (e2, con2))"] e2(2)
    by (auto simp: 1 2 ls note_enter_def next_line_def split: prod.splits)
qed

text \<open>Commands are told apart by their whole text, and a command with arguments by the text it begins with.\<close>

lemma command_match:
  assumes "cstr cmd xs" "cstr name ys"
  shows "streq cmd name = Some (xs = ys)" "starts_with cmd name = Some (take (length ys) xs = ys)"
  using streq_loop_text [of cmd 0 xs name ys] starts_loop_text [of cmd 0 xs name ys] assms
  by (simp_all add: streq_def starts_with_def)

end
