(* ===== verification/Spec2Isabelle.thy ===== *)
theory Spec2Isabelle
  imports Kheap Threads Elf Descriptors Umalloc Editor
begin

text \<open>
  A verification library for PyroOS, a 32-bit x86 kernel in C with its drivers, file system, processes and user programs.

  \<^bold>\<open>The program.\<close>  The kernel (\<open>src/kernel\<close>) runs in one address space of 8 MB that every address space shares. Frames from 4 MB to
  8 MB belong to a pool (\<open>pmm.c\<close>); address spaces (\<open>paging.c\<close>, \<open>vmm.c\<close>) and processes (\<open>proc.c\<close>) take their frames from it, and
  page faults (\<open>isr.c\<close>) are served from it by demand paging (\<open>demand.c\<close>) and copy-on-write (\<open>vmm.c\<close>). User programs run in ring 3 in
  the user zone from 0x80000 to 0xFFFFF, are loaded by \<open>elf.c\<close>, get their arguments from \<open>args.c\<close> and call the kernel through
  \<open>syscall.c\<close>, which reaches the screen, the keyboard, the clock, the break of the process and the file system (\<open>fs.c\<close> over \<open>ata.c\<close>).
  Kernel tasks (\<open>task.c\<close>, \<open>sync.c\<close>) share the processor cooperatively or by the timer.

  \<^bold>\<open>How it is modelled.\<close>  Machine integers are words of their width, so wrap-around is that of the code. Memory is a function from
  32-bit addresses to bytes, and page tables, heap headers, stacks and ELF images are bytes in it, read and written as the code does. A
  group of static variables is a record, every C function is one definition that takes and returns it, and a part of a function that has
  a name of its own (a loop, a case of a switch) is a definition that the function calls. Loops are recursion on a list of indices or
  \<open>function\<close>s with a measure; a loop that follows pointers in memory or waits for a terminator is a \<open>partial_function\<close>, so
  that not returning is the value \<open>None\<close>, and that it returns is proved. Error codes are values. Hardware is an argument: the drive is a
  record of what the port instructions do, the interrupts that arrive during a wait are a list, a scancode is an argument of the keyboard
  interrupt. No fuel is used; the only bounds are those of the code. Where a theorem needs room in a counter of the code it says so: process
  ids below the largest \<open>int\<close>, fewer than 255 owners of a frame, requests to the heaps that do not wrap when the header is added, names of files of
  at most 19 characters, command lines of at most eight words.

  The screen is a record of its own (\<open>console\<close>): video memory at 0xB8000 is not also part of the memory function, although it lies in the
  user zone, so a program that stores to video memory does not change the \<open>console\<close>, and printing does not change the memory.

  \<^bold>\<open>The theories.\<close>
  \<^item> \<open>Prelude\<close>, \<open>Memory\<close>: words, frames, byte memory, \<open>memset\<close> and \<open>memcpy\<close>; \<open>Kstring\<close>: the strings of \<open>string.c\<close>, with strings
    in memory as readers that end at a zero byte.
  \<^item> \<open>Pmm\<close>: \<open>pmm.c\<close>. Its bitmap, counts and hint stay consistent in every reachable state, allocation returns the lowest free frame with
    one owner, and a frame is released with its last owner.
  \<^item> \<open>Paging\<close>, \<open>Vmm\<close>: the boot tables of \<open>paging.c\<close> and the operations of \<open>vmm.c\<close>. Exactly the user zone is open to ring 3.
  \<^item> \<open>Ledger\<close>, \<open>Spaces\<close>: the invariant \<open>vm_inv\<close>: the owner count of every frame of the pool is the number of times the address
    spaces hold it, tables and writable pages have one owner. Creating, mapping, unmapping and destroying keep it, change no other address space, and
    destroying gives back exactly the frames held.
  \<^item> \<open>Cow\<close>, \<open>Demand\<close>: \<open>vmm_clone_cow\<close>, \<open>vmm_cow_handle\<close> and \<open>demand.c\<close>. Parent and child see the same bytes after a clone, and a later write is
    seen by the writer only; a promised page is zeroed and private.
  \<^item> \<open>Proc\<close>: \<open>proc.c\<close>. The process table and the memory of its processes keep their invariant in every run of the calls, page mappings
    that fail or replace a page included (\<open>kernel_reach\<close>, whose last argument collects the frames such mappings lose); fork makes one equal
    child, exit and wait give back its frames and its slot.
  \<^item> \<open>Blocks\<close>, \<open>Kheap\<close>, \<open>Umalloc\<close>: lists of blocks with headers in memory, and the heaps \<open>kheap.c\<close> and \<open>user/umalloc.h\<close> as two uses of
    the locale \<open>free_list\<close>. Blocks handed out are aligned, disjoint and keep their contents; the user heap relies on \<open>sbrk\<close> through the
    locale \<open>sbrk_service\<close>, which the system call satisfies.
  \<^item> \<open>Screen\<close>, \<open>Keyboard\<close>, \<open>Editor\<close>: \<open>screen.c\<close> shows the end of an endless sheet of paper; \<open>keyboard.c\<close> is a bounded queue; the
    line editor of \<open>shell.c\<close> refines a line of text with a history of sixteen commands.
  \<^item> \<open>Task\<close>, \<open>Threads\<close>: \<open>task.c\<close>, \<open>timer.c\<close>, \<open>switch.asm\<close> and \<open>sync.c\<close>. A task resumes with the registers it left with, every
    worker gets its turn, the mutex excludes, and the demonstrations end with the totals they print.
  \<^item> \<open>Elf\<close>, \<open>Args\<close>: the loader accepts exactly well-formed images, reads only the image and writes only the window; the arguments are
    where the entry point looks for them.
  \<^item> \<open>Descriptors\<close>: \<open>gdt.c\<close>, \<open>idt.c\<close> and the set-up in \<open>isr.c\<close>: segments as the processor decodes them, one gate open to user code.
  \<^item> \<open>Ata\<close>, \<open>Fs\<close>: \<open>ata.c\<close> over any drive that follows the protocol (locale \<open>pio_drive\<close>, interpreted on a concrete drive) is a block
    device (locale \<open>block_device\<close>), and \<open>fs.c\<close> over it is a map from names to contents that survives a reboot.
  \<^item> \<open>Traps\<close>: \<open>isr_handler\<close>, \<open>syscall_handler\<close> and the launcher of \<open>usermode.c\<close>. A system call neither reads nor writes memory of the
    kernel for the program and always answers; a page fault resumes only with the access legal, and otherwise ends at the recovery point.

  \<^bold>\<open>Not modelled.\<close>  The boot sector and the assembly stubs (\<open>boot/\<close>, \<open>interrupt.asm\<close>, \<open>ring3.asm\<close>, \<open>gdt_flush.asm\<close>,
  \<open>kernel_entry.asm\<close>): they run on hardware state outside the model, and their effect is the starting state or a field of a record. User
  programs as machine code: a program is an argument, the function from its start to the state in which it leaves the kernel's care. The two
  endless counters of \<open>preempt_demo\<close>, whose totals depend on time only. The commands of the shell (\<open>execute\<close> in \<open>shell.c\<close>), the logo (\<open>logo.c\<close>), the order of the
  set-up calls in \<open>kernel.c\<close> and the sample programs of \<open>src/user\<close> other than the allocator, which only call what is
  modelled here. Caches of address translations and the timing of devices are left out: every access walks the tables in memory.
\<close>

end
